(* ===== verification/Prelude.thy ===== *)
theory Prelude
  imports Main "HOL-Library.Word" "HOL-Library.Sublist" "HOL-Library.While_Combinator"
begin

text \<open>
  Shared vocabulary of the development: the types that stand for the machine
  types of the sources, 64-bit wrap-around written out on \<^typ>\<open>nat\<close>, the
  big-endian 16-bit integers of the quictun stream preamble, and the facts on
  lists and maps that several components use.

  \<^item> A byte is an \<^typ>\<open>8 word\<close>, a byte string a list of them.
  \<^item> \<open>QuicTime\<close> and \<open>QuicTime::Delta\<close> are integers that count microseconds.
  \<^item> \<open>u64\<close> is the reduction that an unsigned 64-bit addition performs.
  \<^item> The collections \<open>wf_intros\<close> and \<open>wf_simps\<close> hold the preservation facts and
    the rewrite rules of the invariants of the components.
\<close>

named_theorems wf_intros "every operation preserves the invariant of its component"
named_theorems wf_simps "rewrite rules for the invariants and the abstraction functions"

section \<open>Machine types\<close>

type_synonym byte = "8 word"
type_synonym bytes = "8 word list"
type_synonym QuicTime = int
type_synonym QuicTimeDelta = int

abbreviation seconds :: "int \<Rightarrow> QuicTimeDelta" where
  "seconds n \<equiv> n * 1000000"

abbreviation milliseconds :: "int \<Rightarrow> QuicTimeDelta" where
  "milliseconds n \<equiv> n * 1000"

definition u64 :: "nat \<Rightarrow> nat" where
  "u64 n = n mod 2 ^ 64"

lemma u64_small: "n < 2 ^ 64 \<Longrightarrow> u64 n = n"
  by (simp add: u64_def)

lemma u64_le: "u64 n \<le> n"
  by (simp add: u64_def)

lemma u64_add_overflow:
  assumes "a < 2 ^ 64" "b < 2 ^ 64"
  shows "u64 (a + b) < a \<longleftrightarrow> 2 ^ 64 \<le> a + b"
proof (cases "a + b < 2 ^ 64")
  case True
  then show ?thesis by (simp add: u64_def)
next
  case False
  then have "(a + b) mod 2 ^ 64 = a + b - 2 ^ 64"
    using assms by (simp add: mod_if)
  then show ?thesis using False assms by (simp add: u64_def)
qed

section \<open>Big-endian 16-bit integers\<close>

definition be16 :: "nat \<Rightarrow> bytes" where
  "be16 n = [word_of_nat (n div 256), word_of_nat n]"

definition rd16 :: "byte \<Rightarrow> byte \<Rightarrow> nat" where
  "rd16 hi lo = unat hi * 256 + unat lo"

lemma length_be16 [simp]: "length (be16 n) = 2"
  by (simp add: be16_def)

lemma unat_byte_of_nat: "unat (word_of_nat n :: byte) = n mod 256"
  by (simp add: unat_of_nat)

lemma unat_byte_less: "unat (b :: byte) < 256"
  using unsigned_less [of b] by simp

lemma rd16_be16: "rd16 (be16 n ! 0) (be16 n ! 1) = n mod 65536"
proof -
  have "n mod 65536 = 256 * (n div 256 mod 256) + n mod 256"
    using mod_mult2_eq [of n 256 256] by simp
  then show ?thesis by (simp add: rd16_def be16_def unat_byte_of_nat)
qed

lemma rd16_less: "rd16 hi lo < 65536"
  using unat_byte_less [of hi] unat_byte_less [of lo] by (simp add: rd16_def)

section \<open>Lists\<close>

lemma sorted_map_fun_upd_last:
  assumes "sorted (map f (removeAll x xs))" "\<forall>y \<in> set xs. f y \<le> t"
  shows "sorted (map (f(x := t)) (removeAll x xs @ [x]))"
proof -
  have "map (f(x := t)) (removeAll x xs) = map f (removeAll x xs)" by simp
  then show ?thesis using assms by (auto simp: sorted_append)
qed

lemma sorted_map_removeAll: "sorted (map f xs) \<Longrightarrow> sorted (map f (removeAll x xs))"
  by (induction xs) auto

lemma removeAll_last_distinct:
  assumes "distinct xs" "xs \<noteq> []" "last xs = x"
  shows "removeAll x xs @ [x] = xs"
proof -
  have "xs = butlast xs @ [x]" using assms by (metis append_butlast_last_id)
  moreover from this have "x \<notin> set (butlast xs)"
    using assms by (metis distinct_append disjoint_iff list.set_intros(1))
  ultimately show ?thesis by (metis append_Nil2 removeAll.simps(1) removeAll.simps(2) removeAll_append removeAll_id)
qed

lemma subseq_set: "subseq xs ys \<Longrightarrow> set xs \<subseteq> set ys"
  by (metis notin_set_nthsI subsetI subseq_conv_nths)

lemma subseq_sorted_map: "subseq xs ys \<Longrightarrow> sorted (map f ys) \<Longrightarrow> sorted (map f xs)"
  by (metis sorted_wrt_map subseq_map subseq_conv_nths sorted_nths)

lemma subseq_removeAll: "subseq (removeAll x xs) xs"
  by (simp add: removeAll_filter_not_eq)

end
