(* ===== verification/Interval_Set.thy ===== *)
theory Interval_Set
  imports Prelude
begin

text \<open>
  \<open>QuicInterval\<close> and \<open>QuicIntervalSet\<close> (\<open>quic_interval.h\<close>, \<open>quic_interval_set.h\<close>) at
  the offset type of the streams: half-open intervals of offsets, and a sorted
  set of pairwise separated ones.  The ordered container is the list of its
  elements in ascending order; an iterator is a split of that list, so
  \<open>lower_bound\<close> and \<open>upper_bound\<close> are a pair of a prefix and a suffix.

  Every operation is shown to keep \<open>Valid\<close>, the class's own validity check, and
  to compute the set operation it is named after on \<open>points\<close>, the set of offsets
  a list of intervals covers.
\<close>

section \<open>Intervals\<close>

type_synonym QuicInterval = "nat \<times> nat"

definition QuicInterval_Empty :: "QuicInterval \<Rightarrow> bool" where
  "QuicInterval_Empty i \<longleftrightarrow> fst i \<ge> snd i"

definition QuicInterval_Length :: "QuicInterval \<Rightarrow> nat" where
  "QuicInterval_Length i = (if QuicInterval_Empty i then fst i else snd i) - fst i"

definition QuicInterval_Contains_value :: "QuicInterval \<Rightarrow> nat \<Rightarrow> bool" where
  "QuicInterval_Contains_value i t \<longleftrightarrow> fst i \<le> t \<and> snd i > t"

definition QuicInterval_Contains :: "QuicInterval \<Rightarrow> QuicInterval \<Rightarrow> bool" where
  "QuicInterval_Contains i j \<longleftrightarrow>
     \<not> QuicInterval_Empty i \<and> \<not> QuicInterval_Empty j \<and> fst i \<le> fst j \<and> snd i \<ge> snd j"

definition QuicInterval_Intersects :: "QuicInterval \<Rightarrow> QuicInterval \<Rightarrow> bool" where
  "QuicInterval_Intersects i j \<longleftrightarrow>
     \<not> QuicInterval_Empty i \<and> \<not> QuicInterval_Empty j \<and> fst i < snd j \<and> snd i > fst j"

definition QuicInterval_Separated :: "QuicInterval \<Rightarrow> QuicInterval \<Rightarrow> bool" where
  "QuicInterval_Separated i other \<longleftrightarrow>
     (if QuicInterval_Empty i \<or> QuicInterval_Empty other then True
      else snd other < fst i \<or> snd i < fst other)"

definition QuicInterval_SpanningUnion :: "QuicInterval \<Rightarrow> QuicInterval \<Rightarrow> QuicInterval" where
  "QuicInterval_SpanningUnion this i =
     (if QuicInterval_Empty i then this
      else if QuicInterval_Empty this then i
      else (if fst i < fst this then fst i else fst this,
            if snd i > snd this then snd i else snd this))"

lemmas interval_defs = QuicInterval_Empty_def QuicInterval_Contains_value_def
  QuicInterval_Contains_def QuicInterval_Intersects_def QuicInterval_Separated_def
  QuicInterval_SpanningUnion_def

section \<open>Interval sets\<close>

type_synonym QuicIntervalSet = "QuicInterval list"

definition lower_bound :: "nat \<Rightarrow> QuicIntervalSet \<Rightarrow> QuicIntervalSet \<times> QuicIntervalSet" where
  "lower_bound v s = (takeWhile (\<lambda>i. fst i < v) s, dropWhile (\<lambda>i. fst i < v) s)"

definition upper_bound :: "nat \<Rightarrow> QuicIntervalSet \<Rightarrow> QuicIntervalSet \<times> QuicIntervalSet" where
  "upper_bound v s = (takeWhile (\<lambda>i. \<not> v < fst i) s, dropWhile (\<lambda>i. \<not> v < fst i) s)"

definition Set_insert :: "QuicInterval \<Rightarrow> QuicIntervalSet \<Rightarrow> QuicIntervalSet" where
  "Set_insert x s =
     (case lower_bound (fst x) s of (pre, suf) \<Rightarrow>
        (if suf \<noteq> [] \<and> \<not> fst x < fst (hd suf) then s else pre @ x # suf))"

fun Add_absorb :: "QuicInterval \<Rightarrow> QuicIntervalSet \<Rightarrow> QuicInterval \<times> QuicIntervalSet" where
  "Add_absorb the_union [] = (the_union, [])"
| "Add_absorb the_union (it # rest) =
     (if QuicInterval_Separated it the_union then (the_union, it # rest)
      else Add_absorb (QuicInterval_SpanningUnion the_union it) rest)"

definition QuicIntervalSet_Add :: "QuicInterval \<Rightarrow> QuicIntervalSet \<Rightarrow> QuicIntervalSet" where
  "QuicIntervalSet_Add interval s =
     (if QuicInterval_Empty interval then s
      else case lower_bound (fst interval) s of (pre, suf) \<Rightarrow>
        let (before, start) =
              (if pre \<noteq> [] \<and> \<not> QuicInterval_Separated (last pre) interval
               then (butlast pre, last pre # suf) else (pre, suf));
            (the_union, rest) = Add_absorb interval start
        in Set_insert the_union (before @ rest))"

definition quic_interval_set_enable_add_optimization :: bool where
  "quic_interval_set_enable_add_optimization = True"

definition QuicIntervalSet_AddOptimizedForAppend ::
    "QuicInterval \<Rightarrow> QuicIntervalSet \<Rightarrow> QuicIntervalSet" where
  "QuicIntervalSet_AddOptimizedForAppend interval s =
     (if s = [] \<or> \<not> quic_interval_set_enable_add_optimization then QuicIntervalSet_Add interval s
      else let last_interval = last s in
        if fst interval < fst last_interval \<or> fst interval > snd last_interval
        then QuicIntervalSet_Add interval s
        else if snd interval \<le> snd last_interval then s
        else butlast s @ [(fst last_interval, snd interval)])"

definition QuicIntervalSet_PopFront :: "QuicIntervalSet \<Rightarrow> QuicIntervalSet" where
  "QuicIntervalSet_PopFront s = tl s"

fun QuicIntervalSet_TrimLessThan :: "nat \<Rightarrow> QuicIntervalSet \<Rightarrow> bool \<times> QuicIntervalSet" where
  "QuicIntervalSet_TrimLessThan value [] = (False, [])"
| "QuicIntervalSet_TrimLessThan value (i # s) =
     (if fst i \<ge> value then (False, i # s)
      else if snd i \<le> value then (True, snd (QuicIntervalSet_TrimLessThan value s))
      else (True, (value, snd i) # s))"

definition QuicIntervalSet_SpanningInterval :: "QuicIntervalSet \<Rightarrow> QuicInterval" where
  "QuicIntervalSet_SpanningInterval s = (if s \<noteq> [] then (fst (hd s), snd (last s)) else (0, 0))"

definition QuicIntervalSet_Contains_value :: "nat \<Rightarrow> QuicIntervalSet \<Rightarrow> bool" where
  "QuicIntervalSet_Contains_value v s =
     (case upper_bound v s of (pre, _) \<Rightarrow>
        if pre = [] then False else QuicInterval_Contains_value (last pre) v)"

definition QuicIntervalSet_Contains :: "QuicInterval \<Rightarrow> QuicIntervalSet \<Rightarrow> bool" where
  "QuicIntervalSet_Contains interval s =
     (case upper_bound (fst interval) s of (pre, _) \<Rightarrow>
        if pre = [] then False else QuicInterval_Contains (last pre) interval)"

definition QuicIntervalSet_Find :: "nat \<Rightarrow> QuicIntervalSet \<Rightarrow> QuicInterval option" where
  "QuicIntervalSet_Find v s =
     (case upper_bound v s of (pre, _) \<Rightarrow>
        if pre = [] then None
        else if QuicInterval_Contains_value (last pre) v then Some (last pre) else None)"

definition QuicIntervalSet_LowerBound :: "nat \<Rightarrow> QuicIntervalSet \<Rightarrow> QuicIntervalSet" where
  "QuicIntervalSet_LowerBound v s =
     (case lower_bound v s of (pre, suf) \<Rightarrow>
        if pre = [] then suf
        else if QuicInterval_Contains_value (last pre) v then last pre # suf else suf)"

definition QuicIntervalSet_IsDisjoint :: "QuicInterval \<Rightarrow> QuicIntervalSet \<Rightarrow> bool" where
  "QuicIntervalSet_IsDisjoint interval s =
     (if QuicInterval_Empty interval then True
      else case upper_bound (fst interval) s of (pre, suf) \<Rightarrow>
        if suf \<noteq> [] \<and> snd interval > fst (hd suf) then False
        else if pre = [] then True
        else snd (last pre) \<le> fst interval)"

definition QuicIntervalSet_Union :: "QuicIntervalSet \<Rightarrow> QuicIntervalSet \<Rightarrow> QuicIntervalSet" where
  "QuicIntervalSet_Union other s = fold QuicIntervalSet_Add other s"

text \<open>The two-pointer walk of \<open>Difference\<close>: \<open>my\<close> is what is left of the interval
  at \<open>mine\<close>, and the result is built front to back.\<close>

function Difference_loop ::
    "QuicInterval \<Rightarrow> QuicIntervalSet \<Rightarrow> QuicIntervalSet \<Rightarrow> QuicIntervalSet \<Rightarrow> QuicIntervalSet" where
  "Difference_loop my mine theirs result =
     (let (my', theirs', result') =
        (if theirs = [] \<or> snd my \<le> fst (hd theirs) then ((0, 0), theirs, result @ [my])
         else if snd (hd theirs) \<le> fst my then (my, tl theirs, result)
         else if fst my < fst (hd theirs)
           then ((snd (hd theirs), snd my), theirs, result @ [(fst my, fst (hd theirs))])
         else ((snd (hd theirs), snd my), theirs, result))
      in if QuicInterval_Empty my'
         then (case mine of [] \<Rightarrow> result' | m # mine' \<Rightarrow> Difference_loop m mine' theirs' result')
         else Difference_loop my' mine theirs' result')"
  by pat_completeness auto

termination
  by (relation "measures [\<lambda>(my, mine, theirs, result). length mine,
      \<lambda>(my, mine, theirs, result). length theirs, \<lambda>(my, mine, theirs, result). snd my - fst my]")
    (auto simp: QuicInterval_Empty_def split: if_splits)

declare Difference_loop.simps [simp del]

definition QuicIntervalSet_Difference :: "QuicIntervalSet \<Rightarrow> QuicIntervalSet \<Rightarrow> QuicIntervalSet" where
  "QuicIntervalSet_Difference other s =
     (case s of [] \<Rightarrow> [] | m # mine \<Rightarrow> Difference_loop m mine other [])"

definition QuicIntervalSet_Complement :: "nat \<Rightarrow> nat \<Rightarrow> QuicIntervalSet \<Rightarrow> QuicIntervalSet" where
  "QuicIntervalSet_Complement lo hi s = QuicIntervalSet_Difference s (QuicIntervalSet_Add (lo, hi) [])"

fun QuicIntervalSet_Intersects :: "QuicIntervalSet \<Rightarrow> QuicIntervalSet \<Rightarrow> bool" where
  "QuicIntervalSet_Intersects [] theirs = False"
| "QuicIntervalSet_Intersects mine [] = False"
| "QuicIntervalSet_Intersects (i # mine) (j # theirs) =
     (if QuicInterval_Intersects i j then True
      else if fst i < fst j \<or> (\<not> fst j < fst i \<and> snd j < snd i)
      then QuicIntervalSet_Intersects mine (j # theirs)
      else QuicIntervalSet_Intersects (i # mine) theirs)"

fun Valid_from :: "QuicInterval option \<Rightarrow> QuicIntervalSet \<Rightarrow> bool" where
  "Valid_from prev [] = True"
| "Valid_from prev (it # s) =
     (if fst it \<ge> snd it then False
      else if (case prev of None \<Rightarrow> False | Some p \<Rightarrow> snd p \<ge> fst it) then False
      else Valid_from (Some it) s)"

definition QuicIntervalSet_Valid :: "QuicIntervalSet \<Rightarrow> bool" where
  "QuicIntervalSet_Valid s = Valid_from None s"

section \<open>Validity and the points covered\<close>

definition points :: "QuicIntervalSet \<Rightarrow> nat set" where
  "points s = (\<Union>i \<in> set s. {fst i..<snd i})"

lemma points_simps [simp]:
  "points [] = {}" "points (i # s) = {fst i..<snd i} \<union> points s"
  "points (s @ t) = points s \<union> points t"
  by (auto simp: points_def)

lemma mem_points: "x \<in> points s \<longleftrightarrow> (\<exists>i \<in> set s. fst i \<le> x \<and> x < snd i)"
  by (auto simp: points_def)

lemma finite_points [simp]: "finite (points s)"
  by (simp add: points_def)

text \<open>The declarative form of \<open>Valid\<close>: nonempty intervals, each one strictly
  after the previous one with a gap between them.\<close>

definition separated_list :: "QuicIntervalSet \<Rightarrow> bool" where
  "separated_list s \<longleftrightarrow> sorted_wrt (\<lambda>a b. snd a < fst b) s \<and> (\<forall>i \<in> set s. fst i < snd i)"

lemma separated_simps [simp]:
  "separated_list []"
  "separated_list (i # s) \<longleftrightarrow> fst i < snd i \<and> (\<forall>j \<in> set s. snd i < fst j) \<and> separated_list s"
  by (auto simp: separated_list_def)

lemma separated_append:
  "separated_list (s @ t) \<longleftrightarrow>
     separated_list s \<and> separated_list t \<and> (\<forall>i \<in> set s. \<forall>j \<in> set t. snd i < fst j)"
  by (auto simp: separated_list_def sorted_wrt_append)

lemma separated_nonempty: "separated_list s \<Longrightarrow> i \<in> set s \<Longrightarrow> fst i < snd i"
  by (simp add: separated_list_def)

lemma Valid_from_iff:
  "Valid_from prev s \<longleftrightarrow> separated_list s \<and> (\<forall>p. prev = Some p \<longrightarrow> (\<forall>i \<in> set s. snd p < fst i))"
proof (induction prev s rule: Valid_from.induct)
  case (2 prev it s)
  have "snd p < fst j" if "snd p < fst it" "fst it < snd it" "snd it < fst j" for p j :: QuicInterval
    using that by linarith
  with 2 show ?case by (cases prev) (auto simp del: split_paired_All)
qed simp

lemma Valid_iff [wf_simps]: "QuicIntervalSet_Valid s \<longleftrightarrow> separated_list s"
  by (simp add: QuicIntervalSet_Valid_def Valid_from_iff)

lemma separated_fst_less:
  "separated_list s \<Longrightarrow> sorted_wrt (\<lambda>a b. fst a < fst b) s"
  by (induction s) (auto dest!: bspec)

lemma separated_lower_bound:
  assumes "separated_list s" "lower_bound v s = (pre, suf)"
  shows "s = pre @ suf" "\<forall>i \<in> set pre. fst i < v" "\<forall>i \<in> set suf. v \<le> fst i"
  using assms(2)
proof -
  have split: "s = pre @ suf" and pre: "\<forall>i \<in> set pre. fst i < v"
    and suf: "suf = dropWhile (\<lambda>i. fst i < v) s"
    using assms(2) by (auto simp: lower_bound_def dest: set_takeWhileD)
  show "s = pre @ suf" "\<forall>i \<in> set pre. fst i < v" by fact+
  show "\<forall>i \<in> set suf. v \<le> fst i"
  proof (cases suf)
    case (Cons a t)
    then have "v \<le> fst a" using suf hd_dropWhile [of "\<lambda>i. fst i < v" s] by (auto simp: not_less)
    moreover have "separated_list (a # t)" using assms(1) split Cons by (simp add: separated_append)
    ultimately show ?thesis using Cons by fastforce
  qed simp
qed

lemma separated_upper_bound:
  assumes "separated_list s" "upper_bound v s = (pre, suf)"
  shows "s = pre @ suf" "\<forall>i \<in> set pre. fst i \<le> v" "\<forall>i \<in> set suf. v < fst i"
proof -
  have "lower_bound (Suc v) s = (pre, suf)"
    using assms(2) by (simp add: lower_bound_def upper_bound_def not_less less_Suc_eq_le)
  from separated_lower_bound [OF assms(1) this]
  show "s = pre @ suf" "\<forall>i \<in> set pre. fst i \<le> v" "\<forall>i \<in> set suf. v < fst i" by auto
qed

section \<open>Add computes the union\<close>

lemma Add_absorb_correct:
  assumes "Add_absorb u it = (u', rest)" "fst u < snd u" "separated_list it"
    "\<forall>i \<in> set it. fst u \<le> snd i" "\<forall>b \<in> B. b < fst u" "\<forall>b \<in> B. \<forall>i \<in> set it. b < fst i"
  shows "(\<forall>b \<in> B. b < fst u') \<and> fst u' < snd u' \<and> separated_list rest \<and>
    (\<forall>i \<in> set rest. snd u' < fst i) \<and> set rest \<subseteq> set it \<and>
    {fst u'..<snd u'} \<union> points rest = {fst u..<snd u} \<union> points it"
  using assms
proof (induction it arbitrary: u)
  case (Cons i it)
  let ?w = "QuicInterval_SpanningUnion u i"
  have i: "fst i < snd i" "fst u \<le> snd i" "\<forall>b \<in> B. b < fst i"
    and it: "\<forall>j \<in> set it. snd i < fst j \<and> fst j < snd j"
    using Cons.prems by (auto simp: separated_list_def)
  show ?case
  proof (cases "QuicInterval_Separated i u")
    case True
    then have "snd u < fst i" using Cons.prems i by (auto simp: interval_defs)
    with True Cons.prems it i show ?thesis by fastforce
  next
    case False
    then have w: "fst ?w = min (fst u) (fst i)" "snd ?w = max (snd u) (snd i)" "fst i \<le> snd u"
      using Cons.prems(2) i by (auto simp: interval_defs)
    have "\<forall>j \<in> set it. fst ?w \<le> snd j" using it i w by fastforce
    then have "(\<forall>b \<in> B. b < fst u') \<and> fst u' < snd u' \<and> separated_list rest \<and>
      (\<forall>i \<in> set rest. snd u' < fst i) \<and> set rest \<subseteq> set it \<and>
      {fst u'..<snd u'} \<union> points rest = {fst ?w..<snd ?w} \<union> points it"
      using Cons.IH [of ?w] Cons.prems False w i by auto
    moreover have "{fst ?w..<snd ?w} = {fst u..<snd u} \<union> {fst i..<snd i}"
      using w i Cons.prems(2) by auto
    ultimately show ?thesis by auto
  qed
qed auto

lemma Set_insert_between:
  assumes "separated_list (pre @ x # suf)"
  shows "Set_insert x (pre @ suf) = pre @ x # suf"
proof -
  have pre: "fst i < fst x" if "i \<in> set pre" for i
  proof -
    have "fst i < snd i" "snd i < fst x"
      using that assms separated_nonempty [of pre i] by (auto simp: separated_append)
    then show ?thesis by simp
  qed
  have suf: "fst x < fst i" if "i \<in> set suf" for i
  proof -
    have "fst x < snd x" "snd x < fst i" using that assms by (auto simp: separated_append)
    then show ?thesis by simp
  qed
  have "takeWhile (\<lambda>i. fst i < fst x) suf = []" "dropWhile (\<lambda>i. fst i < fst x) suf = suf"
    using suf [of "hd suf"] by (cases suf; simp)+
  then have "takeWhile (\<lambda>i. fst i < fst x) (pre @ suf) = pre"
    "dropWhile (\<lambda>i. fst i < fst x) (pre @ suf) = suf"
    using pre by (simp_all add: takeWhile_append2 dropWhile_append2)
  moreover have "suf = [] \<or> fst x < fst (hd suf)"
    using suf by (cases suf) auto
  ultimately show ?thesis by (auto simp: Set_insert_def lower_bound_def)
qed

lemma separated_last:
  assumes "separated_list pre" "pre \<noteq> []" "j \<in> set (butlast pre)"
  shows "snd j < fst (last pre)"
  using assms by (metis append_butlast_last_id list.set_intros(1) separated_append)

text \<open>The start of the run that \<open>Add\<close> absorbs: what stays in front of it ends
  strictly before the new interval, and nothing of the run does.\<close>

lemma Add_start:
  assumes "separated_list (pre @ suf)" "\<forall>i \<in> set pre. fst i < fst x" "\<forall>i \<in> set suf. fst x \<le> fst i"
    "fst x < snd x"
    "(before, start) = (if pre \<noteq> [] \<and> \<not> QuicInterval_Separated (last pre) x
       then (butlast pre, last pre # suf) else (pre, suf))"
  shows "before @ start = pre @ suf" "\<forall>j \<in> set before. snd j < fst x" "\<forall>k \<in> set start. fst x \<le> snd k"
proof -
  have suf: "fst x \<le> snd k" if "k \<in> set suf" for k
  proof -
    have "fst x \<le> fst k" "fst k < snd k"
      using that assms(1,3) by (auto simp: separated_append separated_list_def)
    then show ?thesis by simp
  qed
  show "before @ start = pre @ suf" using assms(5) by (auto split: if_splits)
  have "(\<forall>j \<in> set before. snd j < fst x) \<and> (\<forall>k \<in> set start. fst x \<le> snd k)"
  proof (cases "pre = []")
    case True
    then show ?thesis using assms(5) suf by simp
  next
    case False
    let ?l = "last pre"
    have l: "fst ?l < snd ?l" "fst ?l < fst x" and sp: "separated_list pre"
      using False assms(1,2) separated_nonempty [of pre "last pre"] by (auto simp: separated_append)
    have bl: "snd j < fst ?l" if "j \<in> set (butlast pre)" for j
      using separated_last [OF sp False that] .
    show ?thesis
    proof (cases "QuicInterval_Separated ?l x")
      case True
      then have lx: "snd ?l < fst x" using l assms(4) by (auto simp: interval_defs)
      have "snd j < fst x" if "j \<in> set pre" for j
      proof (cases "j \<in> set (butlast pre)")
        case True
        then show ?thesis using bl [OF True] l by simp
      next
        case False
        then have "j = ?l" using that \<open>pre \<noteq> []\<close>
          by (metis append_butlast_last_id in_set_conv_decomp_last rotate1.simps(2) set_ConsD set_rotate1)
        then show ?thesis using lx by simp
      qed
      then show ?thesis using True assms(5) suf by simp
    next
      case False
      then have "fst x \<le> snd ?l" using l assms(4) by (auto simp: interval_defs)
      moreover have "snd j < fst x" if "j \<in> set (butlast pre)" for j
        using bl [OF that] l by simp
      ultimately show ?thesis using False \<open>pre \<noteq> []\<close> assms(5) suf by simp
    qed
  qed
  then show "\<forall>j \<in> set before. snd j < fst x" "\<forall>k \<in> set start. fst x \<le> snd k" by auto
qed

lemma Add_correct:
  assumes "separated_list s"
  shows "separated_list (QuicIntervalSet_Add i s) \<and>
    points (QuicIntervalSet_Add i s) = points s \<union> {fst i..<snd i}"
proof (cases "QuicInterval_Empty i")
  case True
  then show ?thesis using assms by (simp add: QuicIntervalSet_Add_def QuicInterval_Empty_def)
next
  case False
  then have ne: "fst i < snd i" by (simp add: QuicInterval_Empty_def)
  obtain pre suf where lb: "lower_bound (fst i) s = (pre, suf)" by fastforce
  note lbs = separated_lower_bound [OF assms lb]
  obtain before start where bs: "(before, start) =
      (if pre \<noteq> [] \<and> \<not> QuicInterval_Separated (last pre) i
       then (butlast pre, last pre # suf) else (pre, suf))" by (metis surj_pair)
  note st = Add_start [OF assms [unfolded lbs(1)] lbs(2,3) ne bs]
  have sep: "separated_list before" "separated_list start"
    "\<forall>j \<in> set before. \<forall>k \<in> set start. snd j < fst k"
    using assms [unfolded lbs(1), folded st(1)] by (auto simp: separated_append)
  obtain u rest where ar: "Add_absorb i start = (u, rest)" by fastforce
  have c: "(\<forall>b \<in> snd ` set before. b < fst u) \<and> fst u < snd u \<and> separated_list rest \<and>
    (\<forall>i \<in> set rest. snd u < fst i) \<and> set rest \<subseteq> set start \<and>
    {fst u..<snd u} \<union> points rest = {fst i..<snd i} \<union> points start"
    by (rule Add_absorb_correct [OF ar ne sep(2) st(3)]) (use st(2) sep(3) in auto)
  have "snd j < fst k" if "j \<in> set before" "k \<in> set rest" for j k
    using that c sep(3) by (meson subsetD)
  with c have sl: "separated_list (before @ u # rest)"
    using sep by (simp add: separated_append)
  have "QuicIntervalSet_Add i s = Set_insert u (before @ rest)"
    unfolding QuicIntervalSet_Add_def lb prod.case bs [symmetric] Let_def ar using False by simp
  then have "QuicIntervalSet_Add i s = before @ u # rest"
    using Set_insert_between [OF sl] by simp
  moreover have "points s = points before \<union> points start"
    using lbs(1) st(1) by (metis points_simps(3))
  then have "points (before @ u # rest) = points s \<union> {fst i..<snd i}"
    using c unfolding points_simps by blast
  ultimately show ?thesis using sl by simp
qed

text \<open>A valid set is determined by the points it covers, so two routines that
  compute the same set of points return the same list.\<close>

lemma separated_least:
  assumes "separated_list (i # s)" "x \<in> points (i # s)"
  shows "fst i \<le> x"
proof -
  obtain j where "j \<in> set (i # s)" "fst j \<le> x" using assms(2) unfolding mem_points by blast
  then show ?thesis using assms(1) by (cases "j = i") (auto dest!: bspec [of _ _ j])
qed

lemma separated_gap: "separated_list (i # s) \<Longrightarrow> snd i \<notin> points (i # s)"
  by (auto simp: mem_points dest: bspec)

lemma separated_tail_points:
  assumes "separated_list (i # s)"
  shows "points s = points (i # s) - {fst i..<snd i}"
  using assms by (fastforce simp: mem_points)

lemma separated_unique:
  "separated_list s \<Longrightarrow> separated_list t \<Longrightarrow> points s = points t \<Longrightarrow> s = t"
proof (induction s arbitrary: t)
  case Nil
  then show ?case by (cases t) auto
next
  case (Cons i s)
  have "fst i \<in> points (i # s)" using Cons.prems(1) by simp
  then obtain j t' where t: "t = j # t'" using Cons.prems by (cases t) auto
  have j: "fst j \<in> points (j # t')" using Cons.prems(2) t by simp
  have eq: "points (i # s) = points (j # t')" using Cons.prems(3) t by simp
  have f: "fst i = fst j"
    using separated_least [of i s "fst j"] separated_least [of j t' "fst i"] Cons.prems t j eq
      \<open>fst i \<in> points (i # s)\<close> by (metis order_antisym)
  have "snd i \<notin> points (j # t')" "snd j \<notin> points (i # s)"
    using separated_gap [of i s] separated_gap [of j t'] Cons.prems(1,2) t eq by auto
  then have "\<not> snd i < snd j" "\<not> snd j < snd i"
    using Cons.prems(1,2) t f by auto
  then have "i = j" using f by (simp add: prod_eq_iff)
  moreover from this have "points s = points t'"
    using separated_tail_points [of i s] separated_tail_points [of j t'] Cons.prems(1,2) t eq by simp
  ultimately show ?case using Cons t by simp
qed

section \<open>The other operations\<close>

lemma AddOptimizedForAppend_points:
  assumes "separated_list s"
  shows "separated_list (QuicIntervalSet_AddOptimizedForAppend i s) \<and>
    points (QuicIntervalSet_AddOptimizedForAppend i s) = points s \<union> {fst i..<snd i}"
proof (cases "s = [] \<or> fst i < fst (last s) \<or> fst i > snd (last s)")
  case True
  then show ?thesis using Add_correct [OF assms, of i]
    by (auto simp: QuicIntervalSet_AddOptimizedForAppend_def Let_def)
next
  case False
  then obtain b l where s: "s = b @ [l]" by (metis append_butlast_last_id)
  then show ?thesis using assms False
    by (auto simp: QuicIntervalSet_AddOptimizedForAppend_def Let_def separated_append
        quic_interval_set_enable_add_optimization_def)
qed

lemma Add_points [simp]: "separated_list s \<Longrightarrow> points (QuicIntervalSet_Add i s) = points s \<union> {fst i..<snd i}"
  and Add_separated [intro, wf_intros]: "separated_list s \<Longrightarrow> separated_list (QuicIntervalSet_Add i s)"
  using Add_correct by blast+

lemma AddOptimizedForAppend_eq_Add:
  "separated_list s \<Longrightarrow> QuicIntervalSet_AddOptimizedForAppend i s = QuicIntervalSet_Add i s"
  using AddOptimizedForAppend_points [of s i] by (intro separated_unique) auto

lemma Union_correct:
  "separated_list s \<Longrightarrow> separated_list (QuicIntervalSet_Union t s) \<and>
    points (QuicIntervalSet_Union t s) = points s \<union> points t"
  unfolding QuicIntervalSet_Union_def
  by (induction t arbitrary: s) (simp_all add: Add_separated Un_assoc)

lemma Contains_value_iff:
  assumes "separated_list s"
  shows "QuicIntervalSet_Contains_value v s \<longleftrightarrow> v \<in> points s"
proof -
  obtain pre suf where ub: "upper_bound v s = (pre, suf)" by fastforce
  note u = separated_upper_bound [OF assms ub]
  show ?thesis
  proof (cases "pre = []")
    case True
    then show ?thesis using u ub by (auto simp: QuicIntervalSet_Contains_value_def mem_points)
  next
    case False
    then obtain b l where p: "pre = b @ [l]" by (metis append_butlast_last_id)
    then have "\<forall>j \<in> set b. snd j < fst l" using assms u(1) by (auto simp: separated_append)
    moreover have "fst l \<le> v" using u(2) p by simp
    ultimately have "v \<notin> points b" "v \<notin> points suf" using u(3) by (fastforce simp: mem_points)+
    then show ?thesis using u(1) p ub by (auto simp: QuicIntervalSet_Contains_value_def interval_defs)
  qed
qed

lemma separated_last_max:
  assumes "separated_list s" "x \<in> points s"
  shows "s \<noteq> [] \<and> x < snd (last s)"
proof -
  obtain i where i: "i \<in> set s" "x < snd i" using assms(2) unfolding mem_points by blast
  then obtain b l where s: "s = b @ [l]" by (metis append_butlast_last_id empty_iff list.set(1))
  have "i = l \<or> (snd i < fst l \<and> fst l < snd l)" using assms(1) i(1) s by (auto simp: separated_append)
  then show ?thesis using i(2) s by auto
qed

lemma separated_ne: "separated_list s \<Longrightarrow> s \<noteq> [] \<Longrightarrow> fst (hd s) \<in> points s"
  by (cases s) auto

lemma separated_gap_mem:
  assumes "separated_list s" "i \<in> set s"
  shows "snd i \<notin> points s"
proof -
  obtain b t where s: "s = b @ i # t" using assms(2) by (meson split_list)
  have "snd i \<notin> points b"
    using assms(1) s separated_nonempty [OF assms] by (fastforce simp: separated_append mem_points)
  moreover have "snd i \<notin> points (i # t)"
    using assms(1) s separated_gap [of i t] by (simp add: separated_append)
  ultimately show ?thesis using s by simp
qed

lemma Contains_iff:
  assumes s: "separated_list s" and ab: "a < b"
  shows "QuicIntervalSet_Contains (a, b) s \<longleftrightarrow> {a..<b} \<subseteq> points s"
proof
  obtain pre suf where ub: "upper_bound a s = (pre, suf)" by fastforce
  note u = separated_upper_bound [OF s ub]
  show "{a..<b} \<subseteq> points s" if "QuicIntervalSet_Contains (a, b) s"
  proof -
    have "pre \<noteq> []" "QuicInterval_Contains (last pre) (a, b)"
      using that ub by (auto simp: QuicIntervalSet_Contains_def split: if_splits)
    then have "last pre \<in> set s" "fst (last pre) \<le> a" "b \<le> snd (last pre)"
      using u(1) by (auto simp: QuicInterval_Contains_def)
    then show ?thesis unfolding points_def by fastforce
  qed
  show "QuicIntervalSet_Contains (a, b) s" if sub: "{a..<b} \<subseteq> points s"
  proof -
    have "QuicIntervalSet_Contains_value a s" using sub ab Contains_value_iff [OF s] by auto
    then have l: "pre \<noteq> []" "fst (last pre) \<le> a" "a < snd (last pre)"
      using ub by (auto simp: QuicIntervalSet_Contains_value_def interval_defs split: if_splits)
    have "snd (last pre) \<notin> points s" using l(1) u(1) by (intro separated_gap_mem [OF s]) auto
    then have "b \<le> snd (last pre)"
      using sub l(3) by (meson atLeastLessThan_iff less_imp_le not_le subsetD)
    then show ?thesis using l ab ub by (simp add: QuicIntervalSet_Contains_def QuicInterval_Contains_def interval_defs)
  qed
qed

lemma IsDisjoint_iff:
  assumes "separated_list s"
  shows "QuicIntervalSet_IsDisjoint i s \<longleftrightarrow> points s \<inter> {fst i..<snd i} = {}"
proof (cases "QuicInterval_Empty i")
  case True
  then show ?thesis by (simp add: QuicIntervalSet_IsDisjoint_def QuicInterval_Empty_def)
next
  case False
  obtain pre suf where ub: "upper_bound (fst i) s = (pre, suf)" by fastforce
  note u = separated_upper_bound [OF assms ub]
  have suf: "points suf \<inter> {fst i..<snd i} = {} \<longleftrightarrow> suf = [] \<or> snd i \<le> fst (hd suf)"
  proof (cases suf)
    case (Cons k t)
    have k: "separated_list (k # t)" using assms u(1) Cons by (simp add: separated_append)
    then have "fst k \<in> points (k # t)" "fst i < fst k" using u(3) Cons by auto
    then show ?thesis using Cons separated_least [OF k] by fastforce
  qed simp
  have pre: "points pre \<inter> {fst i..<snd i} = {} \<longleftrightarrow> pre = [] \<or> snd (last pre) \<le> fst i"
  proof (cases "pre = []")
    case ne: False
    then obtain b l where p: "pre = b @ [l]" by (metis append_butlast_last_id)
    then have b: "\<forall>j \<in> set b. snd j < fst l" and l: "fst l \<le> fst i" "fst l < snd l"
      using assms u(1,2) by (auto simp: separated_append)
    then have "x < fst l" if "x \<in> points b" for x
      using that by (meson mem_points order.strict_trans)
    then show ?thesis using p l False by (fastforce simp: QuicInterval_Empty_def)
  qed simp
  have "points s \<inter> {fst i..<snd i} = {} \<longleftrightarrow>
    points pre \<inter> {fst i..<snd i} = {} \<and> points suf \<inter> {fst i..<snd i} = {}"
    using u(1) by auto
  then show ?thesis using False ub pre suf by (auto simp: QuicIntervalSet_IsDisjoint_def)
qed

lemma points_ge: "(\<forall>i \<in> set s. m \<le> fst i) \<Longrightarrow> x \<in> points s \<Longrightarrow> m \<le> x"
  unfolding mem_points by (meson order_trans)

definition Difference_next :: "QuicIntervalSet \<Rightarrow> QuicIntervalSet \<Rightarrow> QuicIntervalSet \<Rightarrow> QuicIntervalSet" where
  "Difference_next mine theirs result =
     (case mine of [] \<Rightarrow> result | m # mine' \<Rightarrow> Difference_loop m mine' theirs result)"

lemma Difference_loop_keep:
  "theirs = [] \<or> snd my \<le> fst (hd theirs) \<Longrightarrow>
   Difference_loop my mine theirs result = Difference_next mine theirs (result @ [my])"
  by (auto simp: Difference_loop.simps [of my] QuicInterval_Empty_def Difference_next_def)

lemma Difference_loop_skip:
  "fst my < snd my \<Longrightarrow> fst h < snd my \<Longrightarrow> snd h \<le> fst my \<Longrightarrow>
   Difference_loop my mine (h # t) result = Difference_loop my mine t result"
  by (simp add: Difference_loop.simps [of my mine "h # t"] QuicInterval_Empty_def)

lemma Difference_loop_cut:
  "fst h < snd my \<Longrightarrow> fst my < snd h \<Longrightarrow>
   Difference_loop my mine (h # t) result =
     (let result' = (if fst my < fst h then result @ [(fst my, fst h)] else result) in
      if snd my \<le> snd h then Difference_next mine (h # t) result'
      else Difference_loop (snd h, snd my) mine (h # t) result')"
  by (simp add: Difference_loop.simps [of my mine "h # t"] QuicInterval_Empty_def Difference_next_def Let_def)

lemma points_before:
  assumes "separated_list s" "s = [] \<or> b \<le> fst (hd s)"
  shows "{a..<b} \<inter> points s = {}"
proof (cases s)
  case (Cons h t)
  then show ?thesis using assms separated_least [of h t] by fastforce
qed simp

lemma points_cut:
  assumes "separated_list (h # t)" "fst h < b" "a < snd h"
  shows "{a..<b} - points (h # t) = {a..<fst h} \<union> ({snd h..<b} - points (h # t))"
proof -
  have "{a..<fst h} \<inter> points (h # t) = {}" using assms by (intro points_before) auto
  then show ?thesis using assms(2,3) by auto
qed

lemma cut_result:
  assumes "separated_list r" "\<forall>x \<in> set r. snd x < a" "a < snd h" "fst h < snd h" "fst h < b" "a < b"
    "r' = (if a < fst h then r @ [(a, fst h)] else r)"
  shows "separated_list r'" "\<forall>x \<in> set r'. snd x < snd h" "\<forall>x \<in> set r'. snd x \<le> b"
    "points r' = points r \<union> {a..<fst h}"
proof -
  have "snd x < snd h \<and> snd x \<le> b" if "x \<in> set r" for x
    using bspec [OF assms(2) that] assms(3,6) by simp
  then show "separated_list r'" "\<forall>x \<in> set r'. snd x < snd h" "\<forall>x \<in> set r'. snd x \<le> b"
    "points r' = points r \<union> {a..<fst h}"
    using assms by (simp_all add: separated_append)
qed

lemma Difference_loop_correct:
  assumes "separated_list (my # mine)" "separated_list theirs" "separated_list result"
    "\<forall>r \<in> set result. snd r < fst my"
  shows "separated_list (Difference_loop my mine theirs result) \<and>
    points (Difference_loop my mine theirs result) =
      points result \<union> (points (my # mine) - points theirs)"
  using assms
proof (induction "(\<Sum>i \<leftarrow> my # mine. QuicInterval_Length i) + length mine + length theirs"
    arbitrary: my mine theirs result rule: less_induct)
  case less
  have next_ok: "separated_list (Difference_next mine theirs r) \<and>
      points (Difference_next mine theirs r) = points r \<union> (points mine - points theirs)"
    if "separated_list r" "\<forall>x \<in> set r. snd x \<le> snd my" for r
  proof (cases mine)
    case (Cons m mine')
    have "\<forall>x \<in> set r. snd x < fst m"
      using that(2) less.prems(1) Cons by (auto intro: order.strict_trans1)
    then show ?thesis using that less.prems less.hyps [of m mine' theirs r] Cons
      by (simp add: Difference_next_def)
  qed (use that in \<open>simp add: Difference_next_def\<close>)
  have my: "fst my < snd my" using less.prems(1) by simp
  show ?case
  proof (cases "theirs = [] \<or> snd my \<le> fst (hd theirs)")
    case True
    have "separated_list (result @ [my])" "\<forall>x \<in> set (result @ [my]). snd x \<le> snd my"
      using less.prems my by (auto simp: separated_append)
    then show ?thesis
      unfolding Difference_loop_keep [OF True]
      using next_ok points_before [OF less.prems(2) True, of "fst my"] by auto
  next
    case False
    then obtain h t where th: "theirs = h # t" and h: "fst h < snd my" "fst h < snd h"
      using less.prems(2) by (cases theirs) auto
    show ?thesis
    proof (cases "snd h \<le> fst my")
      case True
      have "{fst h..<snd h} \<inter> points (my # mine) = {}"
        using points_before [OF less.prems(1)] True by simp
      then show ?thesis
        unfolding th Difference_loop_skip [OF my h(1) True]
        using less.hyps [of my mine t result] less.prems th by auto
    next
      case no: False
      define r where "r = (if fst my < fst h then result @ [(fst my, fst h)] else result)"
      note r = cut_result [OF less.prems(3,4) no [unfolded not_le] h(2,1) my r_def]
      have eq: "Difference_loop my mine theirs result =
          (if snd my \<le> snd h then Difference_next mine theirs r
           else Difference_loop (snd h, snd my) mine theirs r)"
        unfolding th Difference_loop_cut [OF h(1) no [unfolded not_le]] r_def by (simp add: Let_def)
      have "snd my > snd h \<Longrightarrow> QuicInterval_Length (snd h, snd my) < QuicInterval_Length my"
        using no by (simp add: QuicInterval_Length_def QuicInterval_Empty_def)
      then show ?thesis
        using eq next_ok [OF r(1,3)] less.hyps [of "(snd h, snd my)" mine theirs r] r less.prems
          points_cut [of h t "snd my" "fst my"] no h th by auto
    qed
  qed
qed

lemma Difference_correct:
  assumes "separated_list s" "separated_list t"
  shows "separated_list (QuicIntervalSet_Difference t s) \<and>
    points (QuicIntervalSet_Difference t s) = points s - points t"
  using assms Difference_loop_correct [of _ _ t "[]"]
  by (auto simp: QuicIntervalSet_Difference_def split: list.split)

lemma Complement_correct:
  "separated_list s \<Longrightarrow> points (QuicIntervalSet_Complement lo hi s) = {lo..<hi} - points s"
  using Difference_correct [of "QuicIntervalSet_Add (lo, hi) []" s]
  by (simp add: QuicIntervalSet_Complement_def Add_separated)

lemma TrimLessThan_correct:
  "separated_list s \<Longrightarrow> separated_list (snd (QuicIntervalSet_TrimLessThan v s)) \<and>
    points (snd (QuicIntervalSet_TrimLessThan v s)) = points s - {..<v} \<and>
    (fst (QuicIntervalSet_TrimLessThan v s) \<longleftrightarrow> points s \<inter> {..<v} \<noteq> {})"
proof (induction v s rule: QuicIntervalSet_TrimLessThan.induct)
  case (2 v i s)
  have mem: "fst i \<in> points (i # s)" using 2 by simp
  have s: "x > snd i" if "x \<in> points s" for x
    using that points_ge [of s "Suc (snd i)" x] 2(2) by fastforce
  consider "v \<le> fst i" | "fst i < v" "snd i \<le> v" | "fst i < v" "v < snd i" by linarith
  then show ?case
  proof cases
    case 1
    then show ?thesis using separated_least [OF 2(2)] 2(2) by fastforce
  next
    case 2
    then show ?thesis using "2.IH" "2.prems" mem by (auto simp del: ex_in_conv)
  next
    case 3
    then show ?thesis using "2.prems" mem s by (fastforce simp del: ex_in_conv)
  qed
qed simp

end
