(* ===== verification/Sequencer_Buffer.thy ===== *)
theory Sequencer_Buffer
  imports Interval_Set
begin

text \<open>
  \<open>QuicStreamSequencerBuffer\<close> (\<open>quic_stream_sequencer_buffer.h\<close> and \<open>.cc\<close>), the
  circular buffer that puts the stream frames of a peer back in order before
  quictun reads them.  A \<open>BufferBlock\<close> is the function from positions in the
  block to bytes, a fresh one being zero; \<open>blocks_\<close> is an optional array of
  optional blocks, a null pointer being \<^const>\<open>None\<close>.  Where the code reads
  \<open>blocks_[i]\<close> without a check, \<open>block_at\<close> gives \<^const>\<open>None\<close> outside the array, so
  that an access out of bounds shows as the error result of a missing block,
  which \<open>Readv_correct\<close> excludes.

  The loops of \<open>CopyStreamData\<close>, \<open>Readv\<close> and \<open>MarkConsumed\<close> make progress only
  while the invariant holds; they are partial functions whose value is
  \<^const>\<open>None\<close> when they do not return, and they are shown to return.
\<close>

section \<open>Error codes\<close>

datatype QuicErrorCode =
    QUIC_NO_ERROR
  | QUIC_INTERNAL_ERROR
  | QUIC_EMPTY_STREAM_FRAME_NO_FIN
  | QUIC_TOO_MANY_STREAM_DATA_INTERVALS
  | QUIC_STREAM_SEQUENCER_INVALID_STATE
  | QUIC_STREAM_LENGTH_OVERFLOW
  | QUIC_FLOW_CONTROL_RECEIVED_TOO_MUCH_DATA
  | QUIC_STREAM_MULTIPLE_OFFSET
  | QUIC_STREAM_DATA_BEYOND_CLOSE_OFFSET
  | QUIC_STREAM_SEQUENCER_INVALID_OFFSET
  | QUIC_STREAM_SEQUENCER_NO_BUFFER
  | QUIC_STREAM_SEQUENCER_FINAL_OFFSET_AND_RESET
  | QUIC_FLOW_CONTROL_SENT_TOO_MUCH_DATA
  | QUIC_PACKET_WRITE_ERROR
  | QUIC_PEER_GOING_AWAY
  | Other_QuicErrorCode nat

section \<open>The buffer\<close>

type_synonym BufferBlock = "nat \<Rightarrow> byte"

record seq_buffer =
  max_buffer_capacity_bytes :: nat
  max_blocks_count :: nat
  current_blocks_count :: nat
  total_bytes_read :: nat
  blocks :: "BufferBlock option list option"
  num_bytes_buffered :: nat
  bytes_received :: QuicIntervalSet

definition kBlockSizeBytes :: nat where
  "kBlockSizeBytes = 8192"

definition kMaxPacketGap :: nat where
  "kMaxPacketGap = 5000"

definition kMaxNumDataIntervalsAllowed :: nat where
  "kMaxNumDataIntervalsAllowed = 2 * kMaxPacketGap"

definition kInitialBlockCount :: nat where
  "kInitialBlockCount = 8"

definition kBlocksGrowthFactor :: nat where
  "kBlocksGrowthFactor = 4"

definition CalculateBlockCount :: "nat \<Rightarrow> nat" where
  "CalculateBlockCount max_capacity_bytes =
     (max_capacity_bytes + kBlockSizeBytes - 1) div kBlockSizeBytes"

definition block_at :: "seq_buffer \<Rightarrow> nat \<Rightarrow> BufferBlock option" where
  "block_at b i =
     (case blocks b of None \<Rightarrow> None | Some bs \<Rightarrow> if i < length bs then bs ! i else None)"

definition QuicStreamSequencerBuffer_Clear :: "seq_buffer \<Rightarrow> seq_buffer" where
  "QuicStreamSequencerBuffer_Clear b =
     b\<lparr>blocks := map_option (map (\<lambda>_. None)) (blocks b),
       num_bytes_buffered := 0,
       bytes_received := QuicIntervalSet_Add (0, total_bytes_read b) []\<rparr>"

definition new_seq_buffer :: "nat \<Rightarrow> seq_buffer" where
  "new_seq_buffer max_capacity_bytes =
     QuicStreamSequencerBuffer_Clear
       \<lparr>max_buffer_capacity_bytes = max_capacity_bytes,
        max_blocks_count = CalculateBlockCount max_capacity_bytes,
        current_blocks_count = 0, total_bytes_read = 0, blocks = None,
        num_bytes_buffered = 0, bytes_received = []\<rparr>"

definition GetBlockIndex :: "seq_buffer \<Rightarrow> nat \<Rightarrow> nat" where
  "GetBlockIndex b off = (off mod max_buffer_capacity_bytes b) div kBlockSizeBytes"

definition GetInBlockOffset :: "seq_buffer \<Rightarrow> nat \<Rightarrow> nat" where
  "GetInBlockOffset b off = (off mod max_buffer_capacity_bytes b) mod kBlockSizeBytes"

definition ReadOffset :: "seq_buffer \<Rightarrow> nat" where
  "ReadOffset b = GetInBlockOffset b (total_bytes_read b)"

definition NextBlockToRead :: "seq_buffer \<Rightarrow> nat" where
  "NextBlockToRead b = GetBlockIndex b (total_bytes_read b)"

definition GetBlockCapacity :: "seq_buffer \<Rightarrow> nat \<Rightarrow> nat" where
  "GetBlockCapacity b block_index =
     (if block_index + 1 = max_blocks_count b
      then let result = max_buffer_capacity_bytes b mod kBlockSizeBytes in
        if result = 0 then kBlockSizeBytes else result
      else kBlockSizeBytes)"

definition FirstMissingByte :: "seq_buffer \<Rightarrow> nat" where
  "FirstMissingByte b =
     (if bytes_received b = [] \<or> fst (hd (bytes_received b)) > 0 then 0
      else snd (hd (bytes_received b)))"

definition NextExpectedByte :: "seq_buffer \<Rightarrow> nat" where
  "NextExpectedByte b = (if bytes_received b = [] then 0 else snd (last (bytes_received b)))"

definition ReadableBytes :: "seq_buffer \<Rightarrow> nat" where
  "ReadableBytes b = FirstMissingByte b - total_bytes_read b"

definition QuicStreamSequencerBuffer_Empty :: "seq_buffer \<Rightarrow> bool" where
  "QuicStreamSequencerBuffer_Empty b \<longleftrightarrow>
     bytes_received b = [] \<or>
     (length (bytes_received b) = 1 \<and> total_bytes_read b > 0 \<and>
      snd (hd (bytes_received b)) = total_bytes_read b)"

definition RetireBlock :: "nat \<Rightarrow> seq_buffer \<Rightarrow> bool \<times> seq_buffer" where
  "RetireBlock index b =
     (if block_at b index = None then (False, b)
      else (True, b\<lparr>blocks := map_option (\<lambda>bs. bs[index := None]) (blocks b)\<rparr>))"

definition RetireBlockIfEmpty :: "nat \<Rightarrow> seq_buffer \<Rightarrow> bool \<times> seq_buffer" where
  "RetireBlockIfEmpty block_index b =
     (if QuicStreamSequencerBuffer_Empty b then RetireBlock block_index b
      else if GetBlockIndex b (NextExpectedByte b - 1) = block_index then (True, b)
      else if NextBlockToRead b = block_index
      then (if length (bytes_received b) > 1
            then (if GetBlockIndex b (fst (bytes_received b ! 1)) = block_index then (True, b)
                  else RetireBlock block_index b)
            else (False, b))
      else RetireBlock block_index b)"

definition num_of_blocks_needed :: "nat \<Rightarrow> seq_buffer \<Rightarrow> nat" where
  "num_of_blocks_needed next_expected_byte b =
     (let last_byte = next_expected_byte - 1 in
      if last_byte < max_buffer_capacity_bytes b
      then max (GetBlockIndex b last_byte + 1) kInitialBlockCount
      else max_blocks_count b)"

definition resize_blocks :: "nat \<Rightarrow> seq_buffer \<Rightarrow> seq_buffer" where
  "resize_blocks new_block_count b =
     (let old = (case blocks b of None \<Rightarrow> [] | Some bs \<Rightarrow> take (current_blocks_count b) bs)
      in b\<lparr>blocks := Some (old @ replicate (new_block_count - length old) None),
           current_blocks_count := new_block_count\<rparr>)"

definition MaybeAddMoreBlocks :: "nat \<Rightarrow> seq_buffer \<Rightarrow> seq_buffer" where
  "MaybeAddMoreBlocks next_expected_byte b =
     (if current_blocks_count b = max_blocks_count b then b
      else if current_blocks_count b \<ge> num_of_blocks_needed next_expected_byte b then b
      else resize_blocks
        (min (max (kBlocksGrowthFactor * current_blocks_count b)
                  (num_of_blocks_needed next_expected_byte b))
             (max_blocks_count b)) b)"

definition memcpy :: "nat \<Rightarrow> bytes \<Rightarrow> BufferBlock \<Rightarrow> BufferBlock" where
  "memcpy dest source blk = (\<lambda>i. if dest \<le> i \<and> i < dest + length source then source ! (i - dest) else blk i)"

definition write_block :: "nat \<Rightarrow> nat \<Rightarrow> bytes \<Rightarrow> seq_buffer \<Rightarrow> seq_buffer" where
  "write_block num dest source b =
     b\<lparr>blocks := map_option (\<lambda>bs. bs[num := Some (memcpy dest source
         (case bs ! num of None \<Rightarrow> (\<lambda>_. 0) | Some blk \<Rightarrow> blk))]) (blocks b)\<rparr>"

partial_function (option) CopyStreamData ::
    "nat \<Rightarrow> bytes \<Rightarrow> nat \<Rightarrow> seq_buffer \<Rightarrow> (bool \<times> nat \<times> seq_buffer) option" where
  "CopyStreamData off source bytes_copy b =
     (if source = [] then Some (True, bytes_copy, b)
      else let write_block_num = GetBlockIndex b off;
               write_block_offset = GetInBlockOffset b off;
               avail = GetBlockCapacity b write_block_num - write_block_offset;
               bytes_avail =
                 (if off + avail > total_bytes_read b + max_buffer_capacity_bytes b
                  then total_bytes_read b + max_buffer_capacity_bytes b - off else avail)
           in if write_block_num \<ge> current_blocks_count b then Some (False, bytes_copy, b)
              else if blocks b = None then Some (False, bytes_copy, b)
              else let bytes_to_copy = min bytes_avail (length source)
                   in CopyStreamData (off + bytes_to_copy) (drop bytes_to_copy source)
                        (bytes_copy + bytes_to_copy)
                        (write_block write_block_num write_block_offset (take bytes_to_copy source) b))"

fun copy_newly_received ::
    "nat \<Rightarrow> bytes \<Rightarrow> QuicIntervalSet \<Rightarrow> nat \<Rightarrow> seq_buffer \<Rightarrow> (bool \<times> nat \<times> seq_buffer) option" where
  "copy_newly_received starting_offset data [] bytes_buffered b = Some (True, bytes_buffered, b)"
| "copy_newly_received starting_offset data (interval # rest) bytes_buffered b =
     (case CopyStreamData (fst interval)
             (take (snd interval - fst interval) (drop (fst interval - starting_offset) data)) 0 b of
        None \<Rightarrow> None
      | Some (ok, bytes_copy, b') \<Rightarrow>
          if \<not> ok then Some (False, bytes_buffered, b')
          else copy_newly_received starting_offset data rest (bytes_buffered + bytes_copy) b')"

definition OnStreamData_new :: "nat \<Rightarrow> nat \<Rightarrow> bytes \<Rightarrow> seq_buffer \<Rightarrow> (QuicErrorCode \<times> nat \<times> seq_buffer) option" where
  "OnStreamData_new starting_offset finish data b =
     (let b = b\<lparr>bytes_received :=
                 QuicIntervalSet_AddOptimizedForAppend (starting_offset, finish) (bytes_received b)\<rparr>
      in if length (bytes_received b) \<ge> kMaxNumDataIntervalsAllowed
         then Some (QUIC_TOO_MANY_STREAM_DATA_INTERVALS, 0, b)
         else (case CopyStreamData starting_offset data 0 (MaybeAddMoreBlocks finish b) of
                 None \<Rightarrow> None
               | Some (ok, bytes_copy, b) \<Rightarrow>
                   if \<not> ok then Some (QUIC_STREAM_SEQUENCER_INVALID_STATE, 0, b)
                   else Some (QUIC_NO_ERROR, bytes_copy,
                          b\<lparr>num_bytes_buffered := num_bytes_buffered b + bytes_copy\<rparr>)))"

definition OnStreamData_overlap :: "nat \<Rightarrow> nat \<Rightarrow> bytes \<Rightarrow> seq_buffer \<Rightarrow> (QuicErrorCode \<times> nat \<times> seq_buffer) option" where
  "OnStreamData_overlap starting_offset finish data b =
     (let newly_received =
            QuicIntervalSet_Difference (bytes_received b) (QuicIntervalSet_Add (starting_offset, finish) [])
      in if newly_received = [] then Some (QUIC_NO_ERROR, 0, b)
         else let b = b\<lparr>bytes_received := QuicIntervalSet_Add (starting_offset, finish) (bytes_received b)\<rparr>
              in if length (bytes_received b) \<ge> kMaxNumDataIntervalsAllowed
                 then Some (QUIC_TOO_MANY_STREAM_DATA_INTERVALS, 0, b)
                 else (case copy_newly_received starting_offset data newly_received 0
                              (MaybeAddMoreBlocks finish b) of
                         None \<Rightarrow> None
                       | Some (ok, bytes_buffered, b) \<Rightarrow>
                           if \<not> ok then Some (QUIC_STREAM_SEQUENCER_INVALID_STATE, bytes_buffered, b)
                           else Some (QUIC_NO_ERROR, bytes_buffered,
                                  b\<lparr>num_bytes_buffered := num_bytes_buffered b + bytes_buffered\<rparr>)))"

definition QuicStreamSequencerBuffer_OnStreamData ::
    "nat \<Rightarrow> bytes \<Rightarrow> seq_buffer \<Rightarrow> (QuicErrorCode \<times> nat \<times> seq_buffer) option" where
  "QuicStreamSequencerBuffer_OnStreamData starting_offset data b =
     (let finish = u64 (starting_offset + length data) in
      if length data = 0 then Some (QUIC_EMPTY_STREAM_FRAME_NO_FIN, 0, b)
      else if finish > total_bytes_read b + max_buffer_capacity_bytes b \<or> finish < starting_offset
      then Some (QUIC_INTERNAL_ERROR, 0, b)
      else if bytes_received b = [] \<or> starting_offset \<ge> snd (last (bytes_received b)) \<or>
              QuicIntervalSet_IsDisjoint (starting_offset, finish) (bytes_received b)
      then OnStreamData_new starting_offset finish data b
      else OnStreamData_overlap starting_offset finish data b)"

definition advance :: "nat \<Rightarrow> seq_buffer \<Rightarrow> seq_buffer" where
  "advance n b = b\<lparr>num_bytes_buffered := num_bytes_buffered b - n, total_bytes_read := total_bytes_read b + n\<rparr>"

text \<open>\<open>Readv\<close> with the single destination that \<open>QuictunStream::Read\<close> passes; the bytes
  already copied to it are the accumulator.\<close>

partial_function (option) QuicStreamSequencerBuffer_Readv ::
    "nat \<Rightarrow> bytes \<Rightarrow> seq_buffer \<Rightarrow> (QuicErrorCode \<times> bytes \<times> seq_buffer) option" where
  "QuicStreamSequencerBuffer_Readv dest_remaining dest b =
     (if dest_remaining > 0 \<and> ReadableBytes b > 0
      then let block_idx = NextBlockToRead b;
               start_offset_in_block = ReadOffset b;
               bytes_available_in_block =
                 min (ReadableBytes b) (GetBlockCapacity b block_idx - start_offset_in_block);
               bytes_to_copy = min bytes_available_in_block dest_remaining
           in case block_at b block_idx of
                None \<Rightarrow> Some (QUIC_STREAM_SEQUENCER_INVALID_STATE, dest, b)
              | Some blk \<Rightarrow>
                  let dest = dest @ map blk [start_offset_in_block ..< start_offset_in_block + bytes_to_copy];
                      b = advance bytes_to_copy b
                  in if bytes_to_copy = bytes_available_in_block
                     then let (retired, b) = RetireBlockIfEmpty block_idx b
                          in if \<not> retired then Some (QUIC_STREAM_SEQUENCER_INVALID_STATE, dest, b)
                             else QuicStreamSequencerBuffer_Readv (dest_remaining - bytes_to_copy) dest b
                     else QuicStreamSequencerBuffer_Readv (dest_remaining - bytes_to_copy) dest b
      else Some (QUIC_NO_ERROR, dest, b))"

declare CopyStreamData.simps [code] QuicStreamSequencerBuffer_Readv.simps [code]

partial_function (option) MarkConsumed_loop :: "nat \<Rightarrow> seq_buffer \<Rightarrow> seq_buffer option" where
  "MarkConsumed_loop bytes_to_consume b =
     (if bytes_to_consume > 0
      then let block_idx = NextBlockToRead b;
               bytes_available = min (ReadableBytes b) (GetBlockCapacity b block_idx - ReadOffset b);
               bytes_read = min bytes_to_consume bytes_available;
               b = advance bytes_read b;
               b = (if bytes_available = bytes_read then snd (RetireBlockIfEmpty block_idx b) else b)
           in MarkConsumed_loop (bytes_to_consume - bytes_read) b
      else Some b)"

definition QuicStreamSequencerBuffer_MarkConsumed :: "nat \<Rightarrow> seq_buffer \<Rightarrow> (bool \<times> seq_buffer) option" where
  "QuicStreamSequencerBuffer_MarkConsumed bytes_consumed b =
     (if bytes_consumed > ReadableBytes b then Some (False, b)
      else map_option (\<lambda>b. (True, b)) (MarkConsumed_loop bytes_consumed b))"

definition QuicStreamSequencerBuffer_FlushBufferedFrames :: "seq_buffer \<Rightarrow> nat \<times> seq_buffer" where
  "QuicStreamSequencerBuffer_FlushBufferedFrames b =
     (NextExpectedByte b - total_bytes_read b,
      QuicStreamSequencerBuffer_Clear (b\<lparr>total_bytes_read := NextExpectedByte b\<rparr>))"

definition QuicStreamSequencerBuffer_ReleaseWholeBuffer :: "seq_buffer \<Rightarrow> seq_buffer" where
  "QuicStreamSequencerBuffer_ReleaseWholeBuffer b =
     (QuicStreamSequencerBuffer_Clear b)\<lparr>current_blocks_count := 0, blocks := None\<rparr>"

section \<open>Invariant and abstraction\<close>

definition byte_at :: "seq_buffer \<Rightarrow> nat \<Rightarrow> byte" where
  "byte_at b x =
     (case block_at b (GetBlockIndex b x) of None \<Rightarrow> 0 | Some blk \<Rightarrow> blk (GetInBlockOffset b x))"

text \<open>What the buffer holds, seen from outside: the bytes received and not yet
  read, by stream offset.\<close>

definition held :: "seq_buffer \<Rightarrow> nat \<Rightarrow> byte option" where
  "held b x = (if x \<in> points (bytes_received b) \<and> total_bytes_read b \<le> x then Some (byte_at b x) else None)"

definition geometry_ok :: "seq_buffer \<Rightarrow> bool" where
  "geometry_ok b \<longleftrightarrow>
     max_blocks_count b = CalculateBlockCount (max_buffer_capacity_bytes b) \<and>
     kInitialBlockCount \<le> max_blocks_count b \<and>
     current_blocks_count b \<le> max_blocks_count b \<and>
     (case blocks b of None \<Rightarrow> current_blocks_count b = 0 | Some bs \<Rightarrow> length bs = current_blocks_count b)"

definition ranges_ok :: "seq_buffer \<Rightarrow> bool" where
  "ranges_ok b \<longleftrightarrow>
     QuicIntervalSet_Valid (bytes_received b) \<and>
     {..<total_bytes_read b} \<subseteq> points (bytes_received b) \<and>
     points (bytes_received b) \<subseteq> {..<total_bytes_read b + max_buffer_capacity_bytes b} \<and>
     num_bytes_buffered b = card (points (bytes_received b) - {..<total_bytes_read b})"

definition seqbuf_ok :: "seq_buffer \<Rightarrow> bool" where
  "seqbuf_ok b \<longleftrightarrow> geometry_ok b \<and> ranges_ok b \<and>
     (\<forall>x \<in> points (bytes_received b) - {..<total_bytes_read b}. block_at b (GetBlockIndex b x) \<noteq> None)"

section \<open>Geometry of the circular buffer\<close>

lemma kBlockSizeBytes_pos [simp]: "0 < kBlockSizeBytes"
  by (simp add: kBlockSizeBytes_def)

lemma capacity_pos: "geometry_ok b \<Longrightarrow> 0 < max_buffer_capacity_bytes b"
  by (cases "max_buffer_capacity_bytes b = 0")
    (auto simp: geometry_ok_def CalculateBlockCount_def kInitialBlockCount_def kBlockSizeBytes_def)

lemma capacity_blocks:
  assumes "geometry_ok b"
  shows "(max_blocks_count b - 1) * kBlockSizeBytes < max_buffer_capacity_bytes b"
    "max_buffer_capacity_bytes b \<le> max_blocks_count b * kBlockSizeBytes"
  using assms capacity_pos [OF assms]
  by (auto simp: geometry_ok_def CalculateBlockCount_def kBlockSizeBytes_def)

lemma GetBlockIndex_less:
  assumes "geometry_ok b"
  shows "GetBlockIndex b x < max_blocks_count b"
proof -
  have "x mod max_buffer_capacity_bytes b < max_blocks_count b * kBlockSizeBytes"
    using capacity_blocks(2) [OF assms] mod_less_divisor [OF capacity_pos [OF assms], of x] by linarith
  then show ?thesis by (simp add: GetBlockIndex_def div_less_iff_less_mult)
qed

lemma block_end_le_capacity:
  assumes "geometry_ok b" "i < max_blocks_count b"
  shows "i * kBlockSizeBytes + GetBlockCapacity b i \<le> max_buffer_capacity_bytes b"
proof (cases "i + 1 = max_blocks_count b")
  case True
  define r where "r = max_buffer_capacity_bytes b - i * kBlockSizeBytes"
  have r: "max_buffer_capacity_bytes b = i * kBlockSizeBytes + r" "0 < r" "r \<le> kBlockSizeBytes"
    using capacity_blocks [OF assms(1)] True by (auto simp: r_def algebra_simps simp flip: True)
  then have "GetBlockCapacity b i \<le> r"
    using True by (cases "r = kBlockSizeBytes") (auto simp: GetBlockCapacity_def Let_def)
  then show ?thesis using r by simp
next
  case False
  then have "(i + 1) * kBlockSizeBytes \<le> (max_blocks_count b - 1) * kBlockSizeBytes"
    using assms(2) by (intro mult_le_mono1) simp
  then show ?thesis using False capacity_blocks(1) [OF assms(1)] by (simp add: GetBlockCapacity_def)
qed

lemma mod_capacity_split:
  "x mod max_buffer_capacity_bytes b = GetBlockIndex b x * kBlockSizeBytes + GetInBlockOffset b x"
  by (simp add: GetBlockIndex_def GetInBlockOffset_def)

lemma within_block:
  assumes "geometry_ok b" "k < GetBlockCapacity b (GetBlockIndex b x) - GetInBlockOffset b x"
  shows "GetBlockIndex b (x + k) = GetBlockIndex b x" "GetInBlockOffset b (x + k) = GetInBlockOffset b x + k"
proof -
  let ?c = "max_buffer_capacity_bytes b"
  have "GetInBlockOffset b x + k < kBlockSizeBytes"
    using assms(2) by (auto simp: GetBlockCapacity_def Let_def split: if_splits)
      (metis less_diff_conv less_imp_le_nat mod_less_divisor kBlockSizeBytes_pos add.commute order.strict_trans)
  moreover have "x mod ?c + k < ?c"
    using block_end_le_capacity [OF assms(1) GetBlockIndex_less [OF assms(1)], of x] assms(2)
      mod_capacity_split [of x b] by linarith
  then have "(x + k) mod ?c = GetBlockIndex b x * kBlockSizeBytes + (GetInBlockOffset b x + k)"
    using mod_capacity_split [of x b] by (metis add.assoc mod_add_left_eq mod_less)
  ultimately show "GetBlockIndex b (x + k) = GetBlockIndex b x"
    "GetInBlockOffset b (x + k) = GetInBlockOffset b x + k"
    by (simp_all add: GetBlockIndex_def [of b "x + k"] GetInBlockOffset_def [of b "x + k"])
qed

lemma partial_last_block:
  assumes "geometry_ok b" "i + 1 = max_blocks_count b" "max_buffer_capacity_bytes b mod kBlockSizeBytes \<noteq> 0"
  shows "i * kBlockSizeBytes + max_buffer_capacity_bytes b mod kBlockSizeBytes = max_buffer_capacity_bytes b"
proof -
  have "i * kBlockSizeBytes < max_buffer_capacity_bytes b" "max_buffer_capacity_bytes b \<le> Suc i * kBlockSizeBytes"
    using capacity_blocks [OF assms(1)] by (auto simp flip: assms(2))
  moreover have "max_buffer_capacity_bytes b \<noteq> Suc i * kBlockSizeBytes"
    using assms(3) by (metis mod_mult_self2_is_0)
  ultimately have "max_buffer_capacity_bytes b div kBlockSizeBytes = i"
    by (intro div_nat_eqI) (auto simp: mult.commute)
  then show ?thesis by (metis div_mult_mod_eq)
qed

lemma GetInBlockOffset_less:
  assumes "geometry_ok b"
  shows "GetInBlockOffset b x < GetBlockCapacity b (GetBlockIndex b x)"
proof (cases "GetBlockIndex b x + 1 = max_blocks_count b \<and> max_buffer_capacity_bytes b mod kBlockSizeBytes \<noteq> 0")
  case True
  then show ?thesis
    using partial_last_block [OF assms, of "GetBlockIndex b x"] mod_capacity_split [of x b]
      mod_less_divisor [OF capacity_pos [OF assms], of x]
    by (simp add: GetBlockCapacity_def)
next
  case False
  then show ?thesis by (auto simp: GetBlockCapacity_def Let_def GetInBlockOffset_def)
qed

lemma window_inj:
  assumes "GetBlockIndex b x = GetBlockIndex b y" "GetInBlockOffset b x = GetInBlockOffset b y"
    "t \<le> x" "x < t + max_buffer_capacity_bytes b" "t \<le> y" "y < t + max_buffer_capacity_bytes b"
  shows "x = y"
proof -
  let ?c = "max_buffer_capacity_bytes b"
  have eq: "x mod ?c = y mod ?c" using assms(1,2) mod_capacity_split by metis
  have "?c dvd y - x" "?c dvd x - y"
    using eq by (metis bot_nat_0.extremum_strict dvd_0_right diff_is_0_eq' mod_eq_dvd_iff_nat nle_le)+
  moreover have "y - x < ?c" "x - y < ?c" using assms(3-6) by linarith+
  ultimately have "y - x = 0" "x - y = 0" by (auto dest: dvd_imp_le)
  then show ?thesis by simp
qed

section \<open>Writing into the buffer\<close>

text \<open>\<open>stores S f b b'\<close>: going from \<open>b\<close> to \<open>b'\<close> only blocks changed, the bytes at the
  offsets in \<open>S\<close> are now those of \<open>f\<close>, and every other byte of the window is as
  before.\<close>

definition window :: "seq_buffer \<Rightarrow> nat set" where
  "window b = {total_bytes_read b ..< total_bytes_read b + max_buffer_capacity_bytes b}"

definition stores :: "nat set \<Rightarrow> (nat \<Rightarrow> byte) \<Rightarrow> seq_buffer \<Rightarrow> seq_buffer \<Rightarrow> bool" where
  "stores S f b b' \<longleftrightarrow>
     b' = b\<lparr>blocks := blocks b'\<rparr> \<and> geometry_ok b' \<and>
     (\<forall>i. block_at b i \<noteq> None \<longrightarrow> block_at b' i \<noteq> None) \<and>
     (\<forall>x \<in> S. block_at b' (GetBlockIndex b x) \<noteq> None) \<and>
     (\<forall>x \<in> window b. byte_at b' x = (if x \<in> S then f x else byte_at b x))"

lemma blocks_update_simps [simp]:
  "GetBlockIndex (b\<lparr>blocks := bs\<rparr>) = GetBlockIndex b"
  "GetInBlockOffset (b\<lparr>blocks := bs\<rparr>) = GetInBlockOffset b"
  "window (b\<lparr>blocks := bs\<rparr>) = window b"
  by (simp_all add: fun_eq_iff GetBlockIndex_def GetInBlockOffset_def window_def)

lemma stores_frame:
  assumes "stores S f b b'"
  shows "GetBlockIndex b' = GetBlockIndex b" "GetInBlockOffset b' = GetInBlockOffset b"
    "window b' = window b" "current_blocks_count b' = current_blocks_count b"
    "max_blocks_count b' = max_blocks_count b"
    "total_bytes_read b' = total_bytes_read b" "bytes_received b' = bytes_received b"
    "num_bytes_buffered b' = num_bytes_buffered b"
    "max_buffer_capacity_bytes b' = max_buffer_capacity_bytes b"
proof -
  obtain bs where "b' = b\<lparr>blocks := bs\<rparr>" using assms by (auto simp: stores_def)
  then show "GetBlockIndex b' = GetBlockIndex b" "GetInBlockOffset b' = GetInBlockOffset b"
    "window b' = window b" "current_blocks_count b' = current_blocks_count b"
    "max_blocks_count b' = max_blocks_count b"
    "total_bytes_read b' = total_bytes_read b" "bytes_received b' = bytes_received b"
    "num_bytes_buffered b' = num_bytes_buffered b"
    "max_buffer_capacity_bytes b' = max_buffer_capacity_bytes b" by simp_all
qed

lemma stores_refl: "geometry_ok b \<Longrightarrow> stores {} f b b"
  by (simp add: stores_def)

lemma stores_trans:
  assumes "stores S f b b1" "stores T f b1 b2"
  shows "stores (S \<union> T) f b b2"
proof -
  obtain bs where bs: "b1 = b\<lparr>blocks := bs\<rparr>" using assms(1) by (auto simp: stores_def)
  obtain cs where cs: "b2 = b1\<lparr>blocks := cs\<rparr>" using assms(2) by (auto simp: stores_def)
  then have "b2 = b\<lparr>blocks := blocks b2\<rparr>" using bs by simp
  then show ?thesis using assms bs unfolding stores_def by (auto simp: stores_frame [OF assms(1)])
qed

lemma block_at_write_block:
  assumes "geometry_ok b" "num < current_blocks_count b"
  shows "block_at (write_block num d src b) i =
    (if i = num then Some (memcpy d src (case block_at b num of None \<Rightarrow> \<lambda>_. 0 | Some blk \<Rightarrow> blk))
     else block_at b i)"
  using assms by (auto simp: block_at_def write_block_def geometry_ok_def split: option.splits)

lemma geometry_ok_write_block:
  "geometry_ok b \<Longrightarrow> geometry_ok (write_block num d src b)"
  by (auto simp: geometry_ok_def write_block_def split: option.splits)

lemma stores_write_block:
  assumes g: "geometry_ok b" and lt: "GetBlockIndex b off < current_blocks_count b"
    and len: "length src \<le> GetBlockCapacity b (GetBlockIndex b off) - GetInBlockOffset b off"
    and w: "{off..<off + length src} \<subseteq> window b"
  shows "stores {off..<off + length src} (\<lambda>x. src ! (x - off)) b
    (write_block (GetBlockIndex b off) (GetInBlockOffset b off) src b)" (is "stores ?S ?f b ?b'")
proof -
  have upd: "?b' = b\<lparr>blocks := blocks ?b'\<rparr>" by (simp add: write_block_def)
  have idx: "GetBlockIndex ?b' = GetBlockIndex b" "GetInBlockOffset ?b' = GetInBlockOffset b"
    by (simp_all add: write_block_def)
  have inS: "GetBlockIndex b x = GetBlockIndex b off"
    "GetInBlockOffset b x = GetInBlockOffset b off + (x - off)" if "x \<in> ?S" for x
    using within_block [OF g, of "x - off" off] that len by auto
  have "byte_at ?b' y = (if y \<in> ?S then ?f y else byte_at b y)" if y: "y \<in> window b" for y
  proof (cases "y \<in> ?S")
    case True
    then show ?thesis using inS [OF True]
      by (auto simp: byte_at_def idx block_at_write_block [OF g lt] memcpy_def)
  next
    case False
    have "\<not> (GetBlockIndex b y = GetBlockIndex b off \<and> GetInBlockOffset b off \<le> GetInBlockOffset b y \<and>
        GetInBlockOffset b y < GetInBlockOffset b off + length src)"
    proof
      assume a: "GetBlockIndex b y = GetBlockIndex b off \<and> GetInBlockOffset b off \<le> GetInBlockOffset b y \<and>
        GetInBlockOffset b y < GetInBlockOffset b off + length src"
      define z where "z = off + (GetInBlockOffset b y - GetInBlockOffset b off)"
      have z: "z \<in> ?S" using a by (auto simp: z_def)
      have "y = z"
        using inS [OF z] a y w z
        by (intro window_inj [of b y z "total_bytes_read b"]) (auto simp: z_def window_def)
      then show False using z False by simp
    qed
    then show ?thesis using False
      by (auto simp: byte_at_def idx block_at_write_block [OF g lt] memcpy_def split: option.splits)
  qed
  then show ?thesis
    using upd geometry_ok_write_block [OF g] inS(1)
    by (auto simp: stores_def block_at_write_block [OF g lt])
qed

lemma stores_fun_cong: "stores S f b b' \<Longrightarrow> (\<And>x. x \<in> S \<Longrightarrow> f x = g x) \<Longrightarrow> stores S g b b'"
  by (auto simp: stores_def)

text \<open>Given room in the window and the block pointers, the copy returns, copies
  every byte, and puts each at its offset.\<close>

lemma CopyStreamData_stores:
  assumes "geometry_ok b" "{off..<off + length src} \<subseteq> window b"
    "\<forall>x \<in> {off..<off + length src}. GetBlockIndex b x < current_blocks_count b"
  shows "\<exists>b'. CopyStreamData off src n b = Some (True, n + length src, b') \<and>
    stores {off..<off + length src} (\<lambda>x. src ! (x - off)) b b'"
  using assms
proof (induction "length src" arbitrary: off src n b rule: less_induct)
  case less
  show ?case
  proof (cases "src = []")
    case True
    then show ?thesis using less.prems(1) stores_refl [of b]
      by (auto simp: CopyStreamData.simps [of off])
  next
    case False
    let ?i = "GetBlockIndex b off"
    let ?avail = "GetBlockCapacity b ?i - GetInBlockOffset b off"
    define k where "k = min ?avail (length src)"
    have k: "0 < k" "k \<le> length src" "k \<le> ?avail"
      using False GetInBlockOffset_less [OF less.prems(1), of off] by (auto simp: k_def)
    have lt: "?i < current_blocks_count b" using less.prems(3) False by simp
    then have nn: "blocks b \<noteq> None" using less.prems(1) by (cases "blocks b") (auto simp: geometry_ok_def)
    have "off + length src - 1 \<in> window b" using less.prems(2) False by (cases src) auto
    then have room: "off + length src \<le> total_bytes_read b + max_buffer_capacity_bytes b"
      by (auto simp: window_def)
    define b1 where "b1 = write_block ?i (GetInBlockOffset b off) (take k src) b"
    have step: "CopyStreamData off src n b = CopyStreamData (off + k) (drop k src) (n + k) b1"
    proof -
      have "min (if off + ?avail > total_bytes_read b + max_buffer_capacity_bytes b
                 then total_bytes_read b + max_buffer_capacity_bytes b - off else ?avail) (length src) = k"
        using room by (auto simp: k_def)
      then show ?thesis using False lt nn
        by (simp add: CopyStreamData.simps [of off] Let_def b1_def not_le [symmetric] del: not_None_eq)
    qed
    have "{off..<off + k} \<subseteq> window b" using k(2) less.prems(2) by fastforce
    then have "stores {off..<off + k} (\<lambda>x. take k src ! (x - off)) b b1"
      using stores_write_block [OF less.prems(1) lt, of "take k src"] k
      unfolding b1_def by (simp add: min_absorb2)
    then have s1: "stores {off..<off + k} (\<lambda>x. src ! (x - off)) b b1"
      by (rule stores_fun_cong) auto
    have "geometry_ok b1" using s1 by (simp add: stores_def)
    moreover have "{off + k..<off + length src} \<subseteq> window b" "length src - k < length src"
      using k less.prems(2) by fastforce+
    ultimately obtain b2 where b2: "CopyStreamData (off + k) (drop k src) (n + k) b1 = Some (True, n + length src, b2)"
      "stores {off + k..<off + length src} (\<lambda>x. drop k src ! (x - (off + k))) b1 b2"
      using less.hyps [of "drop k src" b1 "off + k" "n + k"] k less.prems
      by (auto simp: stores_frame [OF s1])
    from b2(2) have "stores {off + k..<off + length src} (\<lambda>x. src ! (x - off)) b1 b2"
      by (rule stores_fun_cong) (use k in auto)
    from stores_trans [OF s1 this]
    have "stores {off..<off + length src} (\<lambda>x. src ! (x - off)) b b2"
      using k(2) by (simp add: ivl_disj_un_two(3))
    then show ?thesis using step b2(1) by simp
  qed
qed

section \<open>Growing the block array\<close>

lemma resize_blocks_fields [simp]:
  "max_buffer_capacity_bytes (resize_blocks n b) = max_buffer_capacity_bytes b"
  "max_blocks_count (resize_blocks n b) = max_blocks_count b"
  "total_bytes_read (resize_blocks n b) = total_bytes_read b"
  "num_bytes_buffered (resize_blocks n b) = num_bytes_buffered b"
  "bytes_received (resize_blocks n b) = bytes_received b"
  by (simp_all add: resize_blocks_def Let_def)

lemma resize_blocks_block_at:
  "geometry_ok b \<Longrightarrow> current_blocks_count b \<le> n \<Longrightarrow> block_at (resize_blocks n b) i = block_at b i"
  by (cases "blocks b") (auto simp: resize_blocks_def Let_def block_at_def geometry_ok_def nth_append)

lemma geometry_ok_resize_blocks:
  "geometry_ok b \<Longrightarrow> current_blocks_count b \<le> n \<Longrightarrow> n \<le> max_blocks_count b \<Longrightarrow>
   geometry_ok (resize_blocks n b)"
  by (cases "blocks b") (auto simp: resize_blocks_def Let_def geometry_ok_def)

lemma MaybeAddMoreBlocks_fields [simp]:
  "max_buffer_capacity_bytes (MaybeAddMoreBlocks n b) = max_buffer_capacity_bytes b"
  "max_blocks_count (MaybeAddMoreBlocks n b) = max_blocks_count b"
  "total_bytes_read (MaybeAddMoreBlocks n b) = total_bytes_read b"
  "num_bytes_buffered (MaybeAddMoreBlocks n b) = num_bytes_buffered b"
  "bytes_received (MaybeAddMoreBlocks n b) = bytes_received b"
  by (simp_all add: MaybeAddMoreBlocks_def)

lemma MaybeAddMoreBlocks_index [simp]:
  "GetBlockIndex (MaybeAddMoreBlocks n b) x = GetBlockIndex b x"
  "GetInBlockOffset (MaybeAddMoreBlocks n b) x = GetInBlockOffset b x"
  "window (MaybeAddMoreBlocks n b) = window b"
  by (simp_all add: GetBlockIndex_def GetInBlockOffset_def window_def)

lemma MaybeAddMoreBlocks_block_at [simp]:
  "geometry_ok b \<Longrightarrow> block_at (MaybeAddMoreBlocks n b) i = block_at b i"
  by (simp add: MaybeAddMoreBlocks_def resize_blocks_block_at geometry_ok_def)

lemma MaybeAddMoreBlocks_byte_at [simp]:
  "geometry_ok b \<Longrightarrow> byte_at (MaybeAddMoreBlocks n b) x = byte_at b x"
  by (simp add: byte_at_def split: option.split)

lemma geometry_ok_MaybeAddMoreBlocks [wf_intros]:
  "geometry_ok b \<Longrightarrow> geometry_ok (MaybeAddMoreBlocks n b)"
  unfolding MaybeAddMoreBlocks_def
  by (auto intro!: geometry_ok_resize_blocks) (auto simp: geometry_ok_def)

text \<open>After growing, every offset up to the new end of the data has a slot.\<close>

lemma MaybeAddMoreBlocks_covers:
  assumes "geometry_ok b" "x < n"
  shows "GetBlockIndex b x < current_blocks_count (MaybeAddMoreBlocks n b)"
proof -
  have lt: "GetBlockIndex b x < max_blocks_count b" by (rule GetBlockIndex_less [OF assms(1)])
  have "GetBlockIndex b x \<le> GetBlockIndex b (n - 1)" if "n - 1 < max_buffer_capacity_bytes b"
    using that assms(2) by (simp add: GetBlockIndex_def div_le_mono)
  then have "GetBlockIndex b x < num_of_blocks_needed n b"
    using lt by (auto simp: num_of_blocks_needed_def Let_def)
  then show ?thesis using lt by (auto simp: MaybeAddMoreBlocks_def resize_blocks_def Let_def)
qed

section \<open>Receiving a frame\<close>

lemma copy_newly_received_stores:
  assumes "geometry_ok b" "points ivs \<subseteq> {start..<start + length data}" "separated_list ivs"
    "points ivs \<subseteq> window b" "\<forall>x \<in> points ivs. GetBlockIndex b x < current_blocks_count b"
  shows "\<exists>b'. copy_newly_received start data ivs n b = Some (True, n + card (points ivs), b') \<and>
    stores (points ivs) (\<lambda>x. data ! (x - start)) b b'"
  using assms
proof (induction ivs arbitrary: n b)
  case Nil
  then show ?case using stores_refl by simp
next
  case (Cons i ivs)
  let ?src = "take (snd i - fst i) (drop (fst i - start) data)"
  have i: "fst i < snd i" "{fst i..<snd i} \<subseteq> {start..<start + length data}"
    using Cons.prems(2,3) by auto
  then have b: "start \<le> fst i" "snd i \<le> start + length data"
    by (simp_all add: ivl_subset)
  then have len: "length ?src = snd i - fst i" using i by auto
  obtain b1 where b1: "CopyStreamData (fst i) ?src 0 b = Some (True, snd i - fst i, b1)"
    "stores {fst i..<snd i} (\<lambda>x. ?src ! (x - fst i)) b b1"
    using CopyStreamData_stores [of b "fst i" ?src 0] Cons.prems i len by auto
  have s1: "stores {fst i..<snd i} (\<lambda>x. data ! (x - start)) b b1"
    using b1(2) by (rule stores_fun_cong) (use b i in auto)
  obtain b2 where b2: "copy_newly_received start data ivs (n + (snd i - fst i)) b1 =
      Some (True, n + (snd i - fst i) + card (points ivs), b2)"
    "stores (points ivs) (\<lambda>x. data ! (x - start)) b1 b2"
    using Cons.IH [of b1 "n + (snd i - fst i)"] Cons.prems s1
    by (auto simp: stores_frame [OF s1] stores_def)
  have "{fst i..<snd i} \<inter> points ivs = {}"
    using separated_tail_points [OF Cons.prems(3)] by auto
  then have "card (points (i # ivs)) = snd i - fst i + card (points ivs)"
    by (simp add: card_Un_disjoint)
  then show ?case using b1(1) b2(1) stores_trans [OF s1 b2(2)] by simp
qed

text \<open>A frame within the window is taken over: every byte of it that was not
  received before is now held at its offset, and nothing that was held changes.
  This covers the append-only path and the overlapping one.\<close>

lemma ranges_ok_receive:
  assumes "ranges_ok b" "finish \<le> total_bytes_read b + max_buffer_capacity_bytes b"
    "bytes_received b' = QuicIntervalSet_Add (start, finish) (bytes_received b)"
    "total_bytes_read b' = total_bytes_read b"
    "max_buffer_capacity_bytes b' = max_buffer_capacity_bytes b"
    "num_bytes_buffered b' = num_bytes_buffered b + card ({start..<finish} - points (bytes_received b))"
  shows "ranges_ok b'"
proof -
  let ?P = "points (bytes_received b)" and ?t = "total_bytes_read b"
  have v: "separated_list (bytes_received b)" and t: "{..<?t} \<subseteq> ?P"
    using assms(1) by (auto simp: ranges_ok_def wf_simps)
  have "(?P \<union> {start..<finish}) - {..<?t} = (?P - {..<?t}) \<union> ({start..<finish} - ?P)"
    using t by auto
  then have "card ((?P \<union> {start..<finish}) - {..<?t}) =
      card (?P - {..<?t}) + card ({start..<finish} - ?P)"
    by (simp add: card_Un_disjoint Int_Diff Diff_Int_distrib2)
  then show ?thesis using assms v by (auto simp: ranges_ok_def wf_simps Add_separated)
qed

definition receives :: "nat \<Rightarrow> bytes \<Rightarrow> seq_buffer \<Rightarrow> seq_buffer \<Rightarrow> bool" where
  "receives start data b b' \<longleftrightarrow>
     seqbuf_ok b' \<and>
     total_bytes_read b' = total_bytes_read b \<and>
     max_buffer_capacity_bytes b' = max_buffer_capacity_bytes b \<and>
     points (bytes_received b') = points (bytes_received b) \<union> {start..<start + length data} \<and>
     (\<forall>x. held b' x =
        (if x \<in> {start..<start + length data} \<and> x \<notin> points (bytes_received b)
         then Some (data ! (x - start)) else held b x))"

lemma other_update_simps [simp]:
  "block_at (b\<lparr>bytes_received := r\<rparr>) = block_at b" "block_at (b\<lparr>num_bytes_buffered := k\<rparr>) = block_at b"
  "GetBlockIndex (b\<lparr>bytes_received := r\<rparr>) = GetBlockIndex b"
  "GetBlockIndex (b\<lparr>num_bytes_buffered := k\<rparr>) = GetBlockIndex b"
  "byte_at (b\<lparr>bytes_received := r\<rparr>) = byte_at b" "byte_at (b\<lparr>num_bytes_buffered := k\<rparr>) = byte_at b"
  "geometry_ok (b\<lparr>bytes_received := r\<rparr>) = geometry_ok b"
  "geometry_ok (b\<lparr>num_bytes_buffered := k\<rparr>) = geometry_ok b"
  "window (b\<lparr>bytes_received := r\<rparr>) = window b" "window (b\<lparr>num_bytes_buffered := k\<rparr>) = window b"
  by (simp_all add: fun_eq_iff block_at_def byte_at_def GetBlockIndex_def GetInBlockOffset_def
      geometry_ok_def window_def cong: option.case_cong)

lemma receives_stores:
  assumes ok: "seqbuf_ok b" and fin: "start + length data \<le> total_bytes_read b + max_buffer_capacity_bytes b"
    and S: "S = {start..<start + length data} - points (bytes_received b)"
    and b0: "b0 = MaybeAddMoreBlocks n (b\<lparr>bytes_received :=
         QuicIntervalSet_Add (start, start + length data) (bytes_received b)\<rparr>)"
    and st: "stores S (\<lambda>x. data ! (x - start)) b0 b1"
    and b': "b' = b1\<lparr>num_bytes_buffered := num_bytes_buffered b1 + card S\<rparr>"
  shows "receives start data b b'"
proof -
  let ?P = "points (bytes_received b)" and ?P' = "points (bytes_received b')"
  have g: "geometry_ok b" and r: "ranges_ok b" and v: "separated_list (bytes_received b)"
    and blk: "\<forall>x \<in> ?P - {..<total_bytes_read b}. block_at b (GetBlockIndex b x) \<noteq> None"
    using ok by (auto simp: seqbuf_ok_def ranges_ok_def wf_simps)
  have tot: "total_bytes_read b' = total_bytes_read b"
    and cap: "max_buffer_capacity_bytes b' = max_buffer_capacity_bytes b"
    and rec: "bytes_received b' = QuicIntervalSet_Add (start, start + length data) (bytes_received b)"
    and num: "num_bytes_buffered b' = num_bytes_buffered b + card S"
    by (simp_all add: b' stores_frame [OF st] b0)
  have idx: "GetBlockIndex b' = GetBlockIndex b" by (simp add: b' stores_frame [OF st] b0 fun_eq_iff)
  have P': "?P' = ?P \<union> {start..<start + length data}" using v rec by simp
  have r': "ranges_ok b'" using ranges_ok_receive [OF r fin rec tot cap] num S by simp
  have at: "block_at b i \<noteq> None \<Longrightarrow> block_at b' i \<noteq> None" for i
    using st g by (simp add: stores_def b' b0)
  have "block_at b' (GetBlockIndex b x) \<noteq> None" if "x \<in> ?P' - {..<total_bytes_read b}" for x
    using that st blk at S P' by (cases "x \<in> ?P") (auto simp: stores_def b' b0)
  then have ok': "seqbuf_ok b'"
    using r' st tot idx by (auto simp: seqbuf_ok_def stores_def b')
  have byte: "byte_at b' x = (if x \<in> S then data ! (x - start) else byte_at b x)" if "x \<in> window b" for x
    using st that g by (simp add: stores_def b' b0)
  have "held b' x = (if x \<in> S then Some (data ! (x - start)) else held b x)" for x
  proof (cases "x \<in> ?P' \<and> total_bytes_read b \<le> x")
    case True
    then have "x \<in> window b" using r' tot cap by (auto simp: ranges_ok_def window_def)
    then show ?thesis using byte True P' S tot by (auto simp: held_def)
  next
    case False
    then show ?thesis using P' S tot r by (auto simp: held_def ranges_ok_def)
  qed
  then show ?thesis using ok' tot cap P' S by (auto simp: receives_def)
qed

text \<open>The result of \<open>OnStreamData\<close> on every branch: the frame is rejected as empty,
  as outside the window (an offset that wraps at 64 bits included), or as one
  interval too many; otherwise it is received, and the byte count it reports is
  the number of bytes that were new.\<close>

definition too_many_intervals :: "nat \<Rightarrow> bytes \<Rightarrow> seq_buffer \<Rightarrow> bool" where
  "too_many_intervals start data b \<longleftrightarrow>
     \<not> {start..<start + length data} \<subseteq> points (bytes_received b) \<and>
     length (QuicIntervalSet_Add (start, start + length data) (bytes_received b)) \<ge> kMaxNumDataIntervalsAllowed"

lemma points_less_last:
  assumes "separated_list s" "x \<in> points s"
  shows "x < snd (last s)"
proof -
  obtain b l where s: "s = b @ [l]" using assms(2) by (cases s rule: rev_cases) auto
  have "fst l < snd l" "\<forall>j \<in> set b. snd j < fst l" using assms(1) s by (auto simp: separated_append)
  moreover have "x \<in> points b \<or> x < snd l" using assms(2) s by auto
  ultimately show ?thesis using s by (fastforce simp: mem_points)
qed

lemma fast_path_disjoint:
  assumes "separated_list s" "s = [] \<or> start \<ge> snd (last s) \<or> QuicIntervalSet_IsDisjoint (start, finish) s"
  shows "points s \<inter> {start..<finish} = {}"
  using assms IsDisjoint_iff [OF assms(1), of "(start, finish)"] points_less_last [OF assms(1)] by fastforce

lemma receive_room:
  assumes "seqbuf_ok b" "finish \<le> total_bytes_read b + max_buffer_capacity_bytes b"
  shows "{start..<finish} - points (bytes_received b) \<subseteq> window b"
proof
  fix x assume x: "x \<in> {start..<finish} - points (bytes_received b)"
  then have "x \<notin> {..<total_bytes_read b}" using assms(1) by (auto simp: seqbuf_ok_def ranges_ok_def)
  then show "x \<in> window b" using x assms(2) by (auto simp: window_def)
qed

lemma OnStreamData_new_receives:
  assumes ok: "seqbuf_ok b" and fin: "start + length data \<le> total_bytes_read b + max_buffer_capacity_bytes b"
    and new: "points (bytes_received b) \<inter> {start..<start + length data} = {}"
    and few: "length (QuicIntervalSet_Add (start, start + length data) (bytes_received b)) < kMaxNumDataIntervalsAllowed"
  shows "\<exists>b'. OnStreamData_new start (start + length data) data b = Some (QUIC_NO_ERROR, length data, b') \<and>
    receives start data b b'"
proof -
  let ?f = "start + length data"
  define b0 where "b0 = MaybeAddMoreBlocks ?f (b\<lparr>bytes_received :=
         QuicIntervalSet_Add (start, ?f) (bytes_received b)\<rparr>)"
  have g: "geometry_ok b" and v: "separated_list (bytes_received b)"
    using ok by (auto simp: seqbuf_ok_def ranges_ok_def wf_simps)
  have S: "{start..<?f} = {start..<?f} - points (bytes_received b)" using new by auto
  have "{start..<?f} \<subseteq> window b0" using receive_room [OF ok fin, of start] S by (simp add: b0_def)
  moreover have "geometry_ok b0" using g by (simp add: b0_def geometry_ok_MaybeAddMoreBlocks)
  moreover have "\<forall>x \<in> {start..<?f}. GetBlockIndex b0 x < current_blocks_count b0"
    using MaybeAddMoreBlocks_covers [of "b\<lparr>bytes_received := QuicIntervalSet_Add (start, ?f) (bytes_received b)\<rparr>" _ ?f] g
    by (simp add: b0_def)
  ultimately obtain b1 where b1: "CopyStreamData start data 0 b0 = Some (True, length data, b1)"
    "stores {start..<?f} (\<lambda>x. data ! (x - start)) b0 b1"
    using CopyStreamData_stores [of b0 start data 0] by auto
  have "receives start data b (b1\<lparr>num_bytes_buffered := num_bytes_buffered b1 + card {start..<?f}\<rparr>)"
    by (rule receives_stores [OF ok fin S b0_def b1(2)]) simp
  then show ?thesis using b1(1) few
    by (simp add: OnStreamData_new_def AddOptimizedForAppend_eq_Add [OF v] b0_def)
qed

lemma OnStreamData_overlap_receives:
  assumes ok: "seqbuf_ok b" and fin: "start + length data \<le> total_bytes_read b + max_buffer_capacity_bytes b"
    and few: "\<not> too_many_intervals start data b"
  shows "\<exists>b'. OnStreamData_overlap start (start + length data) data b =
      Some (QUIC_NO_ERROR, card ({start..<start + length data} - points (bytes_received b)), b') \<and>
    receives start data b b'"
proof -
  let ?f = "start + length data"
  define ivs where "ivs = QuicIntervalSet_Difference (bytes_received b) (QuicIntervalSet_Add (start, ?f) [])"
  define b0 where "b0 = MaybeAddMoreBlocks ?f (b\<lparr>bytes_received :=
         QuicIntervalSet_Add (start, ?f) (bytes_received b)\<rparr>)"
  have g: "geometry_ok b" and v: "separated_list (bytes_received b)"
    using ok by (auto simp: seqbuf_ok_def ranges_ok_def wf_simps)
  have ivs: "separated_list ivs" "points ivs = {start..<?f} - points (bytes_received b)"
    using Difference_correct [OF _ v, of "QuicIntervalSet_Add (start, ?f) []"]
    by (simp_all add: ivs_def Add_separated)
  show ?thesis
  proof (cases "ivs = []")
    case True
    then have sub: "{start..<?f} \<subseteq> points (bytes_received b)" using ivs by auto
    then have "receives start data b b" using ok by (auto simp: receives_def)
    then show ?thesis using True sub by (simp add: OnStreamData_overlap_def ivs_def [symmetric] Diff_eq_empty_iff [THEN iffD2])
  next
    case False
    then have "points ivs \<noteq> {}" using ivs(1) by (cases ivs) auto
    then have few': "\<not> kMaxNumDataIntervalsAllowed \<le> length (QuicIntervalSet_Add (start, ?f) (bytes_received b))"
      using few ivs(2) by (auto simp: too_many_intervals_def)
    have "points ivs \<subseteq> window b0" using receive_room [OF ok fin, of start] ivs by (simp add: b0_def)
    moreover have "geometry_ok b0" using g by (simp add: b0_def geometry_ok_MaybeAddMoreBlocks)
    moreover have "\<forall>x \<in> points ivs. GetBlockIndex b0 x < current_blocks_count b0"
      using MaybeAddMoreBlocks_covers [of "b\<lparr>bytes_received := QuicIntervalSet_Add (start, ?f) (bytes_received b)\<rparr>" _ ?f] g
      by (simp add: b0_def ivs(2))
    ultimately obtain b1 where b1: "copy_newly_received start data ivs 0 b0 = Some (True, card (points ivs), b1)"
      "stores (points ivs) (\<lambda>x. data ! (x - start)) b0 b1"
      using copy_newly_received_stores [of b0 ivs start data 0] ivs by auto
    have "receives start data b (b1\<lparr>num_bytes_buffered := num_bytes_buffered b1 + card (points ivs)\<rparr>)"
      by (rule receives_stores [OF ok fin ivs(2) b0_def b1(2)]) simp
    then show ?thesis using b1(1) few' False
      by (simp add: OnStreamData_overlap_def ivs_def [symmetric] b0_def ivs(2) del: not_le)
  qed
qed

lemma OnStreamData_receives:
  assumes ok: "seqbuf_ok b" and ne: "data \<noteq> []"
    and fin: "start + length data \<le> total_bytes_read b + max_buffer_capacity_bytes b"
    and small: "start + length data < 2 ^ 64"
    and few: "\<not> too_many_intervals start data b"
  shows "\<exists>b'. QuicStreamSequencerBuffer_OnStreamData start data b =
      Some (QUIC_NO_ERROR, card ({start..<start + length data} - points (bytes_received b)), b') \<and>
    receives start data b b'"
proof -
  let ?f = "start + length data" and ?r = "bytes_received b"
  have u: "u64 ?f = ?f" using small by (rule u64_small)
  have v: "separated_list ?r" using ok by (simp add: seqbuf_ok_def ranges_ok_def wf_simps)
  show ?thesis
  proof (cases "?r = [] \<or> start \<ge> snd (last ?r) \<or> QuicIntervalSet_IsDisjoint (start, ?f) ?r")
    case True
    note new = fast_path_disjoint [OF v True]
    then have "{start..<?f} - points ?r = {start..<?f}" by auto
    moreover have "start \<in> {start..<?f}" using ne by simp
    then have "\<not> {start..<?f} \<subseteq> points ?r" using new by blast
    then have "length (QuicIntervalSet_Add (start, ?f) ?r) < kMaxNumDataIntervalsAllowed"
      using few by (simp add: too_many_intervals_def)
    ultimately show ?thesis using OnStreamData_new_receives [OF ok fin new] True u ne fin
      by (simp add: QuicStreamSequencerBuffer_OnStreamData_def Let_def)
  next
    case False
    then show ?thesis using OnStreamData_overlap_receives [OF ok fin few] u ne fin
      by (simp add: QuicStreamSequencerBuffer_OnStreamData_def Let_def)
  qed
qed

lemma OnStreamData_rejects:
  assumes "start < 2 ^ 64" "length data < 2 ^ 64"
  shows "data = [] \<Longrightarrow>
      QuicStreamSequencerBuffer_OnStreamData start data b = Some (QUIC_EMPTY_STREAM_FRAME_NO_FIN, 0, b)"
    "data \<noteq> [] \<Longrightarrow> 2 ^ 64 \<le> start + length data \<or>
        total_bytes_read b + max_buffer_capacity_bytes b < start + length data \<Longrightarrow>
      QuicStreamSequencerBuffer_OnStreamData start data b = Some (QUIC_INTERNAL_ERROR, 0, b)"
  using u64_add_overflow [OF assms] u64_small [of "start + length data"]
  by (auto simp: QuicStreamSequencerBuffer_OnStreamData_def Let_def not_le)

lemma OnStreamData_too_many:
  assumes ok: "seqbuf_ok b" and ne: "data \<noteq> []"
    and fin: "start + length data \<le> total_bytes_read b + max_buffer_capacity_bytes b"
    and small: "start + length data < 2 ^ 64" and many: "too_many_intervals start data b"
  shows "\<exists>r. QuicStreamSequencerBuffer_OnStreamData start data b =
    Some (QUIC_TOO_MANY_STREAM_DATA_INTERVALS, 0, b\<lparr>bytes_received := r\<rparr>)"
proof -
  let ?f = "start + length data" and ?r = "bytes_received b"
  have u: "u64 ?f = ?f" using small by (rule u64_small)
  have v: "separated_list ?r" using ok by (simp add: seqbuf_ok_def ranges_ok_def wf_simps)
  have "points (QuicIntervalSet_Difference ?r (QuicIntervalSet_Add (start, ?f) [])) = {start..<?f} - points ?r"
    using Difference_correct [OF _ v, of "QuicIntervalSet_Add (start, ?f) []"] by (simp add: Add_separated)
  then have "QuicIntervalSet_Difference ?r (QuicIntervalSet_Add (start, ?f) []) \<noteq> []"
    using many by (auto simp: too_many_intervals_def)
  then show ?thesis using u ne fin many AddOptimizedForAppend_eq_Add [OF v, of "(start, ?f)"]
    by (intro exI [of _ "QuicIntervalSet_Add (start, ?f) ?r"])
      (simp add: QuicStreamSequencerBuffer_OnStreamData_def Let_def OnStreamData_new_def
        OnStreamData_overlap_def too_many_intervals_def)
qed

section \<open>Reading and retiring blocks\<close>

lemma FirstMissingByte_facts:
  assumes "ranges_ok b"
  shows "{..<FirstMissingByte b} \<subseteq> points (bytes_received b)"
    "FirstMissingByte b \<notin> points (bytes_received b)" "total_bytes_read b \<le> FirstMissingByte b"
proof -
  have v: "separated_list (bytes_received b)" and t: "{..<total_bytes_read b} \<subseteq> points (bytes_received b)"
    using assms by (auto simp: ranges_ok_def wf_simps)
  show sub: "{..<FirstMissingByte b} \<subseteq> points (bytes_received b)"
    by (cases "bytes_received b") (auto simp: FirstMissingByte_def)
  show out: "FirstMissingByte b \<notin> points (bytes_received b)"
  proof (cases "bytes_received b")
    case (Cons i s)
    then show ?thesis using v separated_gap [of i s] separated_least [of i s 0]
      by (auto simp: FirstMissingByte_def simp del: points_simps)
  qed (simp add: FirstMissingByte_def)
  then show "total_bytes_read b \<le> FirstMissingByte b" using t by (meson lessThan_iff linorder_not_le subsetD)
qed

lemma block_convex:
  assumes "u \<le> v" "v \<le> w" "u div max_buffer_capacity_bytes b = w div max_buffer_capacity_bytes b"
    "GetBlockIndex b u = i" "GetBlockIndex b w = i"
  shows "GetBlockIndex b v = i"
proof -
  let ?c = "max_buffer_capacity_bytes b"
  have "u div ?c \<le> v div ?c" "v div ?c \<le> w div ?c" using assms(1,2) by (simp_all add: div_le_mono)
  then have "v div ?c = u div ?c" "w div ?c = u div ?c" using assms(3) by simp_all
  then have "u mod ?c \<le> v mod ?c" "v mod ?c \<le> w mod ?c"
    using assms(1,2) by (metis add_le_cancel_left div_mult_mod_eq mult.commute)+
  then have "GetBlockIndex b u \<le> GetBlockIndex b v" "GetBlockIndex b v \<le> GetBlockIndex b w"
    by (simp_all add: GetBlockIndex_def div_le_mono)
  then show ?thesis using assms(4,5) by simp
qed

lemma GetBlockIndex_wrap [simp]:
  "GetBlockIndex b (x + max_buffer_capacity_bytes b) = GetBlockIndex b x"
  by (simp add: GetBlockIndex_def)

text \<open>A block boundary separates two neighbouring offsets: the start of a block is
  never in the block of the offset before it.\<close>

lemma block_start_new:
  assumes "geometry_ok b" "0 < t" "GetInBlockOffset b t = 0"
  shows "GetBlockIndex b (t - 1) \<noteq> GetBlockIndex b t"
proof (cases "GetBlockIndex b t = 0")
  case True
  let ?c = "max_buffer_capacity_bytes b"
  have c: "0 < ?c" "t mod ?c = 0"
    using capacity_pos [OF assms(1)] mod_capacity_split [of t b] True assms(3) by simp_all
  have "(t - 1) mod ?c = ?c - 1"
    using c assms(2) by (metis Suc_pred' diff_Suc_1 mod_Suc nat.distinct(1))
  moreover have "kBlockSizeBytes \<le> ?c - 1"
    using capacity_blocks(1) [OF assms(1)] assms(1)
    by (auto simp: geometry_ok_def kInitialBlockCount_def kBlockSizeBytes_def)
  ultimately show ?thesis using True by (simp add: GetBlockIndex_def div_greater_zero_iff)
next
  case False
  let ?c = "max_buffer_capacity_bytes b"
  have m: "t mod ?c = GetBlockIndex b t * kBlockSizeBytes" using mod_capacity_split [of t b] assms(3) by simp
  then have "0 < t mod ?c" using False by simp
  then have "(t - 1) mod ?c = t mod ?c - 1" using assms(2)
    by (metis Suc_pred' diff_Suc_1 mod_Suc neq0_conv)
  then have "(t - 1) mod ?c < GetBlockIndex b t * kBlockSizeBytes" using m \<open>0 < t mod ?c\<close> by simp
  then have "GetBlockIndex b (t - 1) < GetBlockIndex b t"
    unfolding GetBlockIndex_def [of b "t - 1"] by (simp only: div_less_iff_less_mult kBlockSizeBytes_pos)
  then show ?thesis by simp
qed

lemma next_block_start:
  assumes "geometry_ok b"
  shows "GetInBlockOffset b (x + (GetBlockCapacity b (GetBlockIndex b x) - GetInBlockOffset b x)) = 0"
proof -
  let ?c = "max_buffer_capacity_bytes b" and ?i = "GetBlockIndex b x"
  let ?y = "x + (GetBlockCapacity b ?i - GetInBlockOffset b x)"
  have "x mod ?c + (GetBlockCapacity b ?i - GetInBlockOffset b x) = ?i * kBlockSizeBytes + GetBlockCapacity b ?i"
    using mod_capacity_split [of x b] GetInBlockOffset_less [OF assms, of x] by simp
  then have y: "?y mod ?c = (?i * kBlockSizeBytes + GetBlockCapacity b ?i) mod ?c"
    by (metis mod_add_left_eq)
  show ?thesis
  proof (cases "?i + 1 = max_blocks_count b \<and> ?c mod kBlockSizeBytes \<noteq> 0")
    case True
    then show ?thesis using y partial_last_block [OF assms, of ?i]
      by (simp add: GetInBlockOffset_def GetBlockCapacity_def)
  next
    case False
    then have cap: "GetBlockCapacity b ?i = kBlockSizeBytes" by (auto simp: GetBlockCapacity_def Let_def)
    then have "?y mod ?c = (Suc ?i * kBlockSizeBytes) mod ?c" using y by (simp add: add.commute)
    moreover have "Suc ?i * kBlockSizeBytes \<le> ?c"
      using block_end_le_capacity [OF assms GetBlockIndex_less [OF assms], of x] cap by simp
    ultimately have "?y mod ?c = 0 \<or> ?y mod ?c = Suc ?i * kBlockSizeBytes"
      by (metis le_neq_implies_less mod_less mod_self)
    then show ?thesis unfolding GetInBlockOffset_def [of b ?y] by (metis mod_0 mod_mult_self2_is_0)
  qed
qed

lemma last_point:
  assumes "ranges_ok b" "x \<in> points (bytes_received b)"
  shows "x \<le> NextExpectedByte b - 1" "NextExpectedByte b - 1 < total_bytes_read b + max_buffer_capacity_bytes b"
proof -
  have v: "separated_list (bytes_received b)" and ne: "bytes_received b \<noteq> []"
    using assms by (auto simp: ranges_ok_def wf_simps)
  show "x \<le> NextExpectedByte b - 1"
    using points_less_last [OF v assms(2)] ne by (simp add: NextExpectedByte_def)
  have "fst (last (bytes_received b)) < snd (last (bytes_received b))"
    using separated_nonempty [OF v last_in_set [OF ne]] .
  then have "snd (last (bytes_received b)) - 1 \<in> points (bytes_received b)"
    using last_in_set [OF ne] unfolding mem_points by (intro bexI [of _ "last (bytes_received b)"]) auto
  then show "NextExpectedByte b - 1 < total_bytes_read b + max_buffer_capacity_bytes b"
    using assms(1) ne by (auto simp: ranges_ok_def NextExpectedByte_def)
qed

lemma gap_second_interval:
  assumes "ranges_ok b" "0 < total_bytes_read b" "ReadableBytes b = 0" "\<not> QuicStreamSequencerBuffer_Empty b"
  shows "length (bytes_received b) > 1"
    "\<forall>x \<in> points (bytes_received b) - {..<total_bytes_read b}. fst (bytes_received b ! 1) \<le> x"
    "total_bytes_read b \<le> fst (bytes_received b ! 1)"
proof -
  let ?t = "total_bytes_read b"
  have v: "separated_list (bytes_received b)" and t: "0 \<in> points (bytes_received b)"
    using assms(1,2) by (auto simp: ranges_ok_def wf_simps)
  obtain i s where r: "bytes_received b = i # s" using t by (cases "bytes_received b") auto
  have "fst i = 0" using separated_least [of i s 0] v t r by simp
  then have "snd i = ?t"
    using r FirstMissingByte_facts(3) [OF assms(1)] assms(3) by (simp add: FirstMissingByte_def ReadableBytes_def)
  moreover from this obtain j s' where s: "s = j # s'"
    using assms(2,4) r by (cases s) (auto simp: QuicStreamSequencerBuffer_Empty_def)
  ultimately have "\<forall>x \<in> points (bytes_received b) - {..<?t}. fst j \<le> x"
    using r v separated_least [of j s'] by (auto simp del: points_simps) (auto)
  then show "length (bytes_received b) > 1"
    "\<forall>x \<in> points (bytes_received b) - {..<?t}. fst (bytes_received b ! 1) \<le> x"
    "?t \<le> fst (bytes_received b ! 1)"
    using r s v \<open>snd i = ?t\<close> by auto
qed

lemma div_window:
  fixes c t x :: nat
  assumes "0 < c" "t \<le> x" "x < t + c"
  shows "x div c = t div c \<or> x div c = Suc (t div c)"
proof -
  have "t div c \<le> x div c" "x div c \<le> (t + c) div c" using assms by (auto intro: div_le_mono)
  then show ?thesis using assms(1) by (simp add: div_add_self2) linarith
qed

text \<open>Nothing that is still to be read lies in a block that \<open>RetireBlockIfEmpty\<close>
  gives back.\<close>

lemma retire_safe:
  assumes g: "geometry_ok b" and r: "ranges_ok b" and t: "0 < total_bytes_read b"
    and i: "GetBlockIndex b (total_bytes_read b - 1) = i"
    and edge: "ReadableBytes b = 0 \<or> GetInBlockOffset b (total_bytes_read b) = 0"
    and ne: "\<not> QuicStreamSequencerBuffer_Empty b"
    and e: "GetBlockIndex b (NextExpectedByte b - 1) \<noteq> i"
    and gap: "NextBlockToRead b = i \<Longrightarrow> GetBlockIndex b (fst (bytes_received b ! 1)) \<noteq> i"
    and x: "x \<in> points (bytes_received b)" "total_bytes_read b \<le> x"
  shows "GetBlockIndex b x \<noteq> i"
proof
  assume xi: "GetBlockIndex b x = i"
  let ?c = "max_buffer_capacity_bytes b" and ?t = "total_bytes_read b" and ?e = "NextExpectedByte b - 1"
  have c: "0 < ?c" by (rule capacity_pos [OF g])
  note xe = last_point [OF r x(1)]
  obtain p where p: "?t = Suc p" using t by (cases ?t) auto
  have pi: "GetBlockIndex b p = i" "GetBlockIndex b (p + ?c) = i" using i p by simp_all
  have pc: "(p + ?c) div ?c = Suc (p div ?c)" using c by (simp add: div_add_self2)
  have wrapped: "x div ?c \<noteq> Suc (p div ?c)"
  proof
    assume "x div ?c = Suc (p div ?c)"
    with xi have "GetBlockIndex b ?e = i"
      by - (rule block_convex [of x ?e "p + ?c"], use xe p xi pi pc in auto)
    then show False using e by simp
  qed
  show False
  proof (cases "NextBlockToRead b = i")
    case True
    have n0: "GetInBlockOffset b ?t \<noteq> 0"
      using block_start_new [OF g t] i True by (auto simp: NextBlockToRead_def)
    then have z: "ReadableBytes b = 0" using edge by simp
    have "?t mod ?c \<noteq> 0" using n0 by (metis GetInBlockOffset_def mod_0)
    then have "?t div ?c = p div ?c" using p by (simp add: div_Suc)
    then have "?t div ?c = x div ?c"
      using wrapped div_window [OF c x(2)] xe by auto
    moreover note second = gap_second_interval [OF r t z ne]
    ultimately have "GetBlockIndex b (fst (bytes_received b ! 1)) = i"
      by - (rule block_convex [of ?t _ x], use x xi True in \<open>auto simp: NextBlockToRead_def\<close>)
    then show False using gap [OF True] by contradiction
  next
    case False
    have "?e \<noteq> x" using e xi by auto
    then have "x < p + ?c" using xe p by linarith
    then have "p div ?c = x div ?c"
      using div_window [OF c, of p x] x(2) p wrapped by auto
    with xi have "GetBlockIndex b ?t = i"
      by - (rule block_convex [of p ?t x], use pi xi x(2) p in auto)
    then show False using False by (simp add: NextBlockToRead_def)
  qed
qed

definition same_view :: "seq_buffer \<Rightarrow> seq_buffer \<Rightarrow> bool" where
  "same_view b b' \<longleftrightarrow>
     seqbuf_ok b' \<and> held b' = held b \<and> total_bytes_read b' = total_bytes_read b \<and>
     max_buffer_capacity_bytes b' = max_buffer_capacity_bytes b \<and> bytes_received b' = bytes_received b"

lemma RetireBlock_view:
  assumes ok: "seqbuf_ok b" and i: "block_at b i \<noteq> None"
    and free: "\<forall>x \<in> points (bytes_received b) - {..<total_bytes_read b}. GetBlockIndex b x \<noteq> i"
  shows "\<exists>b'. RetireBlock i b = (True, b') \<and> same_view b b'"
proof -
  define b' where "b' = b\<lparr>blocks := map_option (\<lambda>bs. bs[i := None]) (blocks b)\<rparr>"
  have at: "block_at b' j = (if j = i then None else block_at b j)" for j
    by (cases "blocks b") (auto simp: b'_def block_at_def)
  have g: "geometry_ok b'"
    using ok by (cases "blocks b") (auto simp: seqbuf_ok_def geometry_ok_def b'_def)
  have r: "ranges_ok b'" using ok by (simp add: seqbuf_ok_def ranges_ok_def b'_def)
  have idx: "GetBlockIndex b' = GetBlockIndex b" "GetInBlockOffset b' = GetInBlockOffset b"
    by (simp_all add: b'_def)
  have "byte_at b' x = byte_at b x" if "GetBlockIndex b x \<noteq> i" for x
    using that by (simp add: byte_at_def idx at cong: option.case_cong)
  then have "held b' = held b" using free by (auto simp: held_def b'_def fun_eq_iff)
  moreover have "seqbuf_ok b'" using g r ok free by (auto simp: seqbuf_ok_def idx at) (auto simp: b'_def)
  ultimately show ?thesis using i by (auto simp: same_view_def RetireBlock_def b'_def)
qed

lemma RetireBlockIfEmpty_view:
  assumes ok: "seqbuf_ok b" and t: "0 < total_bytes_read b"
    and i: "GetBlockIndex b (total_bytes_read b - 1) = i" and blk: "block_at b i \<noteq> None"
    and edge: "ReadableBytes b = 0 \<or> GetInBlockOffset b (total_bytes_read b) = 0"
  shows "\<exists>b'. RetireBlockIfEmpty i b = (True, b') \<and> same_view b b'"
proof -
  have g: "geometry_ok b" and r: "ranges_ok b" using ok by (simp_all add: seqbuf_ok_def)
  have refl: "same_view b b" using ok by (simp add: same_view_def)
  have retire: "\<exists>b'. RetireBlock i b = (True, b') \<and> same_view b b'"
    if "\<forall>x \<in> points (bytes_received b) - {..<total_bytes_read b}. GetBlockIndex b x \<noteq> i"
    using RetireBlock_view [OF ok blk that] .
  show ?thesis
  proof (cases "QuicStreamSequencerBuffer_Empty b")
    case True
    then have "points (bytes_received b) \<subseteq> {..<total_bytes_read b}"
      by (auto simp: QuicStreamSequencerBuffer_Empty_def length_Suc_conv)
    then show ?thesis using True retire by (auto simp: RetireBlockIfEmpty_def)
  next
    case ne: False
    have "length (bytes_received b) > 1" if "NextBlockToRead b = i"
    proof -
      have "GetInBlockOffset b (total_bytes_read b) \<noteq> 0"
        using block_start_new [OF g t] i that by (auto simp: NextBlockToRead_def)
      then show ?thesis using gap_second_interval(1) [OF r t _ ne] edge by simp
    qed
    then consider "GetBlockIndex b (NextExpectedByte b - 1) = i" |
      "NextBlockToRead b = i" "length (bytes_received b) > 1" "GetBlockIndex b (fst (bytes_received b ! 1)) = i"
        "GetBlockIndex b (NextExpectedByte b - 1) \<noteq> i" |
      "GetBlockIndex b (NextExpectedByte b - 1) \<noteq> i"
        "NextBlockToRead b = i \<longrightarrow> length (bytes_received b) > 1 \<and> GetBlockIndex b (fst (bytes_received b ! 1)) \<noteq> i"
      by blast
    then show ?thesis
    proof cases
      case 3
      then have "RetireBlockIfEmpty i b = RetireBlock i b" using ne by (simp add: RetireBlockIfEmpty_def)
      then show ?thesis using retire retire_safe [OF g r t i edge ne 3(1)] 3(2) by auto
    qed (use ne refl in \<open>auto simp: RetireBlockIfEmpty_def\<close>)
  qed
qed

lemma advance_simps [simp]:
  "total_bytes_read (advance n b) = total_bytes_read b + n"
  "bytes_received (advance n b) = bytes_received b"
  "max_buffer_capacity_bytes (advance n b) = max_buffer_capacity_bytes b"
  "GetBlockIndex (advance n b) = GetBlockIndex b" "GetInBlockOffset (advance n b) = GetInBlockOffset b"
  "block_at (advance n b) = block_at b" "byte_at (advance n b) = byte_at b"
  "geometry_ok (advance n b) = geometry_ok b" "FirstMissingByte (advance n b) = FirstMissingByte b"
  by (simp_all add: advance_def fun_eq_iff GetBlockIndex_def GetInBlockOffset_def block_at_def byte_at_def
      geometry_ok_def FirstMissingByte_def cong: option.case_cong)

lemma readable_points:
  assumes "seqbuf_ok b"
  shows "{total_bytes_read b..<total_bytes_read b + ReadableBytes b} \<subseteq> points (bytes_received b)"
  using FirstMissingByte_facts [of b] assms by (auto simp: seqbuf_ok_def ReadableBytes_def)

lemma advance_ok:
  assumes ok: "seqbuf_ok b" and n: "n \<le> ReadableBytes b"
  shows "seqbuf_ok (advance n b)"
    "held (advance n b) x = (if x < total_bytes_read b + n then None else held b x)"
proof -
  let ?P = "points (bytes_received b)" and ?t = "total_bytes_read b"
  have r: "ranges_ok b" using ok by (simp add: seqbuf_ok_def)
  have sub: "{?t..<?t + n} \<subseteq> ?P" using readable_points [OF ok] n by fastforce
  have "?P - {..<?t} = (?P - {..<?t + n}) \<union> {?t..<?t + n}" using sub by auto
  then have "card (?P - {..<?t}) = card (?P - {..<?t + n}) + n"
    by (simp add: card_Un_disjoint Int_Diff disjoint_iff)
  moreover have "{..<?t + n} \<subseteq> ?P"
  proof
    fix x assume "x \<in> {..<?t + n}"
    then have "x \<in> {..<?t} \<or> x \<in> {?t..<?t + n}" by auto
    then show "x \<in> ?P" using r sub by (auto simp: ranges_ok_def)
  qed
  ultimately have "ranges_ok (advance n b)"
    using r by (auto simp: ranges_ok_def advance_def)
  then show "seqbuf_ok (advance n b)" using ok by (auto simp: seqbuf_ok_def)
  show "held (advance n b) x = (if x < ?t + n then None else held b x)"
    by (auto simp: held_def)
qed

text \<open>One turn of the read loop: the bytes copied out of the block at the read
  position are the next bytes of the stream, and giving the block back (when the
  turn reaches its end or a gap) changes nothing that is still held.\<close>

definition available_in_block :: "seq_buffer \<Rightarrow> nat" where
  "available_in_block b = min (ReadableBytes b) (GetBlockCapacity b (NextBlockToRead b) - ReadOffset b)"

lemma held_readable:
  assumes "seqbuf_ok b" "x \<in> {total_bytes_read b..<total_bytes_read b + ReadableBytes b}"
  shows "held b x = Some (byte_at b x)" "block_at b (GetBlockIndex b x) \<noteq> None"
  using readable_points [OF assms(1)] assms by (auto simp: held_def seqbuf_ok_def)

lemma read_turn_bytes:
  assumes ok: "seqbuf_ok b" and n: "0 < n" "n \<le> available_in_block b"
  shows "\<exists>blk. block_at b (NextBlockToRead b) = Some blk \<and>
    map blk [ReadOffset b ..< ReadOffset b + n] =
      map (\<lambda>x. the (held b x)) [total_bytes_read b ..< total_bytes_read b + n]"
proof -
  let ?t = "total_bytes_read b"
  have g: "geometry_ok b" using ok by (simp add: seqbuf_ok_def)
  have rd: "?t + k \<in> {?t..<?t + ReadableBytes b}" if "k < n" for k
    using that n by (simp add: available_in_block_def)
  obtain blk where blk: "block_at b (NextBlockToRead b) = Some blk"
    using held_readable(2) [OF ok rd [of 0]] n by (auto simp: NextBlockToRead_def)
  have "blk (ReadOffset b + k) = the (held b (?t + k))" if "k < n" for k
  proof -
    have "k < GetBlockCapacity b (GetBlockIndex b ?t) - GetInBlockOffset b ?t"
      using that n(2) by (simp add: available_in_block_def NextBlockToRead_def ReadOffset_def)
    note w = within_block [OF g this]
    show ?thesis using held_readable(1) [OF ok rd [OF that]] w blk
      by (simp add: byte_at_def NextBlockToRead_def ReadOffset_def)
  qed
  then show ?thesis using blk by (auto intro!: nth_equalityI)
qed

lemma read_turn_retire:
  assumes ok: "seqbuf_ok b" and n: "0 < n" "n = available_in_block b"
  shows "\<exists>b'. RetireBlockIfEmpty (NextBlockToRead b) (advance n b) = (True, b') \<and> same_view (advance n b) b'"
proof -
  let ?t = "total_bytes_read b"
  have g: "geometry_ok b" using ok by (simp add: seqbuf_ok_def)
  have le: "n \<le> ReadableBytes b" "n \<le> GetBlockCapacity b (GetBlockIndex b ?t) - GetInBlockOffset b ?t"
    using n by (auto simp: available_in_block_def NextBlockToRead_def ReadOffset_def)
  have "GetBlockIndex b (?t + n - 1) = NextBlockToRead b"
    using within_block(1) [OF g, of "n - 1" ?t] n le by (simp add: NextBlockToRead_def)
  moreover have "ReadableBytes (advance n b) = 0 \<or> GetInBlockOffset b (?t + n) = 0"
  proof (cases "n = ReadableBytes b")
    case True
    then show ?thesis by (simp add: ReadableBytes_def)
  next
    case False
    then have "n = GetBlockCapacity b (GetBlockIndex b ?t) - GetInBlockOffset b ?t"
      using n le by (auto simp: available_in_block_def NextBlockToRead_def ReadOffset_def)
    then show ?thesis using next_block_start [OF g, of ?t] by simp
  qed
  moreover have "block_at b (NextBlockToRead b) \<noteq> None"
    using read_turn_bytes [OF ok n(1)] n(2) by auto
  ultimately show ?thesis
    using RetireBlockIfEmpty_view [OF advance_ok(1) [OF ok le(1)], of "NextBlockToRead b"] n(1) by simp
qed

lemma ReadableBytes_view: "same_view b b' \<Longrightarrow> ReadableBytes b' = ReadableBytes b"
  by (simp add: same_view_def ReadableBytes_def FirstMissingByte_def)

lemma same_view_advance:
  assumes "seqbuf_ok b" "same_view (advance m b) b1" "m \<le> k" "k \<le> ReadableBytes b"
    "same_view (advance (k - m) b1) b2"
  shows "same_view (advance k b) b2"
proof -
  have b1: "seqbuf_ok b1" "total_bytes_read b1 = total_bytes_read b + m" "held b1 = held (advance m b)"
    "ReadableBytes b1 = ReadableBytes b - m"
    using assms(2) ReadableBytes_view [OF assms(2)] by (auto simp: same_view_def ReadableBytes_def)
  have "held (advance (k - m) b1) x = held (advance k b) x" for x
    using advance_ok(2) [OF b1(1), of "k - m" x] advance_ok(2) [OF assms(1), of m x]
      advance_ok(2) [OF assms(1), of k x] b1 assms(3,4) by auto
  then show ?thesis using assms(2,3,5) by (auto simp: same_view_def)
qed

lemma available_pos:
  "seqbuf_ok b \<Longrightarrow> 0 < ReadableBytes b \<Longrightarrow> 0 < available_in_block b"
  using GetInBlockOffset_less [of b "total_bytes_read b"]
  by (simp add: available_in_block_def NextBlockToRead_def ReadOffset_def seqbuf_ok_def)

text \<open>\<open>Readv\<close> returns, never reports an invalid state, and delivers exactly the next
  bytes of the stream, as many as fit and are contiguous.\<close>

lemma Readv_reads:
  assumes "seqbuf_ok b" "k = min n (ReadableBytes b)"
  shows "\<exists>b'. QuicStreamSequencerBuffer_Readv n dest b =
      Some (QUIC_NO_ERROR, dest @ map (\<lambda>x. the (held b x)) [total_bytes_read b ..< total_bytes_read b + k], b') \<and>
    same_view (advance k b) b'"
  using assms
proof (induction n arbitrary: dest b k rule: less_induct)
  case (less n)
  note ok = less.prems(1)
  show ?case
  proof (cases "n > 0 \<and> ReadableBytes b > 0")
    case False
    then have "k = 0" using less.prems(2) by auto
    moreover have "advance 0 b = b" by (simp add: advance_def)
    ultimately show ?thesis using False ok
      by (auto simp: QuicStreamSequencerBuffer_Readv.simps [of n] same_view_def)
  next
    case True
    let ?t = "total_bytes_read b"
    define m where "m = min (available_in_block b) n"
    have m: "0 < m" "m \<le> available_in_block b" "m \<le> n" "m \<le> ReadableBytes b"
      using True available_pos [OF ok] by (auto simp: m_def available_in_block_def)
    obtain blk where blk: "block_at b (NextBlockToRead b) = Some blk"
      "map blk [ReadOffset b ..< ReadOffset b + m] = map (\<lambda>x. the (held b x)) [?t ..< ?t + m]"
      using read_turn_bytes [OF ok m(1,2)] by auto
    obtain b1 where b1: "same_view (advance m b) b1"
      "QuicStreamSequencerBuffer_Readv n dest b =
         QuicStreamSequencerBuffer_Readv (n - m) (dest @ map (\<lambda>x. the (held b x)) [?t ..< ?t + m]) b1"
    proof (cases "m = available_in_block b")
      case eq: True
      obtain b1 where "RetireBlockIfEmpty (NextBlockToRead b) (advance m b) = (True, b1)"
        "same_view (advance m b) b1"
        using read_turn_retire [OF ok m(1) eq] by auto
      then show ?thesis using that eq True blk
        by (simp add: QuicStreamSequencerBuffer_Readv.simps [of n] Let_def m_def [symmetric]
            available_in_block_def [symmetric])
    next
      case neq: False
      have "same_view (advance m b) (advance m b)"
        using advance_ok(1) [OF ok m(4)] by (simp add: same_view_def)
      then show ?thesis using that neq True blk
        by (simp add: QuicStreamSequencerBuffer_Readv.simps [of n] Let_def m_def [symmetric]
            available_in_block_def [symmetric])
    qed
    have b1': "seqbuf_ok b1" "total_bytes_read b1 = ?t + m" "held b1 = held (advance m b)"
      "ReadableBytes b1 = ReadableBytes b - m"
      using b1(1) ReadableBytes_view [OF b1(1)] by (auto simp: same_view_def ReadableBytes_def)
    have k: "k - m = min (n - m) (ReadableBytes b1)" "m \<le> k" "k \<le> ReadableBytes b"
      using less.prems(2) m b1'(4) by auto
    obtain b2 where b2: "QuicStreamSequencerBuffer_Readv (n - m) (dest @ map (\<lambda>x. the (held b x)) [?t ..< ?t + m]) b1 =
        Some (QUIC_NO_ERROR, dest @ map (\<lambda>x. the (held b x)) [?t ..< ?t + m] @
          map (\<lambda>x. the (held b1 x)) [?t + m ..< ?t + m + (k - m)], b2)"
      "same_view (advance (k - m) b1) b2"
      using less.IH [OF _ b1'(1) k(1), of "dest @ map (\<lambda>x. the (held b x)) [?t ..< ?t + m]"] m b1'(2)
      by auto
    have "map (\<lambda>x. the (held b1 x)) [?t + m ..< ?t + m + (k - m)] = map (\<lambda>x. the (held b x)) [?t + m ..< ?t + k]"
      using k(2) by (auto simp: b1'(3) advance_ok(2) [OF ok m(4)])
    moreover have "[?t ..< ?t + m] @ [?t + m ..< ?t + k] = [?t ..< ?t + k]"
      using k(2) by (metis le_add1 le_add_diff_inverse add.assoc upt_add_eq_append)
    ultimately show ?thesis
      using b1(2) b2 same_view_advance [OF ok b1(1) k(2,3) b2(2)] by (simp flip: map_append)
  qed
qed

text \<open>\<open>MarkConsumed\<close> skips bytes the same way without copying them.\<close>

lemma MarkConsumed_loop_step:
  "0 < n \<Longrightarrow> m = min n (available_in_block b) \<Longrightarrow>
   MarkConsumed_loop n b = MarkConsumed_loop (n - m)
     (if available_in_block b = m then snd (RetireBlockIfEmpty (NextBlockToRead b) (advance m b)) else advance m b)"
  by (subst MarkConsumed_loop.simps) (simp add: Let_def available_in_block_def)

lemma MarkConsumed_loop_advances:
  assumes "seqbuf_ok b" "n \<le> ReadableBytes b"
  shows "\<exists>b'. MarkConsumed_loop n b = Some b' \<and> same_view (advance n b) b'"
  using assms
proof (induction n arbitrary: b rule: less_induct)
  case (less n)
  note ok = less.prems(1)
  show ?case
  proof (cases "n = 0")
    case True
    moreover have "advance 0 b = b" by (simp add: advance_def)
    ultimately show ?thesis using ok by (simp add: MarkConsumed_loop.simps [of 0] same_view_def)
  next
    case False
    define m where "m = min n (available_in_block b)"
    have m: "0 < m" "m \<le> available_in_block b" "m \<le> n" "m \<le> ReadableBytes b"
      using False less.prems available_pos [OF ok] by (auto simp: m_def available_in_block_def)
    obtain b1 where b1: "same_view (advance m b) b1" "MarkConsumed_loop n b = MarkConsumed_loop (n - m) b1"
    proof (cases "available_in_block b = m")
      case eq: True
      obtain b1 where "RetireBlockIfEmpty (NextBlockToRead b) (advance m b) = (True, b1)"
        "same_view (advance m b) b1"
        using read_turn_retire [OF ok m(1)] eq by auto
      then show ?thesis using that eq False MarkConsumed_loop_step [OF _ m_def] by simp
    next
      case neq: False
      have "same_view (advance m b) (advance m b)"
        using advance_ok(1) [OF ok m(4)] by (simp add: same_view_def)
      then show ?thesis using that neq False MarkConsumed_loop_step [OF _ m_def] by simp
    qed
    have b1': "seqbuf_ok b1" "ReadableBytes b1 = ReadableBytes b - m"
      using b1(1) ReadableBytes_view [OF b1(1)] by (auto simp: same_view_def ReadableBytes_def)
    obtain b2 where "MarkConsumed_loop (n - m) b1 = Some b2" "same_view (advance (n - m) b1) b2"
      using less.IH [OF _ b1'(1), of "n - m"] m b1'(2) diff_le_mono [OF less.prems(2), of m] by auto
    then show ?thesis
      using b1(2) same_view_advance [OF ok b1(1) m(3) less.prems(2)] by auto
  qed
qed

section \<open>Creating, flushing and releasing\<close>

lemma block_at_Clear [simp]: "block_at (QuicStreamSequencerBuffer_Clear b) i = None"
  by (cases "blocks b") (auto simp: block_at_def QuicStreamSequencerBuffer_Clear_def)

lemma Clear_ok [wf_intros]:
  assumes "geometry_ok b"
  shows "seqbuf_ok (QuicStreamSequencerBuffer_Clear b)"
proof -
  have "geometry_ok (QuicStreamSequencerBuffer_Clear b)"
    using assms by (cases "blocks b") (auto simp: geometry_ok_def QuicStreamSequencerBuffer_Clear_def)
  moreover have "ranges_ok (QuicStreamSequencerBuffer_Clear b)"
    by (auto simp: ranges_ok_def QuicStreamSequencerBuffer_Clear_def wf_simps Add_separated)
  moreover have "points (bytes_received (QuicStreamSequencerBuffer_Clear b)) \<subseteq>
      {..<total_bytes_read (QuicStreamSequencerBuffer_Clear b)}"
    by (auto simp: QuicStreamSequencerBuffer_Clear_def)
  ultimately show ?thesis by (auto simp: seqbuf_ok_def)
qed

lemma new_seq_buffer_ok [wf_intros]:
  "kInitialBlockCount \<le> CalculateBlockCount cap \<Longrightarrow> seqbuf_ok (new_seq_buffer cap)"
  unfolding new_seq_buffer_def by (rule Clear_ok) (simp add: geometry_ok_def)

lemma FlushBufferedFrames_ok [wf_intros]:
  assumes "seqbuf_ok b"
  shows "seqbuf_ok (snd (QuicStreamSequencerBuffer_FlushBufferedFrames b))"
    "held (snd (QuicStreamSequencerBuffer_FlushBufferedFrames b)) = Map.empty"
    "total_bytes_read (snd (QuicStreamSequencerBuffer_FlushBufferedFrames b)) = NextExpectedByte b"
proof -
  have "geometry_ok (b\<lparr>total_bytes_read := NextExpectedByte b\<rparr>)"
    using assms by (simp add: seqbuf_ok_def geometry_ok_def cong: option.case_cong)
  then show "seqbuf_ok (snd (QuicStreamSequencerBuffer_FlushBufferedFrames b))"
    by (simp add: QuicStreamSequencerBuffer_FlushBufferedFrames_def Clear_ok)
  show "held (snd (QuicStreamSequencerBuffer_FlushBufferedFrames b)) = Map.empty"
    "total_bytes_read (snd (QuicStreamSequencerBuffer_FlushBufferedFrames b)) = NextExpectedByte b"
    by (auto simp: QuicStreamSequencerBuffer_FlushBufferedFrames_def QuicStreamSequencerBuffer_Clear_def
        held_def fun_eq_iff)
qed

lemma ReleaseWholeBuffer_ok [wf_intros]:
  assumes "seqbuf_ok b"
  shows "seqbuf_ok (QuicStreamSequencerBuffer_ReleaseWholeBuffer b)"
proof -
  have ok: "seqbuf_ok (QuicStreamSequencerBuffer_Clear b)"
    using assms by (intro Clear_ok) (simp add: seqbuf_ok_def)
  have "points (bytes_received (QuicStreamSequencerBuffer_Clear b)) =
      {..<total_bytes_read (QuicStreamSequencerBuffer_Clear b)}"
    by (auto simp: QuicStreamSequencerBuffer_Clear_def)
  then show ?thesis using ok
    by (simp add: QuicStreamSequencerBuffer_ReleaseWholeBuffer_def seqbuf_ok_def geometry_ok_def ranges_ok_def)
qed

section \<open>Reassembly\<close>

text \<open>A history of the buffer: frames arriving in any order, possibly overlapping
  and repeated, interleaved with reads.  \<open>run_ops\<close> collects the bytes read; it
  stops, with \<^const>\<open>None\<close>, at the first operation that reports an error.\<close>

datatype buffer_op = Deliver nat bytes | Consume nat

fun run_ops :: "buffer_op list \<Rightarrow> seq_buffer \<Rightarrow> bytes \<Rightarrow> (bytes \<times> seq_buffer) option" where
  "run_ops [] b out = Some (out, b)"
| "run_ops (Deliver off data # ops) b out =
     (case QuicStreamSequencerBuffer_OnStreamData off data b of
        Some (QUIC_NO_ERROR, _, b') \<Rightarrow> run_ops ops b' out | _ \<Rightarrow> None)"
| "run_ops (Consume n # ops) b out =
     (case QuicStreamSequencerBuffer_Readv n [] b of
        Some (QUIC_NO_ERROR, got, b') \<Rightarrow> run_ops ops b' (out @ got) | _ \<Rightarrow> None)"

definition frame_of :: "(nat \<Rightarrow> byte) \<Rightarrow> nat \<Rightarrow> bytes \<Rightarrow> bool" where
  "frame_of stream off data \<longleftrightarrow>
     off < 2 ^ 64 \<and> length data < 2 ^ 64 \<and> (\<forall>i < length data. data ! i = stream (off + i))"

fun op_of :: "(nat \<Rightarrow> byte) \<Rightarrow> buffer_op \<Rightarrow> bool" where
  "op_of stream (Deliver off data) = frame_of stream off data"
| "op_of stream (Consume n) = True"

definition holds_stream :: "(nat \<Rightarrow> byte) \<Rightarrow> seq_buffer \<Rightarrow> bool" where
  "holds_stream stream b \<longleftrightarrow> seqbuf_ok b \<and> (\<forall>x v. held b x = Some v \<longrightarrow> v = stream x)"

lemma Deliver_holds_stream:
  assumes h: "holds_stream stream b" and f: "frame_of stream off data"
    and r: "QuicStreamSequencerBuffer_OnStreamData off data b = Some (QUIC_NO_ERROR, n, b')"
  shows "holds_stream stream b'" "total_bytes_read b' = total_bytes_read b"
proof -
  have ok: "seqbuf_ok b" using h by (simp add: holds_stream_def)
  have lt: "off < 2 ^ 64" "length data < 2 ^ 64" using f by (simp_all add: frame_of_def)
  have ne: "data \<noteq> []" using OnStreamData_rejects(1) [OF lt, of b] r by auto
  have "\<not> (2 ^ 64 \<le> off + length data \<or> total_bytes_read b + max_buffer_capacity_bytes b < off + length data)"
    using OnStreamData_rejects(2) [OF lt ne, of b] r by auto
  then have fin: "off + length data \<le> total_bytes_read b + max_buffer_capacity_bytes b"
    and small: "off + length data < 2 ^ 64" by auto
  have "\<not> too_many_intervals off data b"
    using OnStreamData_too_many [OF ok ne fin small] r by auto
  then have rc: "receives off data b b'" using OnStreamData_receives [OF ok ne fin small] r by auto
  then show "total_bytes_read b' = total_bytes_read b" by (simp add: receives_def)
  have "v = stream x" if "held b' x = Some v" for x v
    using that rc h f by (auto simp: receives_def holds_stream_def frame_of_def split: if_splits)
  then show "holds_stream stream b'" using rc by (simp add: holds_stream_def receives_def)
qed

lemma Consume_holds_stream:
  assumes h: "holds_stream stream b"
    and r: "QuicStreamSequencerBuffer_Readv n [] b = Some (QUIC_NO_ERROR, got, b')"
  shows "holds_stream stream b'" "total_bytes_read b' = total_bytes_read b + length got"
    "got = map stream [total_bytes_read b ..< total_bytes_read b + length got]"
proof -
  let ?k = "min n (ReadableBytes b)" and ?t = "total_bytes_read b"
  have ok: "seqbuf_ok b" using h by (simp add: holds_stream_def)
  have got: "got = map (\<lambda>x. the (held b x)) [?t ..< ?t + ?k]" and v: "same_view (advance ?k b) b'"
    using Readv_reads [OF ok refl, of n "[]"] r by auto
  then show "total_bytes_read b' = ?t + length got" by (simp add: same_view_def)
  have "the (held b x) = stream x" if "x \<in> {?t ..< ?t + ?k}" for x
  proof -
    have "x \<in> {?t ..< ?t + ReadableBytes b}" using that by auto
    from held_readable(1) [OF ok this] show ?thesis using h by (simp add: holds_stream_def)
  qed
  then show "got = map stream [?t ..< ?t + length got]" using got by simp
  show "holds_stream stream b'"
    using h v advance_ok(2) [OF ok, of ?k] by (auto simp: holds_stream_def same_view_def split: if_splits)
qed

lemma run_ops_stream:
  assumes "run_ops ops b out = Some (out', b')" "list_all (op_of stream) ops"
    "holds_stream stream b" "out = map stream [0 ..< total_bytes_read b]"
  shows "holds_stream stream b' \<and> out' = map stream [0 ..< total_bytes_read b']"
  using assms
proof (induction ops b out rule: run_ops.induct)
  case (2 off data ops b out)
  then obtain n b1 where "QuicStreamSequencerBuffer_OnStreamData off data b = Some (QUIC_NO_ERROR, n, b1)"
    "run_ops ops b1 out = Some (out', b')"
    by (auto split: option.splits QuicErrorCode.splits)
  then show ?case using 2 Deliver_holds_stream [of stream b off data n b1] by simp
next
  case (3 n ops b out)
  then obtain got b1 where r: "QuicStreamSequencerBuffer_Readv n [] b = Some (QUIC_NO_ERROR, got, b1)"
    "run_ops ops b1 (out @ got) = Some (out', b')"
    by (auto split: option.splits QuicErrorCode.splits)
  note c = Consume_holds_stream [OF 3(4) r(1)]
  have "out @ got = map stream [0 ..< total_bytes_read b1]"
    using 3(5) c(2,3) upt_add_eq_append [of 0 "total_bytes_read b" "length got"]
    by (metis le0 map_append)
  then show ?case using 3 r c(1) by simp
qed auto

text \<open>C8.  Reassembly: whatever the order, overlap and repetition of the frames of a
  stream, the bytes read from the buffer, read after read, are the bytes of the
  stream from its first one on, none missing, doubled or out of place.\<close>

theorem reassembly:
  assumes "kInitialBlockCount \<le> CalculateBlockCount cap" "list_all (op_of stream) ops"
    "run_ops ops (new_seq_buffer cap) [] = Some (out, b)"
  shows "out = map stream [0 ..< length out] \<and> total_bytes_read b = length out"
proof -
  have "holds_stream stream (new_seq_buffer cap)" "total_bytes_read (new_seq_buffer cap) = 0"
    using new_seq_buffer_ok [OF assms(1)]
    by (auto simp: holds_stream_def new_seq_buffer_def QuicStreamSequencerBuffer_Clear_def held_def)
  then show ?thesis using run_ops_stream [OF assms(3,2)] by auto
qed

definition sample_stream :: "nat \<Rightarrow> byte" where
  "sample_stream x = word_of_nat (x + 65)"

definition sample_ops :: "buffer_op list" where
  "sample_ops = [Deliver 3 [68, 69], Deliver 0 [65, 66], Consume 8, Deliver 1 [66, 67, 68], Consume 2, Consume 9]"

lemmas buffer_eval = run_ops.simps QuicStreamSequencerBuffer_OnStreamData_def OnStreamData_new_def
  OnStreamData_overlap_def copy_newly_received.simps CopyStreamData.simps QuicStreamSequencerBuffer_Readv.simps
  new_seq_buffer_def QuicStreamSequencerBuffer_Clear_def CalculateBlockCount_def kBlockSizeBytes_def
  kMaxPacketGap_def kMaxNumDataIntervalsAllowed_def kInitialBlockCount_def kBlocksGrowthFactor_def
  block_at_def GetBlockIndex_def GetInBlockOffset_def ReadOffset_def NextBlockToRead_def
  GetBlockCapacity_def FirstMissingByte_def NextExpectedByte_def ReadableBytes_def
  QuicStreamSequencerBuffer_Empty_def RetireBlock_def RetireBlockIfEmpty_def num_of_blocks_needed_def
  resize_blocks_def MaybeAddMoreBlocks_def memcpy_def write_block_def advance_def
  QuicIntervalSet_Add_def QuicIntervalSet_AddOptimizedForAppend_def QuicIntervalSet_Difference_def
  Difference_loop.simps QuicIntervalSet_IsDisjoint_def lower_bound_def upper_bound_def Set_insert_def
  interval_defs quic_interval_set_enable_add_optimization_def u64_def Let_def

lemma sample_run:
  "\<exists>b. run_ops sample_ops (new_seq_buffer 65536) [] = Some ([65, 66, 67, 68, 69], b)"
  by (simp add: buffer_eval sample_ops_def)

lemma sample_ops_of_stream: "list_all (op_of sample_stream) sample_ops"
  by (auto simp: sample_ops_def frame_of_def sample_stream_def less_Suc_eq)

lemma sample_capacity: "kInitialBlockCount \<le> CalculateBlockCount 65536"
  by (simp add: kInitialBlockCount_def CalculateBlockCount_def kBlockSizeBytes_def)

theorem reassembly_witness:
  "\<exists>b. run_ops sample_ops (new_seq_buffer 65536) [] = Some ([65, 66, 67, 68, 69], b) \<and>
     [65, 66, 67, 68, 69] = map sample_stream [0 ..< 5] \<and> total_bytes_read b = 5"
proof -
  obtain b where "run_ops sample_ops (new_seq_buffer 65536) [] = Some ([65, 66, 67, 68, 69], b)"
    using sample_run by blast
  with reassembly [OF sample_capacity sample_ops_of_stream this] show ?thesis
    by (simp add: sample_stream_def upt_rec)
qed

text \<open>C23.  \<open>OnStreamData\<close> on every branch.  An empty frame and a frame that ends beyond
  the window, or whose end overflows 64 bits, are rejected and change nothing; a
  frame that would leave too many separate intervals is rejected; any other
  frame is accepted, the count reported is the number of its bytes that are new,
  the invariant is kept, those bytes are now held at their offsets, and every
  byte held before is still the same.\<close>

theorem OnStreamData_correct:
  assumes "seqbuf_ok b" "start < 2 ^ 64" "length data < 2 ^ 64"
  shows "(let result = QuicStreamSequencerBuffer_OnStreamData start data b in
    if data = [] then result = Some (QUIC_EMPTY_STREAM_FRAME_NO_FIN, 0, b)
    else if 2 ^ 64 \<le> start + length data \<or>
            total_bytes_read b + max_buffer_capacity_bytes b < start + length data
    then result = Some (QUIC_INTERNAL_ERROR, 0, b)
    else if too_many_intervals start data b
    then \<exists>b'. result = Some (QUIC_TOO_MANY_STREAM_DATA_INTERVALS, 0, b')
    else \<exists>b'. result = Some (QUIC_NO_ERROR,
              card ({start..<start + length data} - points (bytes_received b)), b') \<and>
           receives start data b b')"
  using OnStreamData_rejects [OF assms(2,3), of b] OnStreamData_too_many [OF assms(1), of data start]
    OnStreamData_receives [OF assms(1), of data start]
  by (auto simp: Let_def not_le not_less)

theorem OnStreamData_correct_witness:
  "\<exists>b. QuicStreamSequencerBuffer_OnStreamData 2 [7, 8] (new_seq_buffer 65536) = Some (QUIC_NO_ERROR, 2, b) \<and>
     receives 2 [7, 8] (new_seq_buffer 65536) b"
proof -
  have few: "\<not> too_many_intervals 2 [7, 8] (new_seq_buffer 65536)"
    by (simp add: too_many_intervals_def buffer_eval)
  have "card ({2..<4} - points (bytes_received (new_seq_buffer 65536))) = 2"
    by (simp add: buffer_eval)
  then show ?thesis
    using OnStreamData_correct [OF new_seq_buffer_ok [OF sample_capacity], of 2 "[7, 8]"] few
    by (simp add: Let_def) (simp add: new_seq_buffer_def QuicStreamSequencerBuffer_Clear_def)
qed

text \<open>C24.  \<open>Readv\<close> always returns without an error and delivers the next bytes held, as
  many as were asked for and are contiguous; afterwards exactly those are gone
  and the invariant still holds.\<close>

theorem Readv_correct:
  assumes "seqbuf_ok b"
  shows "\<exists>b'. QuicStreamSequencerBuffer_Readv n [] b =
      Some (QUIC_NO_ERROR, map (\<lambda>x. the (held b x))
        [total_bytes_read b ..< total_bytes_read b + min n (ReadableBytes b)], b') \<and>
    seqbuf_ok b' \<and> total_bytes_read b' = total_bytes_read b + min n (ReadableBytes b) \<and>
    (\<forall>x. held b' x = (if x < total_bytes_read b + min n (ReadableBytes b) then None else held b x))"
  using Readv_reads [OF assms refl, of n "[]"] advance_ok(2) [OF assms, of "min n (ReadableBytes b)"]
  by (auto simp: same_view_def)

theorem Readv_correct_witness:
  "\<exists>b'. QuicStreamSequencerBuffer_Readv 9 [] (new_seq_buffer 65536) = Some (QUIC_NO_ERROR, [], b') \<and> seqbuf_ok b'"
proof -
  have "ReadableBytes (new_seq_buffer 65536) = 0" by (simp add: buffer_eval)
  then show ?thesis using Readv_correct [OF new_seq_buffer_ok [OF sample_capacity], of 9] by auto
qed

end
