(* ===== verification/Send_Buffer.thy ===== *)
theory Send_Buffer
  imports Interval_Set
begin

text \<open>
  \<open>QuicStreamSendBufferInlining\<close> (\<open>quic_stream_send_buffer_inlining.cc\<close>): the bytes a
  stream has been given to send, kept in slices until the peer has acknowledged
  them.  A slice is its offset and its bytes; a cleared slice has none.  The
  slices are a list in the order of \<open>interval_deque_\<close>; whether a slice stores its
  bytes inline or in \<open>owned_slices_\<close> and the position cache of the deque do not
  change what a lookup finds and are not represented.

  The invariant \<open>sb_ok data sb\<close> relates the buffer to \<open>data\<close>, all bytes ever saved:
  every offset that is not acknowledged is still in a slice, with its byte.
\<close>

record send_buffer =
  slices :: "(nat \<times> bytes) list"
  stream_offset :: nat
  stream_bytes_written :: nat
  stream_bytes_outstanding :: nat
  bytes_acked :: QuicIntervalSet
  pending_retransmissions :: QuicIntervalSet

definition new_send_buffer :: send_buffer where
  "new_send_buffer = \<lparr>slices = [], stream_offset = 0, stream_bytes_written = 0,
     stream_bytes_outstanding = 0, bytes_acked = [], pending_retransmissions = []\<rparr>"

definition kSendBufferMaxInlinedSize :: nat where
  "kSendBufferMaxInlinedSize = 15"

definition quic_send_buffer_max_data_slice_size :: nat where
  "quic_send_buffer_max_data_slice_size = 4 * 1024"

definition WillInline :: "bytes \<Rightarrow> bool" where
  "WillInline data \<longleftrightarrow> length data \<le> kSendBufferMaxInlinedSize"

definition SaveMemSlice :: "bytes \<Rightarrow> send_buffer \<Rightarrow> send_buffer" where
  "SaveMemSlice sl sb =
     (if sl = [] then sb
      else sb\<lparr>slices := slices sb @ [(stream_offset sb, sl)],
              stream_offset := stream_offset sb + length sl\<rparr>)"

function save_slices :: "bytes \<Rightarrow> send_buffer \<Rightarrow> send_buffer" where
  "save_slices data sb =
     (if data = [] then sb
      else let slice_len = min (length data) quic_send_buffer_max_data_slice_size
           in save_slices (drop slice_len data) (SaveMemSlice (take slice_len data) sb))"
  by pat_completeness auto
termination
  by (relation "measure (\<lambda>(data, sb). length data)")
    (auto simp: quic_send_buffer_max_data_slice_size_def)

declare save_slices.simps [simp del]

definition SaveStreamData :: "bytes \<Rightarrow> send_buffer \<Rightarrow> send_buffer" where
  "SaveStreamData data sb = (if WillInline data then SaveMemSlice data sb else save_slices data sb)"

definition SendBuffer_OnStreamDataConsumed :: "nat \<Rightarrow> send_buffer \<Rightarrow> send_buffer" where
  "SendBuffer_OnStreamDataConsumed n sb =
     sb\<lparr>stream_bytes_written := stream_bytes_written sb + n,
        stream_bytes_outstanding := stream_bytes_outstanding sb + n\<rparr>"

fun clear_acked_slices :: "nat \<Rightarrow> QuicIntervalSet \<Rightarrow> (nat \<times> bytes) list \<Rightarrow> (nat \<times> bytes) list" where
  "clear_acked_slices finish acked [] = []"
| "clear_acked_slices finish acked ((off, sl) # rest) =
     (if off \<ge> finish then (off, sl) # rest
      else (if sl \<noteq> [] \<and> QuicIntervalSet_Contains (off, off + length sl) acked
            then (off, []) else (off, sl)) # clear_acked_slices finish acked rest)"

definition slice_interval :: "nat \<times> bytes \<Rightarrow> QuicInterval" where
  "slice_interval s = (fst s, fst s + length (snd s))"

definition FreeMemSlices :: "nat \<Rightarrow> nat \<Rightarrow> send_buffer \<Rightarrow> bool \<times> send_buffer" where
  "FreeMemSlices start finish sb =
     (if slices sb = [] \<or> snd (hd (slices sb)) = [] then (False, sb)
      else let (before, from) =
                 (if QuicInterval_Contains_value (slice_interval (hd (slices sb))) start
                  then ([], slices sb)
                  else (takeWhile (\<lambda>s. fst s + length (snd s) < start) (slices sb),
                        dropWhile (\<lambda>s. fst s + length (snd s) < start) (slices sb)))
           in if from = [] \<or> snd (hd from) = [] then (False, sb)
              else (True, sb\<lparr>slices := before @ clear_acked_slices finish (bytes_acked sb) from\<rparr>))"

definition CleanUpBufferedSlices :: "send_buffer \<Rightarrow> send_buffer" where
  "CleanUpBufferedSlices sb = sb\<lparr>slices := dropWhile (\<lambda>s. snd s = []) (slices sb)\<rparr>"

text \<open>The results are whether the acknowledgement was acceptable and the number of
  bytes newly acknowledged.\<close>

definition SendBuffer_OnStreamDataAcked :: "nat \<Rightarrow> nat \<Rightarrow> send_buffer \<Rightarrow> bool \<times> nat \<times> send_buffer" where
  "SendBuffer_OnStreamDataAcked off len sb =
     (if len = 0 then (True, 0, sb)
      else if bytes_acked sb = [] \<or> off \<ge> snd (last (bytes_acked sb)) \<or>
              QuicIntervalSet_IsDisjoint (off, off + len) (bytes_acked sb)
      then if stream_bytes_outstanding sb < len then (False, 0, sb)
           else let sb = sb\<lparr>bytes_acked := QuicIntervalSet_AddOptimizedForAppend (off, off + len) (bytes_acked sb),
                            stream_bytes_outstanding := stream_bytes_outstanding sb - len,
                            pending_retransmissions :=
                              QuicIntervalSet_Difference (QuicIntervalSet_Add (off, off + len) []) (pending_retransmissions sb)\<rparr>;
                    (freed, sb) = FreeMemSlices off (off + len) sb
                in if \<not> freed then (False, len, sb) else (True, len, CleanUpBufferedSlices sb)
      else if QuicIntervalSet_Contains (off, off + len) (bytes_acked sb) then (True, 0, sb)
      else let newly_acked = QuicIntervalSet_Difference (bytes_acked sb) (QuicIntervalSet_Add (off, off + len) []);
               newly_acked_length = (\<Sum>i \<leftarrow> newly_acked. snd i - fst i)
           in if stream_bytes_outstanding sb < newly_acked_length then (False, newly_acked_length, sb)
              else let sb = sb\<lparr>stream_bytes_outstanding := stream_bytes_outstanding sb - newly_acked_length,
                               bytes_acked := QuicIntervalSet_Add (off, off + len) (bytes_acked sb),
                               pending_retransmissions :=
                                 QuicIntervalSet_Difference (QuicIntervalSet_Add (off, off + len) []) (pending_retransmissions sb)\<rparr>
                   in if newly_acked = [] then (True, newly_acked_length, sb)
                      else let (freed, sb) = FreeMemSlices (fst (hd newly_acked)) (snd (last newly_acked)) sb
                           in if \<not> freed then (False, newly_acked_length, sb)
                              else (True, newly_acked_length, CleanUpBufferedSlices sb))"

definition SendBuffer_OnStreamDataLost :: "nat \<Rightarrow> nat \<Rightarrow> send_buffer \<Rightarrow> send_buffer" where
  "SendBuffer_OnStreamDataLost off len sb =
     (if len = 0 then sb
      else let bytes_lost = QuicIntervalSet_Difference (bytes_acked sb) (QuicIntervalSet_Add (off, off + len) [])
           in if bytes_lost = [] then sb
              else sb\<lparr>pending_retransmissions := fold QuicIntervalSet_Add bytes_lost (pending_retransmissions sb)\<rparr>)"

definition SendBuffer_OnStreamDataRetransmitted :: "nat \<Rightarrow> nat \<Rightarrow> send_buffer \<Rightarrow> send_buffer" where
  "SendBuffer_OnStreamDataRetransmitted off len sb =
     (if len = 0 then sb
      else sb\<lparr>pending_retransmissions :=
                QuicIntervalSet_Difference (QuicIntervalSet_Add (off, off + len) []) (pending_retransmissions sb)\<rparr>)"

definition NextPendingRetransmission :: "send_buffer \<Rightarrow> nat \<times> nat" where
  "NextPendingRetransmission sb =
     (case pending_retransmissions sb of [] \<Rightarrow> (0, 0) | i # _ \<Rightarrow> (fst i, snd i - fst i))"

definition IsStreamDataOutstanding :: "nat \<Rightarrow> nat \<Rightarrow> send_buffer \<Rightarrow> bool" where
  "IsStreamDataOutstanding off len sb \<longleftrightarrow>
     len > 0 \<and> \<not> QuicIntervalSet_Contains (off, off + len) (bytes_acked sb)"

fun write_slices :: "(nat \<times> bytes) list \<Rightarrow> nat \<Rightarrow> nat \<Rightarrow> bytes \<Rightarrow> bool \<times> bytes" where
  "write_slices [] off len out = (len = 0, out)"
| "write_slices ((slice_off, sl) # rest) off len out =
     (if len = 0 \<or> off < slice_off then (len = 0, out)
      else let copy_length = min len (length sl - (off - slice_off))
           in write_slices rest (off + copy_length) (len - copy_length)
                (out @ take copy_length (drop (off - slice_off) sl)))"

definition SendBuffer_WriteStreamData :: "nat \<Rightarrow> nat \<Rightarrow> send_buffer \<Rightarrow> bool \<times> bytes" where
  "SendBuffer_WriteStreamData off len sb =
     write_slices (dropWhile (\<lambda>s. \<not> QuicInterval_Contains_value (slice_interval s) off) (slices sb)) off len []"

section \<open>Invariant\<close>

fun chain :: "nat set \<Rightarrow> bytes \<Rightarrow> nat \<Rightarrow> (nat \<times> bytes) list \<Rightarrow> bool" where
  "chain A data c [] \<longleftrightarrow> {c..<length data} \<subseteq> A"
| "chain A data c ((off, sl) # rest) \<longleftrightarrow>
     c \<le> off \<and> {c..<off} \<subseteq> A \<and> off < length data \<and> (sl = [] \<longrightarrow> off \<in> A) \<and>
     off + length sl \<le> length data \<and> sl = take (length sl) (drop off data) \<and>
     chain A data (off + length sl) rest"

definition sb_ok :: "bytes \<Rightarrow> send_buffer \<Rightarrow> bool" where
  "sb_ok data sb \<longleftrightarrow>
     stream_offset sb = length data \<and>
     chain (points (bytes_acked sb)) data 0 (slices sb) \<and>
     (slices sb = [] \<or> snd (hd (slices sb)) \<noteq> []) \<and>
     QuicIntervalSet_Valid (bytes_acked sb) \<and> points (bytes_acked sb) \<subseteq> {..<stream_bytes_written sb} \<and>
     stream_bytes_written sb \<le> length data \<and>
     stream_bytes_outstanding sb + card (points (bytes_acked sb)) = stream_bytes_written sb \<and>
     QuicIntervalSet_Valid (pending_retransmissions sb) \<and>
     points (pending_retransmissions sb) \<subseteq> {..<stream_bytes_written sb} - points (bytes_acked sb)"

lemma sb_ok_new [wf_intros]: "sb_ok [] new_send_buffer"
  by (simp add: sb_ok_def new_send_buffer_def wf_simps)

lemma chain_mono: "chain A data c s \<Longrightarrow> A \<subseteq> B \<Longrightarrow> chain B data c s"
  by (induction A data c s rule: chain.induct) auto

lemma chain_extend:
  "chain A data c s \<Longrightarrow> c \<le> length data \<Longrightarrow> ext \<noteq> [] \<Longrightarrow>
   chain A (data @ ext) c (s @ [(length data, ext)])"
  by (induction A data c s rule: chain.induct) auto

lemma sb_ok_SaveMemSlice [wf_intros]:
  assumes "sb_ok data sb"
  shows "sb_ok (data @ sl) (SaveMemSlice sl sb)"
proof (cases "sl = []")
  case True
  then show ?thesis using assms by (simp add: SaveMemSlice_def)
next
  case False
  then have "chain (points (bytes_acked sb)) (data @ sl) 0 (slices sb @ [(length data, sl)])"
    using assms by (intro chain_extend) (simp_all add: sb_ok_def)
  then show ?thesis using assms False
    by (cases "slices sb") (auto simp: sb_ok_def SaveMemSlice_def)
qed

lemma sb_ok_save_slices: "sb_ok data sb \<Longrightarrow> sb_ok (data @ ext) (save_slices ext sb)"
proof (induction ext sb arbitrary: data rule: save_slices.induct)
  case (1 ext sb)
  show ?case
  proof (cases "ext = []")
    case True
    then show ?thesis using 1 by (simp add: save_slices.simps)
  next
    case False
    let ?n = "min (length ext) quic_send_buffer_max_data_slice_size"
    have "sb_ok (data @ take ?n ext) (SaveMemSlice (take ?n ext) sb)"
      using 1(2) by (rule sb_ok_SaveMemSlice)
    from 1(1) [OF False refl this]
    have "sb_ok ((data @ take ?n ext) @ drop ?n ext) (save_slices (drop ?n ext) (SaveMemSlice (take ?n ext) sb))" .
    then show ?thesis using False by (simp add: save_slices.simps [of ext] Let_def)
  qed
qed

lemma sb_ok_SaveStreamData [wf_intros]: "sb_ok data sb \<Longrightarrow> sb_ok (data @ ext) (SaveStreamData ext sb)"
  by (simp add: SaveStreamData_def sb_ok_SaveMemSlice sb_ok_save_slices)

lemma sb_ok_OnStreamDataConsumed [wf_intros]:
  "sb_ok data sb \<Longrightarrow> stream_bytes_written sb + n \<le> stream_offset sb \<Longrightarrow>
   sb_ok data (SendBuffer_OnStreamDataConsumed n sb)"
  by (auto simp: sb_ok_def SendBuffer_OnStreamDataConsumed_def)

section \<open>Reading data back for (re)transmission\<close>

lemma chain_covers:
  "chain A data c s \<Longrightarrow> c \<le> x \<Longrightarrow> x < length data \<Longrightarrow> x \<notin> A \<Longrightarrow>
   \<exists>sl \<in> set s. QuicInterval_Contains_value (slice_interval sl) x"
proof (induction A data c s rule: chain.induct)
  case (2 A data c off sl rest)
  show ?case
  proof (cases "x < off + length sl")
    case True
    have "off \<le> x" using 2(2-5) by (metis atLeastLessThan_iff chain.simps(2) linorder_not_le subsetD)
    then show ?thesis using True by (auto simp: QuicInterval_Contains_value_def slice_interval_def)
  next
    case False
    then show ?thesis using 2 by auto
  qed
qed auto

lemma chain_suffix: "chain A data c (s @ t) \<Longrightarrow> \<exists>c'. chain A data c' t"
  by (induction s arbitrary: c) auto

lemma write_slices_none: "write_slices s off 0 out = (True, out)"
  by (cases s) auto

lemma write_slices_data:
  assumes "chain A data c s" "off + len \<le> length data" "{off..<off + len} \<inter> A = {}"
    "c = off \<or> (s \<noteq> [] \<and> QuicInterval_Contains_value (slice_interval (hd s)) off)"
  shows "write_slices s off len out = (True, out @ take len (drop off data))"
  using assms
proof (induction s arbitrary: c off len out)
  case Nil
  then have "len = 0" by (cases "len = 0") (auto simp: disjoint_iff subset_iff)
  then show ?case by simp
next
  case (Cons p s)
  obtain o1 d where p: "p = (o1, d)" by fastforce
  show ?case
  proof (cases "len = 0")
    case False
    then have "off \<notin> A" using Cons.prems(3) by (auto simp: disjoint_iff)
    moreover have "{c..<o1} \<subseteq> A" "c \<le> o1" using Cons.prems(1) p by auto
    ultimately have o1: "o1 \<le> off" "off \<le> o1 + length d"
      using Cons.prems(4) p
      by (auto simp: QuicInterval_Contains_value_def slice_interval_def subset_iff not_less [symmetric])
    define n where "n = min len (length d - (off - o1))"
    have d: "d = take (length d) (drop o1 data)" and ch: "chain A data (o1 + length d) s"
      using Cons.prems(1) p by auto
    have "take n (drop (off - o1) d) = take n (drop off data)"
      using o1 by (subst d) (auto simp: n_def drop_take min_def)
    moreover have "take len (drop off data) = take n (drop off data) @ take (len - n) (drop (off + n) data)"
      by (metis add.commute drop_drop le_add_diff_inverse min.cobounded1 n_def take_add)
    moreover have "write_slices s (off + n) (len - n) (out @ take n (drop off data)) =
        (True, (out @ take n (drop off data)) @ take (len - n) (drop (off + n) data))"
    proof (cases "n = len")
      case True
      then show ?thesis by (simp add: write_slices_none)
    next
      case False
      then have "off + n = o1 + length d" using o1 by (auto simp: n_def)
      then show ?thesis using Cons.prems(2,3) ch
        by (intro Cons.IH [of "o1 + length d"]) (auto simp: n_def disjoint_iff)
    qed
    moreover have "n = min len (length d + o1 - off)" using o1 by (simp add: n_def)
    ultimately show ?thesis using False o1 p by (simp add: Let_def)
  qed (simp add: write_slices_none)
qed

lemma WriteStreamData_data:
  assumes ok: "sb_ok data sb" and r: "off + len \<le> length data" "{off..<off + len} \<inter> points (bytes_acked sb) = {}"
  shows "SendBuffer_WriteStreamData off len sb = (True, take len (drop off data))"
proof (cases "len = 0")
  case True
  then show ?thesis by (simp add: SendBuffer_WriteStreamData_def write_slices_none)
next
  case False
  let ?P = "\<lambda>s. \<not> QuicInterval_Contains_value (slice_interval s) off"
  have ch: "chain (points (bytes_acked sb)) data 0 (slices sb)" using ok by (simp add: sb_ok_def)
  have "off \<notin> points (bytes_acked sb)" using r(2) False by (auto simp: disjoint_iff)
  then have ex: "\<exists>s \<in> set (slices sb). \<not> ?P s" using chain_covers [OF ch, of off] r(1) False by auto
  obtain c where "chain (points (bytes_acked sb)) data c (dropWhile ?P (slices sb))"
    using chain_suffix [of _ data 0 "takeWhile ?P (slices sb)" "dropWhile ?P (slices sb)"] ch
    by (auto simp only: takeWhile_dropWhile_id)
  moreover have "dropWhile ?P (slices sb) \<noteq> []" using ex by (simp add: dropWhile_eq_Nil_conv)
  moreover from this have "\<not> ?P (hd (dropWhile ?P (slices sb)))" by (rule hd_dropWhile)
  ultimately show ?thesis
    using write_slices_data [of _ data c _ off len "[]"] r by (simp add: SendBuffer_WriteStreamData_def)
qed

section \<open>Acknowledgements\<close>

lemma chain_shrink: "chain A data c s \<Longrightarrow> c' \<le> c \<Longrightarrow> {c'..<c} \<subseteq> A \<Longrightarrow> chain A data c' s"
proof (cases s)
  case (Cons p rest)
  assume a: "chain A data c s" "c' \<le> c" "{c'..<c} \<subseteq> A"
  obtain o1 d where p: "p = (o1, d)" by fastforce
  have "{c'..<o1} \<subseteq> {c'..<c} \<union> {c..<o1}" by auto
  also have "\<dots> \<subseteq> A" using a Cons p by auto
  finally show ?thesis using a Cons p by auto
next
  case Nil
  assume a: "chain A data c s" "c' \<le> c" "{c'..<c} \<subseteq> A"
  have "{c'..<length data} \<subseteq> {c'..<c} \<union> {c..<length data}" by auto
  also have "\<dots> \<subseteq> A" using a Nil by auto
  finally show ?thesis using Nil by simp
qed

lemma chain_clear:
  "chain (points acked) data c s \<Longrightarrow> separated_list acked \<Longrightarrow>
   chain (points acked) data c (clear_acked_slices finish acked s)"
proof (induction finish acked s arbitrary: c rule: clear_acked_slices.induct)
  case (2 finish acked o1 d rest)
  show ?case
  proof (cases "o1 < finish \<and> d \<noteq> [] \<and> QuicIntervalSet_Contains (o1, o1 + length d) acked")
    case True
    then have sub: "{o1..<o1 + length d} \<subseteq> points acked" "d \<noteq> []" using Contains_iff [OF 2(3), of o1 "o1 + length d"] by auto
    have "chain (points acked) data (o1 + length d) (clear_acked_slices finish acked rest)"
      using 2 True by auto
    then have "chain (points acked) data o1 (clear_acked_slices finish acked rest)"
      by (rule chain_shrink) (use sub in auto)
    then show ?thesis using 2(2) True sub by auto
  next
    case False
    then show ?thesis using 2 by auto
  qed
qed auto

lemma chain_prefix: "chain A data c (s @ t) \<Longrightarrow> (\<And>c'. chain A data c' t \<Longrightarrow> chain A data c' t') \<Longrightarrow> chain A data c (s @ t')"
  by (induction s arbitrary: c) auto

lemma chain_dropWhile: "chain A data c s \<Longrightarrow> chain A data c (dropWhile (\<lambda>s. snd s = []) s)"
proof (induction s arbitrary: c)
  case (Cons p s)
  obtain o1 d where p: "p = (o1, d)" by fastforce
  show ?case
  proof (cases "d = []")
    case True
    then have "chain A data o1 s" "c \<le> o1" "{c..<o1} \<subseteq> A" using Cons.prems p by auto
    then have "chain A data c s" by (rule chain_shrink)
    then show ?thesis using Cons.IH True p by simp
  qed (use Cons.prems p in simp)
qed simp

text \<open>The slice that holds the first newly acknowledged byte is found, and it is
  not a cleared one.\<close>

lemma chain_offsets: "chain A data c s \<Longrightarrow> p \<in> set s \<Longrightarrow> c \<le> fst p"
  by (induction A data c s rule: chain.induct) fastforce+

lemma lower_bound_slice:
  assumes "chain A data c s" "c \<le> x" "x < length data" "x \<notin> A"
    "from = dropWhile (\<lambda>s. fst s + length (snd s) < x) s"
  shows "from \<noteq> [] \<and> snd (hd from) \<noteq> []"
  using assms
proof (induction s arbitrary: c)
  case (Cons p s)
  obtain o1 d where p: "p = (o1, d)" by fastforce
  show ?case
  proof (cases "o1 + length d < x")
    case True
    have "chain A data (o1 + length d) s" using Cons.prems(1) p by auto
    then show ?thesis using Cons.IH Cons.prems(3,4,5) True p by auto
  next
    case False
    have "o1 \<le> x"
      using Cons.prems(1,2,4) p by (metis atLeastLessThan_iff chain.simps(2) linorder_not_le subsetD)
    moreover have "d = [] \<Longrightarrow> o1 \<in> A" using Cons.prems(1) p by simp
    ultimately have "d \<noteq> []" using False Cons.prems(4) by (metis add.right_neutral le_neq_implies_less list.size(3))
    then show ?thesis using False Cons.prems(5) p by simp
  qed
qed auto

lemma FreeMemSlices_ok:
  assumes ch: "chain A data 0 (slices sb)" and ne: "slices sb = [] \<or> snd (hd (slices sb)) \<noteq> []"
    and sub: "A \<subseteq> points (bytes_acked sb)" and v: "separated_list (bytes_acked sb)"
    and x: "start < length data" "start \<notin> A"
  shows "\<exists>ss. FreeMemSlices start finish sb = (True, sb\<lparr>slices := ss\<rparr>) \<and>
    chain (points (bytes_acked sb)) data 0 ss"
proof -
  let ?s = "slices sb"
  have nn: "?s \<noteq> []" using chain_covers [OF ch _ x] by auto
  obtain before rest where bf: "(before, rest) =
      (if QuicInterval_Contains_value (slice_interval (hd ?s)) start then ([], ?s)
       else (takeWhile (\<lambda>s. fst s + length (snd s) < start) ?s,
             dropWhile (\<lambda>s. fst s + length (snd s) < start) ?s))"
    by (metis surj_pair)
  have s: "?s = before @ rest" using bf by (auto split: if_splits)
  have hd: "rest \<noteq> [] \<and> snd (hd rest) \<noteq> []"
    using bf nn ne lower_bound_slice [OF ch _ x refl] by (auto split: if_splits)
  have "chain (points (bytes_acked sb)) data 0 (before @ rest)" using chain_mono [OF ch sub] s by simp
  then have "chain (points (bytes_acked sb)) data 0 (before @ clear_acked_slices finish (bytes_acked sb) rest)"
    by (rule chain_prefix) (rule chain_clear [OF _ v])
  moreover have "FreeMemSlices start finish sb =
      (True, sb\<lparr>slices := before @ clear_acked_slices finish (bytes_acked sb) rest\<rparr>)"
    unfolding FreeMemSlices_def bf [symmetric] Let_def prod.case using nn ne hd by simp
  ultimately show ?thesis by blast
qed

lemma sum_interval_lengths: "separated_list s \<Longrightarrow> (\<Sum>i \<leftarrow> s. snd i - fst i) = card (points s)"
proof (induction s)
  case (Cons i s)
  have "{fst i..<snd i} \<inter> points s = {}" using separated_tail_points [OF Cons.prems] by auto
  then show ?case using Cons by (simp add: card_Un_disjoint)
qed simp

definition acks :: "nat \<Rightarrow> nat \<Rightarrow> bytes \<Rightarrow> send_buffer \<Rightarrow> send_buffer \<Rightarrow> bool" where
  "acks off len data sb sb' \<longleftrightarrow>
     sb_ok data sb' \<and> points (bytes_acked sb') = points (bytes_acked sb) \<union> {off..<off + len} \<and>
     points (pending_retransmissions sb') = points (pending_retransmissions sb) - {off..<off + len} \<and>
     stream_bytes_written sb' = stream_bytes_written sb \<and> stream_offset sb' = stream_offset sb"

lemma single_points [simp]: "points (QuicIntervalSet_Add i []) = {fst i..<snd i}"
  by simp

lemma single_separated [simp]: "separated_list (QuicIntervalSet_Add i [])"
  by (rule Add_separated) simp

lemma acks_update:
  assumes ok: "sb_ok data sb" and r: "off + len \<le> stream_bytes_written sb"
    and new: "n = card ({off..<off + len} - points (bytes_acked sb))"
    and sb1: "sb1 = sb\<lparr>bytes_acked := QuicIntervalSet_Add (off, off + len) (bytes_acked sb),
       stream_bytes_outstanding := stream_bytes_outstanding sb - n,
       pending_retransmissions :=
         QuicIntervalSet_Difference (QuicIntervalSet_Add (off, off + len) []) (pending_retransmissions sb)\<rparr>"
    and x: "start \<in> {off..<off + len} - points (bytes_acked sb)"
  shows "\<exists>ss. FreeMemSlices start finish sb1 = (True, sb1\<lparr>slices := ss\<rparr>) \<and>
    acks off len data sb (CleanUpBufferedSlices (sb1\<lparr>slices := ss\<rparr>))"
proof -
  let ?A = "points (bytes_acked sb)"
  have v: "separated_list (bytes_acked sb)" and pv: "separated_list (pending_retransmissions sb)"
    and A: "?A \<subseteq> {..<stream_bytes_written sb}" and w: "stream_bytes_written sb \<le> length data"
    and out: "stream_bytes_outstanding sb + card ?A = stream_bytes_written sb"
    using ok by (simp_all add: sb_ok_def wf_simps)
  have A1: "points (bytes_acked sb1) = ?A \<union> {off..<off + len}" using v sb1 by simp
  have "finite ({off..<off + len} - ?A)" by simp
  have "card (?A \<union> {off..<off + len}) = card ?A + n"
  proof -
    have "?A \<union> {off..<off + len} = ?A \<union> ({off..<off + len} - ?A)" by auto
    moreover have "card (?A \<union> ({off..<off + len} - ?A)) = card ?A + card ({off..<off + len} - ?A)"
      by (rule card_Un_disjoint) auto
    ultimately show ?thesis by (simp add: new)
  qed
  moreover have "card (?A \<union> {off..<off + len}) \<le> card {..<stream_bytes_written sb}"
    using A r by (intro card_mono) auto
  ultimately have out1: "stream_bytes_outstanding sb1 + card (points (bytes_acked sb1)) = stream_bytes_written sb1"
    using out A1 sb1 by simp
  have p1: "separated_list (pending_retransmissions sb1)"
    "points (pending_retransmissions sb1) = points (pending_retransmissions sb) - {off..<off + len}"
    using Difference_correct [OF pv, of "QuicIntervalSet_Add (off, off + len) []"] sb1 by simp_all
  obtain ss where ss: "FreeMemSlices start finish sb1 = (True, sb1\<lparr>slices := ss\<rparr>)"
    "chain (points (bytes_acked sb1)) data 0 ss"
    using FreeMemSlices_ok [of ?A data sb1 start finish] ok A1 x r w v
    by (auto simp: sb_ok_def sb1 Add_separated)
  let ?sb2 = "CleanUpBufferedSlices (sb1\<lparr>slices := ss\<rparr>)"
  have "slices ?sb2 = [] \<or> snd (hd (slices ?sb2)) \<noteq> []"
    using hd_dropWhile [of "\<lambda>s. snd s = []" ss] by (auto simp: CleanUpBufferedSlices_def)
  moreover have "points (pending_retransmissions sb) \<subseteq> {..<stream_bytes_written sb} - ?A"
    using ok by (simp add: sb_ok_def)
  ultimately have "sb_ok data ?sb2"
    using ok out1 p1 A1 A r chain_dropWhile [OF ss(2)] v
    by (auto simp: sb_ok_def CleanUpBufferedSlices_def sb1 wf_simps Add_separated)
  then have "acks off len data sb ?sb2"
    using A1 p1 by (simp add: acks_def CleanUpBufferedSlices_def) (simp add: sb1)
  then show ?thesis using ss(1) by blast
qed

lemma acks_nothing:
  assumes "sb_ok data sb" "{off..<off + len} \<subseteq> points (bytes_acked sb)"
  shows "acks off len data sb sb"
  using assms by (auto simp: acks_def sb_ok_def)

theorem OnStreamDataAcked_acks:
  assumes ok: "sb_ok data sb" and r: "off + len \<le> stream_bytes_written sb"
  shows "\<exists>sb'. SendBuffer_OnStreamDataAcked off len sb =
      (True, card ({off..<off + len} - points (bytes_acked sb)), sb') \<and> acks off len data sb sb'"
proof -
  let ?A = "points (bytes_acked sb)" and ?R = "{off..<off + len}"
  have v: "separated_list (bytes_acked sb)" using ok by (simp add: sb_ok_def wf_simps)
  have "card (?R - ?A) + card ?A = card (?R \<union> ?A)"
    by (subst card_Un_disjoint [symmetric]) (auto intro: arg_cong [of _ _ card])
  also have "\<dots> \<le> card {..<stream_bytes_written sb}"
    using ok r by (intro card_mono) (auto simp: sb_ok_def)
  finally have out: "card (?R - ?A) \<le> stream_bytes_outstanding sb" using ok by (auto simp: sb_ok_def)
  consider (none) "len = 0"
    | (new) "len \<noteq> 0" "bytes_acked sb = [] \<or> off \<ge> snd (last (bytes_acked sb)) \<or>
        QuicIntervalSet_IsDisjoint (off, off + len) (bytes_acked sb)"
    | (old) "len \<noteq> 0" "\<not> (bytes_acked sb = [] \<or> off \<ge> snd (last (bytes_acked sb)) \<or>
        QuicIntervalSet_IsDisjoint (off, off + len) (bytes_acked sb))"
        "QuicIntervalSet_Contains (off, off + len) (bytes_acked sb)"
    | (part) "len \<noteq> 0" "\<not> (bytes_acked sb = [] \<or> off \<ge> snd (last (bytes_acked sb)) \<or>
        QuicIntervalSet_IsDisjoint (off, off + len) (bytes_acked sb))"
        "\<not> QuicIntervalSet_Contains (off, off + len) (bytes_acked sb)"
    by blast
  then show ?thesis
  proof cases
    case none
    then show ?thesis using acks_nothing [OF ok, of off len] by (simp add: SendBuffer_OnStreamDataAcked_def)
  next
    case new
    have disj: "?R \<inter> ?A = {}"
      using new(2) IsDisjoint_iff [OF v, of "(off, off + len)"] separated_last_max [OF v]
      by (auto simp: disjoint_iff) (meson le_less_trans not_le)+
    then have n: "card (?R - ?A) = len" by (simp add: Diff_triv)
    have "off \<in> ?R - ?A" using new disj by (auto simp: disjoint_iff)
    then obtain ss where "FreeMemSlices off (off + len) (sb\<lparr>bytes_acked := QuicIntervalSet_Add (off, off + len) (bytes_acked sb),
        stream_bytes_outstanding := stream_bytes_outstanding sb - len,
        pending_retransmissions :=
          QuicIntervalSet_Difference (QuicIntervalSet_Add (off, off + len) []) (pending_retransmissions sb)\<rparr>) =
        (True, ss) \<and> acks off len data sb (CleanUpBufferedSlices ss)"
      using acks_update [OF ok r n [symmetric] refl, of off "off + len"] by blast
    then show ?thesis using new out n AddOptimizedForAppend_eq_Add [OF v, of "(off, off + len)"]
      by (simp add: SendBuffer_OnStreamDataAcked_def)
  next
    case old
    then have "?R \<subseteq> ?A" using Contains_iff [OF v, of off "off + len"] by simp
    then show ?thesis using old acks_nothing [OF ok] by (simp add: SendBuffer_OnStreamDataAcked_def Diff_eq_empty_iff [THEN iffD2])
  next
    case part
    let ?N = "QuicIntervalSet_Difference (bytes_acked sb) (QuicIntervalSet_Add (off, off + len) [])"
    have N: "separated_list ?N" "points ?N = ?R - ?A"
      using Difference_correct [of "QuicIntervalSet_Add (off, off + len) []" "bytes_acked sb"] v by simp_all
    then have n: "(\<Sum>i \<leftarrow> ?N. snd i - fst i) = card (?R - ?A)" using sum_interval_lengths by simp
    show ?thesis
    proof (cases "?N = []")
      case True
      then have "?R - ?A = {}" using N(2) by simp
      then have "?R \<subseteq> ?A" by blast
      then show ?thesis using part Contains_iff [OF v, of off "off + len"] by simp
    next
      case False
      then have "fst (hd ?N) \<in> ?R - ?A" using separated_ne [OF N(1)] N(2) by simp
      then obtain ss where "FreeMemSlices (fst (hd ?N)) (snd (last ?N)) (sb\<lparr>bytes_acked := QuicIntervalSet_Add (off, off + len) (bytes_acked sb),
          stream_bytes_outstanding := stream_bytes_outstanding sb - card (?R - ?A),
          pending_retransmissions :=
            QuicIntervalSet_Difference (QuicIntervalSet_Add (off, off + len) []) (pending_retransmissions sb)\<rparr>) =
          (True, ss) \<and> acks off len data sb (CleanUpBufferedSlices ss)"
        using acks_update [OF ok r refl refl, of "fst (hd ?N)" "snd (last ?N)"] by blast
      moreover have swap: "sb\<lparr>stream_bytes_outstanding := x, bytes_acked := y, pending_retransmissions := z\<rparr> =
          sb\<lparr>bytes_acked := y, stream_bytes_outstanding := x, pending_retransmissions := z\<rparr>" for x y z
        by simp
      ultimately show ?thesis using part out n False
        unfolding SendBuffer_OnStreamDataAcked_def Let_def swap by simp
    qed
  qed
qed

lemma fold_Add:
  "separated_list s \<Longrightarrow> separated_list (fold QuicIntervalSet_Add t s) \<and>
    points (fold QuicIntervalSet_Add t s) = points s \<union> points t"
  by (induction t arbitrary: s) (simp_all add: Add_separated Un_assoc)

lemma OnStreamDataLost_pending:
  assumes ok: "sb_ok data sb" and r: "off + len \<le> stream_bytes_written sb"
  shows "sb_ok data (SendBuffer_OnStreamDataLost off len sb) \<and>
    points (pending_retransmissions (SendBuffer_OnStreamDataLost off len sb)) =
      points (pending_retransmissions sb) \<union> ({off..<off + len} - points (bytes_acked sb))"
proof (cases "len = 0")
  case True
  then show ?thesis using ok by (simp add: SendBuffer_OnStreamDataLost_def)
next
  case False
  let ?L = "QuicIntervalSet_Difference (bytes_acked sb) (QuicIntervalSet_Add (off, off + len) [])"
  have L: "separated_list ?L" "points ?L = {off..<off + len} - points (bytes_acked sb)"
    using Difference_correct [of "QuicIntervalSet_Add (off, off + len) []" "bytes_acked sb"] ok
    by (simp_all add: sb_ok_def wf_simps)
  have p: "separated_list (pending_retransmissions sb)" using ok by (simp add: sb_ok_def wf_simps)
  have "?L = [] \<Longrightarrow> {off..<off + len} - points (bytes_acked sb) = {}" using L(2) by simp
  then show ?thesis
    using False ok r fold_Add [OF p, of ?L] L
    by (cases "?L = []") (auto simp: SendBuffer_OnStreamDataLost_def Let_def sb_ok_def wf_simps)
qed

lemma OnStreamDataRetransmitted_pending:
  assumes ok: "sb_ok data sb"
  shows "sb_ok data (SendBuffer_OnStreamDataRetransmitted off len sb) \<and>
    points (pending_retransmissions (SendBuffer_OnStreamDataRetransmitted off len sb)) =
      points (pending_retransmissions sb) - {off..<off + len}"
  using ok Difference_correct [of "pending_retransmissions sb" "QuicIntervalSet_Add (off, off + len) []"]
  by (auto simp: SendBuffer_OnStreamDataRetransmitted_def sb_ok_def wf_simps)

section \<open>Properties\<close>

text \<open>C26. An acknowledgement of bytes that were sent is always accepted, whatever
  was acknowledged before and in whatever order: it reports exactly the bytes that
  were not acknowledged yet, records the range as acknowledged, takes it out of the
  pending retransmissions and leaves a well-formed buffer.\<close>

theorem OnStreamDataAcked_correct:
  assumes "sb_ok data sb" "off + len \<le> stream_bytes_written sb"
  shows "\<exists>sb'. SendBuffer_OnStreamDataAcked off len sb =
      (True, card ({off..<off + len} - points (bytes_acked sb)), sb') \<and> acks off len data sb sb'"
  using assms by (rule OnStreamDataAcked_acks)

definition sent_five :: send_buffer where
  "sent_five = SendBuffer_OnStreamDataConsumed 5 (SaveStreamData [1, 2, 3, 4, 5] new_send_buffer)"

lemma sent_five_ok: "sb_ok [1, 2, 3, 4, 5] sent_five" and sent_five_written: "stream_bytes_written sent_five = 5"
  using sb_ok_OnStreamDataConsumed [OF sb_ok_SaveStreamData [OF sb_ok_new, of "[1, 2, 3, 4, 5]"], of 5]
  by (simp_all add: sent_five_def SendBuffer_OnStreamDataConsumed_def SaveStreamData_def SaveMemSlice_def
      WillInline_def kSendBufferMaxInlinedSize_def new_send_buffer_def)

theorem OnStreamDataAcked_correct_witness:
  "sb_ok [1, 2, 3, 4, 5] sent_five \<and>
   (\<exists>sb'. SendBuffer_OnStreamDataAcked 1 3 sent_five =
      (True, card ({1..<1 + 3} - points (bytes_acked sent_five)), sb') \<and> acks 1 3 [1, 2, 3, 4, 5] sent_five sb')"
  using OnStreamDataAcked_correct [of "[1, 2, 3, 4, 5]" sent_five 1 3] sent_five_ok
  by (simp add: sent_five_written)

text \<open>C25. A byte that the peer has not acknowledged can always be sent again: reading
  any range of saved, unacknowledged offsets from the buffer succeeds and returns the
  bytes the application wrote at those offsets, even when other ranges around it have
  been acknowledged and freed.\<close>

theorem WriteStreamData_correct:
  assumes "sb_ok data sb" "off + len \<le> length data" "{off..<off + len} \<inter> points (bytes_acked sb) = {}"
  shows "SendBuffer_WriteStreamData off len sb = (True, take len (drop off data))"
  using assms by (rule WriteStreamData_data)

definition acked_middle :: send_buffer where
  "acked_middle = snd (snd (SendBuffer_OnStreamDataAcked 1 3 sent_five))"

lemma acked_middle_acks: "acks 1 3 [1, 2, 3, 4, 5] sent_five acked_middle"
  using OnStreamDataAcked_acks [OF sent_five_ok, of 1 3] by (auto simp: acked_middle_def sent_five_written)

theorem WriteStreamData_correct_witness:
  "sb_ok [1, 2, 3, 4, 5] acked_middle \<and> SendBuffer_WriteStreamData 4 1 acked_middle = (True, [5])"
  using WriteStreamData_correct [of "[1, 2, 3, 4, 5]" acked_middle 4 1] acked_middle_acks
  by (simp add: acks_def sent_five_def SendBuffer_OnStreamDataConsumed_def SaveStreamData_def SaveMemSlice_def
      WillInline_def kSendBufferMaxInlinedSize_def new_send_buffer_def)

text \<open>C27. The pending retransmissions are exact: after a loss they are the ones
  there were and the lost bytes that are still unacknowledged; after a retransmission
  the retransmitted ones are gone.  Both keep the buffer well formed.\<close>

theorem pending_retransmissions_exact:
  assumes "sb_ok data sb" "off + len \<le> stream_bytes_written sb"
  shows "sb_ok data (SendBuffer_OnStreamDataLost off len sb) \<and>
    points (pending_retransmissions (SendBuffer_OnStreamDataLost off len sb)) =
      points (pending_retransmissions sb) \<union> ({off..<off + len} - points (bytes_acked sb)) \<and>
    sb_ok data (SendBuffer_OnStreamDataRetransmitted off len sb) \<and>
    points (pending_retransmissions (SendBuffer_OnStreamDataRetransmitted off len sb)) =
      points (pending_retransmissions sb) - {off..<off + len}"
  using OnStreamDataLost_pending [OF assms] OnStreamDataRetransmitted_pending [OF assms(1)] by simp

theorem pending_retransmissions_exact_witness:
  "sb_ok [1, 2, 3, 4, 5] acked_middle \<and>
   points (pending_retransmissions (SendBuffer_OnStreamDataLost 0 5 acked_middle)) = {0, 4}"
proof -
  have "stream_bytes_written acked_middle = 5" "points (bytes_acked acked_middle) = {1, 2, 3}"
    "points (pending_retransmissions acked_middle) = {}" "sb_ok [1, 2, 3, 4, 5] acked_middle"
    using acked_middle_acks
    by (auto simp: acks_def sent_five_def SendBuffer_OnStreamDataConsumed_def SaveStreamData_def SaveMemSlice_def
      WillInline_def kSendBufferMaxInlinedSize_def new_send_buffer_def)
  then show ?thesis using pending_retransmissions_exact [of "[1, 2, 3, 4, 5]" acked_middle 0 5] by auto
qed

end
