(* ===== verification/Flow_Controller.thy ===== *)
theory Flow_Controller
  imports Prelude
begin

text \<open>
  \<open>QuicFlowController\<close> (\<open>quic_flow_controller.cc\<close>), one instance per stream and one
  per session.  The clock, the smoothed round trip time and whether the
  connection is still connected, which the code asks its connection for, are
  arguments.  A frame that the code hands to the session is a result: the new
  receive offset of a window update, the offset of a blocked frame.  A time of
  zero stands for an uninitialised \<open>QuicTime\<close>, as in the code.

  The invariant \<open>fc_ok\<close> bounds both directions: what was sent stays within the
  peer's limit, and what we offer stays within the configured limit of what was
  consumed.
\<close>

record flow_controller =
  bytes_sent :: nat
  send_window_offset :: nat
  bytes_consumed :: nat
  highest_received_byte_offset :: nat
  receive_window_offset :: nat
  receive_window_size :: nat
  receive_window_size_limit :: nat
  auto_tune_receive_window :: bool
  last_blocked_send_window_offset :: nat
  prev_window_update_time :: QuicTime

definition new_flow_controller :: "nat \<Rightarrow> nat \<Rightarrow> nat \<Rightarrow> bool \<Rightarrow> flow_controller" where
  "new_flow_controller send_offset receive_offset limit auto_tune =
     \<lparr>bytes_sent = 0, send_window_offset = send_offset, bytes_consumed = 0,
      highest_received_byte_offset = 0, receive_window_offset = receive_offset,
      receive_window_size = receive_offset, receive_window_size_limit = limit,
      auto_tune_receive_window = auto_tune, last_blocked_send_window_offset = 0,
      prev_window_update_time = 0\<rparr>"

definition QuicFlowController_UpdateHighestReceivedOffset ::
    "nat \<Rightarrow> flow_controller \<Rightarrow> bool \<times> flow_controller" where
  "QuicFlowController_UpdateHighestReceivedOffset new_offset fc =
     (if new_offset \<le> highest_received_byte_offset fc then (False, fc)
      else (True, fc\<lparr>highest_received_byte_offset := new_offset\<rparr>))"

text \<open>The first component is \<^const>\<open>False\<close> when the code reports a bug and closes the
  connection.\<close>

definition QuicFlowController_AddBytesSent :: "nat \<Rightarrow> flow_controller \<Rightarrow> bool \<times> flow_controller" where
  "QuicFlowController_AddBytesSent n fc =
     (if bytes_sent fc + n > send_window_offset fc
      then (False, fc\<lparr>bytes_sent := send_window_offset fc\<rparr>)
      else (True, fc\<lparr>bytes_sent := bytes_sent fc + n\<rparr>))"

definition QuicFlowController_FlowControlViolation :: "flow_controller \<Rightarrow> bool" where
  "QuicFlowController_FlowControlViolation fc \<longleftrightarrow>
     highest_received_byte_offset fc > receive_window_offset fc"

definition QuicFlowController_IncreaseWindowSize :: "flow_controller \<Rightarrow> flow_controller" where
  "QuicFlowController_IncreaseWindowSize fc =
     fc\<lparr>receive_window_size := min (receive_window_size fc * 2) (receive_window_size_limit fc)\<rparr>"

definition QuicFlowController_MaybeIncreaseMaxWindowSize ::
    "QuicTime \<Rightarrow> QuicTimeDelta \<Rightarrow> flow_controller \<Rightarrow> flow_controller" where
  "QuicFlowController_MaybeIncreaseMaxWindowSize now rtt fc =
     (let prev = prev_window_update_time fc;
          fc = fc\<lparr>prev_window_update_time := now\<rparr>
      in if prev = 0 then fc
         else if \<not> auto_tune_receive_window fc then fc
         else if rtt = 0 then fc
         else if now - prev \<ge> 2 * rtt then fc
         else QuicFlowController_IncreaseWindowSize fc)"

definition QuicFlowController_WindowUpdateThreshold :: "flow_controller \<Rightarrow> nat" where
  "QuicFlowController_WindowUpdateThreshold fc = receive_window_size fc div 2"

definition QuicFlowController_UpdateReceiveWindowOffset :: "nat \<Rightarrow> flow_controller \<Rightarrow> flow_controller" where
  "QuicFlowController_UpdateReceiveWindowOffset available_window fc =
     fc\<lparr>receive_window_offset := receive_window_offset fc + (receive_window_size fc - available_window)\<rparr>"

text \<open>The result is the controller and the offset of the window update frame, if one
  is sent.\<close>

definition QuicFlowController_MaybeSendWindowUpdate ::
    "bool \<Rightarrow> QuicTime \<Rightarrow> QuicTimeDelta \<Rightarrow> flow_controller \<Rightarrow> flow_controller \<times> nat option" where
  "QuicFlowController_MaybeSendWindowUpdate connected now rtt fc =
     (if \<not> connected then (fc, None)
      else let available_window = receive_window_offset fc - bytes_consumed fc;
               threshold = QuicFlowController_WindowUpdateThreshold fc;
               fc = (if prev_window_update_time fc = 0 then fc\<lparr>prev_window_update_time := now\<rparr> else fc)
           in if available_window \<ge> threshold then (fc, None)
              else let fc = QuicFlowController_UpdateReceiveWindowOffset available_window
                              (QuicFlowController_MaybeIncreaseMaxWindowSize now rtt fc)
                   in (fc, Some (receive_window_offset fc)))"

definition QuicFlowController_AddBytesConsumed ::
    "bool \<Rightarrow> QuicTime \<Rightarrow> QuicTimeDelta \<Rightarrow> nat \<Rightarrow> flow_controller \<Rightarrow> flow_controller \<times> nat option" where
  "QuicFlowController_AddBytesConsumed connected now rtt n fc =
     QuicFlowController_MaybeSendWindowUpdate connected now rtt (fc\<lparr>bytes_consumed := bytes_consumed fc + n\<rparr>)"

definition QuicFlowController_SendWindowSize :: "flow_controller \<Rightarrow> nat" where
  "QuicFlowController_SendWindowSize fc =
     (if bytes_sent fc > send_window_offset fc then 0 else send_window_offset fc - bytes_sent fc)"

definition QuicFlowController_IsBlocked :: "flow_controller \<Rightarrow> bool" where
  "QuicFlowController_IsBlocked fc \<longleftrightarrow> QuicFlowController_SendWindowSize fc = 0"

definition QuicFlowController_MaybeSendBlocked :: "flow_controller \<Rightarrow> flow_controller \<times> nat option" where
  "QuicFlowController_MaybeSendBlocked fc =
     (if QuicFlowController_SendWindowSize fc \<noteq> 0 \<or>
         last_blocked_send_window_offset fc \<ge> send_window_offset fc
      then (fc, None)
      else (fc\<lparr>last_blocked_send_window_offset := send_window_offset fc\<rparr>, Some (send_window_offset fc)))"

definition QuicFlowController_UpdateSendWindowOffset :: "nat \<Rightarrow> flow_controller \<Rightarrow> bool \<times> flow_controller" where
  "QuicFlowController_UpdateSendWindowOffset new_send_window_offset fc =
     (if new_send_window_offset \<le> send_window_offset fc then (False, fc)
      else (QuicFlowController_IsBlocked fc, fc\<lparr>send_window_offset := new_send_window_offset\<rparr>))"

definition QuicFlowController_EnsureWindowAtLeast :: "nat \<Rightarrow> flow_controller \<Rightarrow> flow_controller \<times> nat option" where
  "QuicFlowController_EnsureWindowAtLeast window_size fc =
     (if receive_window_size_limit fc \<ge> window_size then (fc, None)
      else let available_window = receive_window_offset fc - bytes_consumed fc;
               fc = QuicFlowController_UpdateReceiveWindowOffset available_window
                      (QuicFlowController_IncreaseWindowSize fc)
           in (fc, Some (receive_window_offset fc)))"

definition QuicFlowController_UpdateReceiveWindowSize :: "nat \<Rightarrow> flow_controller \<Rightarrow> flow_controller" where
  "QuicFlowController_UpdateReceiveWindowSize new_size fc =
     (if receive_window_size fc \<noteq> receive_window_offset fc then fc
      else fc\<lparr>receive_window_size := new_size, receive_window_offset := new_size\<rparr>)"

lemmas fc_defs = QuicFlowController_UpdateHighestReceivedOffset_def QuicFlowController_AddBytesSent_def
  QuicFlowController_FlowControlViolation_def QuicFlowController_IncreaseWindowSize_def
  QuicFlowController_MaybeIncreaseMaxWindowSize_def QuicFlowController_WindowUpdateThreshold_def
  QuicFlowController_UpdateReceiveWindowOffset_def QuicFlowController_MaybeSendWindowUpdate_def
  QuicFlowController_AddBytesConsumed_def QuicFlowController_SendWindowSize_def
  QuicFlowController_IsBlocked_def QuicFlowController_MaybeSendBlocked_def
  QuicFlowController_UpdateSendWindowOffset_def QuicFlowController_EnsureWindowAtLeast_def
  QuicFlowController_UpdateReceiveWindowSize_def

section \<open>Invariant\<close>

definition fc_ok :: "flow_controller \<Rightarrow> bool" where
  "fc_ok fc \<longleftrightarrow>
     bytes_sent fc \<le> send_window_offset fc \<and>
     receive_window_size fc \<le> receive_window_size_limit fc \<and>
     bytes_consumed fc \<le> receive_window_offset fc \<and>
     receive_window_offset fc \<le> bytes_consumed fc + receive_window_size fc"

lemma fc_ok_new [wf_intros]: "receive \<le> limit \<Longrightarrow> fc_ok (new_flow_controller send receive limit tune)"
  by (simp add: fc_ok_def new_flow_controller_def)

lemma fc_ok_UpdateHighest [wf_intros]:
  "fc_ok fc \<Longrightarrow> fc_ok (snd (QuicFlowController_UpdateHighestReceivedOffset x fc))"
  by (simp add: fc_ok_def fc_defs)

lemma fc_ok_AddBytesSent [wf_intros]: "fc_ok fc \<Longrightarrow> fc_ok (snd (QuicFlowController_AddBytesSent n fc))"
  by (simp add: fc_ok_def fc_defs)

lemma fc_ok_UpdateSendWindowOffset [wf_intros]:
  "fc_ok fc \<Longrightarrow> fc_ok (snd (QuicFlowController_UpdateSendWindowOffset n fc))"
  by (simp add: fc_ok_def fc_defs)

lemma fc_ok_MaybeSendBlocked [wf_intros]: "fc_ok fc \<Longrightarrow> fc_ok (fst (QuicFlowController_MaybeSendBlocked fc))"
  by (simp add: fc_ok_def fc_defs)

lemma MaybeIncreaseMaxWindowSize_fields:
  "bytes_sent (QuicFlowController_MaybeIncreaseMaxWindowSize now rtt fc) = bytes_sent fc"
  "send_window_offset (QuicFlowController_MaybeIncreaseMaxWindowSize now rtt fc) = send_window_offset fc"
  "bytes_consumed (QuicFlowController_MaybeIncreaseMaxWindowSize now rtt fc) = bytes_consumed fc"
  "highest_received_byte_offset (QuicFlowController_MaybeIncreaseMaxWindowSize now rtt fc) = highest_received_byte_offset fc"
  "receive_window_offset (QuicFlowController_MaybeIncreaseMaxWindowSize now rtt fc) = receive_window_offset fc"
  "receive_window_size_limit (QuicFlowController_MaybeIncreaseMaxWindowSize now rtt fc) = receive_window_size_limit fc"
  by (simp_all add: QuicFlowController_MaybeIncreaseMaxWindowSize_def QuicFlowController_IncreaseWindowSize_def Let_def)

lemma MaybeIncreaseMaxWindowSize_bounds:
  assumes "receive_window_size fc \<le> receive_window_size_limit fc"
  shows "receive_window_size fc \<le> receive_window_size (QuicFlowController_MaybeIncreaseMaxWindowSize now rtt fc)"
    "receive_window_size (QuicFlowController_MaybeIncreaseMaxWindowSize now rtt fc) \<le> receive_window_size_limit fc"
  using assms
  by (simp_all add: QuicFlowController_MaybeIncreaseMaxWindowSize_def QuicFlowController_IncreaseWindowSize_def Let_def)

text \<open>The core of the receive side: after bytes are consumed on a live connection
  the peer is left with at least half a window to send into, and never with more
  than the limit beyond what was consumed.\<close>

lemma MaybeSendWindowUpdate_window:
  assumes "receive_window_size fc \<le> receive_window_size_limit fc"
    "bytes_consumed fc \<le> receive_window_offset fc"
    "receive_window_offset fc \<le> bytes_consumed fc + receive_window_size fc"
    "QuicFlowController_MaybeSendWindowUpdate True now rtt fc = (fc', upd)"
  shows "bytes_consumed fc' = bytes_consumed fc" "bytes_sent fc' = bytes_sent fc"
    "send_window_offset fc' = send_window_offset fc"
    "highest_received_byte_offset fc' = highest_received_byte_offset fc"
    "receive_window_offset fc \<le> receive_window_offset fc'"
    "bytes_consumed fc + receive_window_size fc div 2 \<le> receive_window_offset fc'"
    "receive_window_offset fc' \<le> bytes_consumed fc + receive_window_size fc'"
    "receive_window_size fc' \<le> receive_window_size_limit fc'"
    "receive_window_size_limit fc' = receive_window_size_limit fc"
    "upd = (if receive_window_offset fc' = receive_window_offset fc then None else Some (receive_window_offset fc'))"
proof -
  define g where "g = (if prev_window_update_time fc = 0 then fc\<lparr>prev_window_update_time := now\<rparr> else fc)"
  have g: "bytes_consumed g = bytes_consumed fc" "bytes_sent g = bytes_sent fc"
    "send_window_offset g = send_window_offset fc"
    "highest_received_byte_offset g = highest_received_byte_offset fc"
    "receive_window_offset g = receive_window_offset fc" "receive_window_size g = receive_window_size fc"
    "receive_window_size_limit g = receive_window_size_limit fc"
    by (simp_all add: g_def)
  define h where "h = QuicFlowController_MaybeIncreaseMaxWindowSize now rtt g"
  have h: "receive_window_size fc \<le> receive_window_size h" "receive_window_size h \<le> receive_window_size_limit fc"
    using MaybeIncreaseMaxWindowSize_bounds [of g now rtt] g assms(1) by (simp_all add: h_def)
  note hf = MaybeIncreaseMaxWindowSize_fields [of now rtt g, folded h_def, unfolded g]
  let ?a = "receive_window_offset fc - bytes_consumed fc"
  have eq: "(fc', upd) = (if ?a \<ge> receive_window_size fc div 2 then (g, None)
      else (QuicFlowController_UpdateReceiveWindowOffset ?a h,
            Some (receive_window_offset (QuicFlowController_UpdateReceiveWindowOffset ?a h))))"
    using assms(4) unfolding QuicFlowController_MaybeSendWindowUpdate_def Let_def
      QuicFlowController_WindowUpdateThreshold_def g_def [symmetric] h_def [symmetric] by simp
  note simps = QuicFlowController_UpdateReceiveWindowOffset_def
  show "bytes_consumed fc' = bytes_consumed fc" "bytes_sent fc' = bytes_sent fc"
    "send_window_offset fc' = send_window_offset fc"
    "highest_received_byte_offset fc' = highest_received_byte_offset fc"
    "receive_window_offset fc \<le> receive_window_offset fc'"
    "receive_window_size fc' \<le> receive_window_size_limit fc'"
    "receive_window_size_limit fc' = receive_window_size_limit fc"
    using eq h hf g assms(1) by (auto simp: simps split: if_splits)
  show "bytes_consumed fc + receive_window_size fc div 2 \<le> receive_window_offset fc'"
    "receive_window_offset fc' \<le> bytes_consumed fc + receive_window_size fc'"
    "upd = (if receive_window_offset fc' = receive_window_offset fc then None else Some (receive_window_offset fc'))"
    using eq h hf g assms(2,3) by (auto simp: simps split: if_splits)
qed

lemma fc_ok_AddBytesConsumed [wf_intros]:
  assumes "fc_ok fc" "bytes_consumed fc + n \<le> receive_window_offset fc"
  shows "fc_ok (fst (QuicFlowController_AddBytesConsumed connected now rtt n fc))"
proof (cases connected)
  case True
  let ?fc = "fc\<lparr>bytes_consumed := bytes_consumed fc + n\<rparr>"
  obtain fc' upd where eq: "QuicFlowController_MaybeSendWindowUpdate True now rtt ?fc = (fc', upd)" by fastforce
  have "receive_window_size ?fc \<le> receive_window_size_limit ?fc" "bytes_consumed ?fc \<le> receive_window_offset ?fc"
    "receive_window_offset ?fc \<le> bytes_consumed ?fc + receive_window_size ?fc"
    using assms by (simp_all add: fc_ok_def)
  note w = MaybeSendWindowUpdate_window [OF this eq]
  then show ?thesis using assms True eq
    by (auto simp: fc_ok_def QuicFlowController_AddBytesConsumed_def)
next
  case False
  then show ?thesis using assms
    by (simp add: fc_ok_def QuicFlowController_AddBytesConsumed_def QuicFlowController_MaybeSendWindowUpdate_def)
qed

section \<open>Properties\<close>





end
