(* ===== verification/Quic_Stream.thy ===== *)
theory Quic_Stream
  imports Sequencer_Buffer Send_Buffer Flow_Controller
begin

text \<open>
  \<open>QuicStream\<close> (\<open>quic_stream.cc\<close>) with its \<open>QuicStreamSequencer\<close>
  (\<open>quic_stream_sequencer.cc\<close>) and \<open>QuictunStream\<close> (\<open>quictun_session.cc\<close>), as quictun
  uses them: IETF QUIC, a bidirectional stream that is not static, without a
  deadline and without reliable resets, with flow control at the level of the
  stream and of the session.

  One record holds the stream, its sequencer and what the stream sees of its
  session and connection.  The record is extended by the users of a stream, and
  the operations are polymorphic in the extension, so that the calls a stream
  makes upwards are functions on the whole state:
  \<^item> \<open>avail\<close> is \<open>OnDataAvailable\<close>, \<open>can_write\<close> is \<open>OnCanWriteNewData\<close>;
  \<^item> \<open>gone\<close> is \<open>delegate_->OnStreamGone\<close>, the end of \<open>QuictunStream::OnClose\<close>;
  \<^item> \<open>lost code\<close> is what closing the connection with that error does; \<open>connection_lost\<close>
    is the one for a connection with this stream only.
  \<^item> \<open>emit\<close> hands a control frame to the session: \<open>queue_frame\<close> under a
    \<open>ScopedPacketFlusher\<close> and on a closed connection, \<open>write_frame\<close> otherwise.

  The packet layer below the session is the list \<open>cn_outcomes\<close>: what each next write
  does, whether the stream has to yield, how many bytes are consumed, whether the
  fin is, and whether the write fails, which closes the connection at once and
  before the write returns.  The theorems hold for every such list.
\<close>

datatype QuicRstStreamErrorCode =
    QUIC_STREAM_NO_ERROR
  | QUIC_STREAM_CANCELLED
  | QUIC_STREAM_CONNECTION_ERROR
  | QUIC_RST_ACKNOWLEDGEMENT
  | QUIC_ERROR_PROCESSING_STREAM
  | Other_QuicRstStreamErrorCode nat

datatype control_frame =
    WindowUpdateStream nat
  | WindowUpdateConnection nat
  | BlockedStream nat
  | BlockedConnection nat
  | RstStream QuicRstStreamErrorCode nat
  | StopSending QuicRstStreamErrorCode

datatype write_outcome = Yield | Wrote nat bool bool

record quic_stream =
  cn_connected :: bool
  cn_now :: QuicTime
  cn_rtt :: QuicTimeDelta
  cn_flow :: flow_controller
  cn_frames :: "control_frame list"
  cn_data :: "(nat \<times> bytes \<times> bool) list"
  cn_outcomes :: "write_outcome list"
  cn_error :: "QuicErrorCode option"
  cn_write_blocked :: bool
  cn_streams_closed :: nat
  cn_draining :: nat
  sq_buffer :: seq_buffer
  sq_highest_offset :: nat
  sq_close_offset :: nat
  sq_blocked :: bool
  sq_frames_received :: nat
  sq_duplicate_frames :: nat
  sq_ignore_read_data :: bool
  sq_level_triggered :: bool
  st_bytes_read :: nat
  st_error :: QuicRstStreamErrorCode
  st_connection_error :: QuicErrorCode
  st_flow :: flow_controller
  st_send :: send_buffer
  st_read_side_closed :: bool
  st_write_side_closed :: bool
  st_fin_buffered :: bool
  st_fin_sent :: bool
  st_fin_outstanding :: bool
  st_fin_lost :: bool
  st_fin_received :: bool
  st_rst_sent :: bool
  st_rst_received :: bool
  st_stop_sending_sent :: bool
  st_was_draining :: bool
  st_data_recvd_notified :: bool
  st_diverged :: bool

type_synonym 'a handler = "'a quic_stream_scheme \<Rightarrow> 'a quic_stream_scheme"

definition kMaxStreamLength :: nat where
  "kMaxStreamLength = 2 ^ 62 - 1"

definition kMaxOffset :: nat where
  "kMaxOffset = 2 ^ 64 - 1"

definition quic_buffered_data_threshold :: nat where
  "quic_buffered_data_threshold = 8 * 1024"

section \<open>The session and the connection below a stream\<close>

definition next_outcome :: "'a quic_stream_scheme \<Rightarrow> write_outcome \<times> 'a quic_stream_scheme" where
  "next_outcome w =
     (case cn_outcomes w of
        [] \<Rightarrow> (Wrote 0 False False, w)
      | r # rs \<Rightarrow> (r, w\<lparr>cn_outcomes := rs\<rparr>))"

definition queue_frame :: "control_frame \<Rightarrow> 'a handler" where
  "queue_frame f w = (if cn_connected w then w\<lparr>cn_frames := cn_frames w @ [f]\<rparr> else w)"

definition write_error :: "write_outcome \<Rightarrow> bool" where
  "write_error r = (case r of Yield \<Rightarrow> False | Wrote _ _ err \<Rightarrow> err)"

definition write_frame :: "(QuicErrorCode \<Rightarrow> 'a handler) \<Rightarrow> control_frame \<Rightarrow> 'a handler" where
  "write_frame lost f w =
     (if \<not> cn_connected w then w
      else case next_outcome (queue_frame f w) of (r, w) \<Rightarrow>
        if write_error r then lost QUIC_PACKET_WRITE_ERROR w else w)"

definition emit_opt :: "(control_frame \<Rightarrow> 'a handler) \<Rightarrow> (nat \<Rightarrow> control_frame) \<Rightarrow> nat option \<Rightarrow> 'a handler" where
  "emit_opt emit mk upd w = (case upd of None \<Rightarrow> w | Some x \<Rightarrow> emit (mk x) w)"

text \<open>\<open>QuicSession::WritevData\<close>: the results are the bytes consumed and whether the
  fin is.  What goes into the packets is read back from the send buffer.\<close>

definition record_data :: "nat \<Rightarrow> nat \<Rightarrow> bool \<Rightarrow> 'a handler" where
  "record_data off n f w =
     (if n = 0 \<and> \<not> f then w
      else w\<lparr>cn_data := cn_data w @ [(off, snd (SendBuffer_WriteStreamData off n (st_send w)), f)]\<rparr>)"

definition QuicSession_WritevData ::
    "(QuicErrorCode \<Rightarrow> 'a handler) \<Rightarrow> nat \<Rightarrow> nat \<Rightarrow> bool \<Rightarrow> 'a quic_stream_scheme \<Rightarrow>
     nat \<times> bool \<times> 'a quic_stream_scheme" where
  "QuicSession_WritevData lost off len fin w =
     (if \<not> cn_connected w then (0, False, w)
      else case next_outcome w of (r, w) \<Rightarrow>
        (case r of
           Yield \<Rightarrow> (0, False, w)
         | Wrote k f err \<Rightarrow>
             let n = min k len;
                 f = (fin \<and> f \<and> n = len);
                 w = record_data off n f w
             in (n, f, if err then lost QUIC_PACKET_WRITE_ERROR w else w)))"

section \<open>Flow control of a stream\<close>

definition session_EnsureWindowAtLeast :: "(control_frame \<Rightarrow> 'a handler) \<Rightarrow> nat \<Rightarrow> 'a handler" where
  "session_EnsureWindowAtLeast emit n w =
     (case QuicFlowController_EnsureWindowAtLeast n (cn_flow w) of (fc, upd) \<Rightarrow>
        emit_opt emit WindowUpdateConnection upd (w\<lparr>cn_flow := fc\<rparr>))"

definition grow_session_window :: "(control_frame \<Rightarrow> 'a handler) \<Rightarrow> nat \<Rightarrow> 'a handler" where
  "grow_session_window emit old_window w =
     (if receive_window_size (st_flow w) > old_window
      then session_EnsureWindowAtLeast emit ((3 * receive_window_size (st_flow w)) div 2) w
      else w)"

definition stream_MaybeSendWindowUpdate :: "(control_frame \<Rightarrow> 'a handler) \<Rightarrow> 'a handler" where
  "stream_MaybeSendWindowUpdate emit w =
     (if \<not> cn_connected w then w
      else let fc = st_flow w;
               available_window = receive_window_offset fc - bytes_consumed fc;
               threshold = QuicFlowController_WindowUpdateThreshold fc;
               fc = (if prev_window_update_time fc = 0 then fc\<lparr>prev_window_update_time := cn_now w\<rparr> else fc)
           in if available_window \<ge> threshold then w\<lparr>st_flow := fc\<rparr>
              else let w = w\<lparr>st_flow := QuicFlowController_MaybeIncreaseMaxWindowSize (cn_now w) (cn_rtt w) fc\<rparr>;
                       w = grow_session_window emit (receive_window_size fc) w;
                       w = w\<lparr>st_flow := QuicFlowController_UpdateReceiveWindowOffset available_window (st_flow w)\<rparr>
                   in emit (WindowUpdateStream (receive_window_offset (st_flow w))) w)"

definition session_AddBytesConsumed :: "(control_frame \<Rightarrow> 'a handler) \<Rightarrow> nat \<Rightarrow> 'a handler" where
  "session_AddBytesConsumed emit n w =
     (case QuicFlowController_AddBytesConsumed (cn_connected w) (cn_now w) (cn_rtt w) n (cn_flow w) of (fc, upd) \<Rightarrow>
        emit_opt emit WindowUpdateConnection upd (w\<lparr>cn_flow := fc\<rparr>))"

definition stream_consume :: "nat \<Rightarrow> 'a handler" where
  "stream_consume n w = w\<lparr>st_flow := (st_flow w)\<lparr>bytes_consumed := bytes_consumed (st_flow w) + n\<rparr>\<rparr>"

definition QuicStream_AddBytesConsumed :: "(control_frame \<Rightarrow> 'a handler) \<Rightarrow> nat \<Rightarrow> 'a handler" where
  "QuicStream_AddBytesConsumed emit n w =
     session_AddBytesConsumed emit n
       (if \<not> st_read_side_closed w then stream_MaybeSendWindowUpdate emit (stream_consume n w) else w)"

definition QuicStream_MaybeIncreaseHighestReceivedOffset ::
    "nat \<Rightarrow> 'a quic_stream_scheme \<Rightarrow> bool \<times> 'a quic_stream_scheme" where
  "QuicStream_MaybeIncreaseHighestReceivedOffset new_offset w =
     (let increment = new_offset - highest_received_byte_offset (st_flow w)
      in case QuicFlowController_UpdateHighestReceivedOffset new_offset (st_flow w) of (inc, fc) \<Rightarrow>
        if \<not> inc then (False, w\<lparr>st_flow := fc\<rparr>)
        else (True, w\<lparr>st_flow := fc,
          cn_flow := snd (QuicFlowController_UpdateHighestReceivedOffset
            (highest_received_byte_offset (cn_flow w) + increment) (cn_flow w))\<rparr>))"

definition any_violation :: "'a quic_stream_scheme \<Rightarrow> bool" where
  "any_violation w \<longleftrightarrow>
     QuicFlowController_FlowControlViolation (st_flow w) \<or> QuicFlowController_FlowControlViolation (cn_flow w)"

section \<open>Closing a stream\<close>

definition QuicStream_IsWaitingForAcks :: "'a quic_stream_scheme \<Rightarrow> bool" where
  "QuicStream_IsWaitingForAcks w \<longleftrightarrow>
     (\<not> st_rst_sent w \<or> st_error w = QUIC_STREAM_NO_ERROR) \<and>
     (stream_bytes_outstanding (st_send w) > 0 \<or> st_fin_outstanding w)"

text \<open>\<open>QuicStream::OnClose\<close> and then \<open>QuictunStream::OnClose\<close>.  The write side is closed
  here, so the \<open>CloseWriteSide\<close> at the end of \<open>MaybeSendRstStream\<close> does nothing.\<close>

definition QuictunStream_OnClose :: "(control_frame \<Rightarrow> 'a handler) \<Rightarrow> 'a handler \<Rightarrow> 'a handler" where
  "QuictunStream_OnClose emit gone w =
     (let w = (if \<not> st_fin_sent w \<and> \<not> st_rst_sent w
               then (emit (RstStream QUIC_RST_ACKNOWLEDGEMENT (stream_bytes_written (st_send w))) w)\<lparr>st_rst_sent := True\<rparr>
               else w);
          w = (if any_violation w then w
               else QuicStream_AddBytesConsumed emit
                 (highest_received_byte_offset (st_flow w) - bytes_consumed (st_flow w)) w)
      in gone w)"

definition QuicSession_OnStreamClosed :: "'a handler" where
  "QuicSession_OnStreamClosed w = w\<lparr>cn_streams_closed := cn_streams_closed w + 1\<rparr>"

definition QuicStream_CloseReadSide :: "(control_frame \<Rightarrow> 'a handler) \<Rightarrow> 'a handler \<Rightarrow> 'a handler" where
  "QuicStream_CloseReadSide emit gone w =
     (if st_read_side_closed w then w
      else let w = w\<lparr>st_read_side_closed := True,
                     sq_buffer := QuicStreamSequencerBuffer_ReleaseWholeBuffer (sq_buffer w)\<rparr>
           in if st_write_side_closed w
              then QuictunStream_OnClose emit gone (QuicSession_OnStreamClosed w) else w)"

definition QuicStream_CloseWriteSide :: "(control_frame \<Rightarrow> 'a handler) \<Rightarrow> 'a handler \<Rightarrow> 'a handler" where
  "QuicStream_CloseWriteSide emit gone w =
     (if st_write_side_closed w then w
      else let w = w\<lparr>st_write_side_closed := True\<rparr>
           in if st_read_side_closed w
              then QuictunStream_OnClose emit gone (QuicSession_OnStreamClosed w) else w)"

definition QuicStream_OnConnectionClosed :: "'a handler \<Rightarrow> QuicErrorCode \<Rightarrow> 'a handler" where
  "QuicStream_OnConnectionClosed gone code w =
     (if st_read_side_closed w \<and> st_write_side_closed w then w
      else let w = (if code \<noteq> QUIC_NO_ERROR
                    then w\<lparr>st_error := QUIC_STREAM_CONNECTION_ERROR, st_connection_error := code\<rparr> else w)
           in QuicStream_CloseReadSide queue_frame gone (QuicStream_CloseWriteSide queue_frame gone w))"

text \<open>\<open>QuicConnection::CloseConnection\<close> of a connection with this one stream.\<close>

definition connection_lost :: "'a handler \<Rightarrow> QuicErrorCode \<Rightarrow> 'a handler" where
  "connection_lost gone code w =
     (if \<not> cn_connected w then w
      else QuicStream_OnConnectionClosed gone code (w\<lparr>cn_connected := False, cn_error := Some code\<rparr>))"

definition QuicStream_MaybeSendStopSending ::
    "(control_frame \<Rightarrow> 'a handler) \<Rightarrow> 'a handler \<Rightarrow> QuicRstStreamErrorCode \<Rightarrow> 'a handler" where
  "QuicStream_MaybeSendStopSending emit gone err w =
     (if st_stop_sending_sent w then w
      else QuicStream_CloseReadSide emit gone ((emit (StopSending err) w)\<lparr>st_stop_sending_sent := True\<rparr>))"

definition QuicStream_MaybeSendRstStream ::
    "(control_frame \<Rightarrow> 'a handler) \<Rightarrow> 'a handler \<Rightarrow> QuicRstStreamErrorCode \<Rightarrow> 'a handler" where
  "QuicStream_MaybeSendRstStream emit gone err w =
     (if st_rst_sent w then w
      else QuicStream_CloseWriteSide emit gone
        ((emit (RstStream err (stream_bytes_written (st_send w))) w)\<lparr>st_rst_sent := True\<rparr>))"

text \<open>The flusher at the start of \<open>ResetWithError\<close> writes what was queued when the
  function returns.\<close>

definition flush_frames :: "(QuicErrorCode \<Rightarrow> 'a handler) \<Rightarrow> 'a handler" where
  "flush_frames lost w =
     (if \<not> cn_connected w then w
      else case next_outcome w of (r, w) \<Rightarrow> if write_error r then lost QUIC_PACKET_WRITE_ERROR w else w)"

definition QuicStream_Reset :: "(QuicErrorCode \<Rightarrow> 'a handler) \<Rightarrow> 'a handler \<Rightarrow> QuicRstStreamErrorCode \<Rightarrow> 'a handler" where
  "QuicStream_Reset lost gone err w =
     flush_frames lost
       (QuicStream_MaybeSendRstStream queue_frame gone err
         (QuicStream_MaybeSendStopSending queue_frame gone err (w\<lparr>st_error := err\<rparr>)))"

section \<open>The sequencer\<close>

definition QuicStreamSequencer_IsClosed :: "'a quic_stream_scheme \<Rightarrow> bool" where
  "QuicStreamSequencer_IsClosed w \<longleftrightarrow> total_bytes_read (sq_buffer w) \<ge> sq_close_offset w"

definition QuicStream_OnFinRead :: "(control_frame \<Rightarrow> 'a handler) \<Rightarrow> 'a handler \<Rightarrow> 'a handler" where
  "QuicStream_OnFinRead emit gone w = QuicStream_CloseReadSide emit gone (w\<lparr>st_fin_received := True\<rparr>)"

definition QuicStreamSequencer_MaybeCloseStream :: "'a handler \<Rightarrow> 'a handler \<Rightarrow> 'a handler" where
  "QuicStreamSequencer_MaybeCloseStream fin_read avail w =
     (if sq_blocked w \<or> \<not> QuicStreamSequencer_IsClosed w then w
      else let w = (if sq_ignore_read_data w then fin_read w else avail w)
           in w\<lparr>sq_buffer := QuicStreamSequencerBuffer_Clear (sq_buffer w)\<rparr>)"

text \<open>\<open>FlushBufferedFrames\<close> runs only while the sequencer discards data, so
  \<open>MaybeCloseStream\<close> does not notify the application there.\<close>

definition QuicStreamSequencer_FlushBufferedFrames :: "(control_frame \<Rightarrow> 'a handler) \<Rightarrow> 'a handler \<Rightarrow> 'a handler" where
  "QuicStreamSequencer_FlushBufferedFrames emit gone w =
     (case QuicStreamSequencerBuffer_FlushBufferedFrames (sq_buffer w) of (n, b) \<Rightarrow>
        QuicStreamSequencer_MaybeCloseStream (QuicStream_OnFinRead emit gone) (\<lambda>w. w)
          (QuicStream_AddBytesConsumed emit n (w\<lparr>sq_buffer := b\<rparr>)))"

definition QuicStreamSequencer_StopReading :: "(control_frame \<Rightarrow> 'a handler) \<Rightarrow> 'a handler \<Rightarrow> 'a handler" where
  "QuicStreamSequencer_StopReading emit gone w =
     (if sq_ignore_read_data w then w
      else QuicStreamSequencer_FlushBufferedFrames emit gone (w\<lparr>sq_ignore_read_data := True\<rparr>))"

definition reading_stopped :: "'a quic_stream_scheme \<Rightarrow> bool" where
  "reading_stopped w \<longleftrightarrow> sq_ignore_read_data w \<or> st_read_side_closed w"

text \<open>\<open>diverge\<close> marks a call into the buffer that does not return.\<close>

definition diverge :: "'a handler" where
  "diverge w = w\<lparr>st_diverged := True\<rparr>"

definition QuicStreamSequencer_Readv ::
    "(QuicErrorCode \<Rightarrow> 'a handler) \<Rightarrow> nat \<Rightarrow> 'a quic_stream_scheme \<Rightarrow> bytes \<times> 'a quic_stream_scheme" where
  "QuicStreamSequencer_Readv lost n w =
     (case QuicStreamSequencerBuffer_Readv n [] (sq_buffer w) of
        None \<Rightarrow> ([], diverge w)
      | Some (err, data, b) \<Rightarrow>
          let w = w\<lparr>sq_buffer := b\<rparr>
          in (data, if err \<noteq> QUIC_NO_ERROR then lost err w
                    else QuicStream_AddBytesConsumed (write_frame lost) (length data) w))"

definition readable_changed :: "'a quic_stream_scheme \<Rightarrow> nat \<Rightarrow> bool" where
  "readable_changed w previous_readable_bytes \<longleftrightarrow>
     (if sq_level_triggered w then ReadableBytes (sq_buffer w) > previous_readable_bytes
      else previous_readable_bytes = 0 \<and> ReadableBytes (sq_buffer w) > 0)"

definition QuicStreamSequencer_OnFrameData ::
    "(QuicErrorCode \<Rightarrow> 'a handler) \<Rightarrow> 'a handler \<Rightarrow> 'a handler \<Rightarrow> nat \<Rightarrow> bytes \<Rightarrow> 'a handler" where
  "QuicStreamSequencer_OnFrameData lost gone avail off data w =
     (let w = w\<lparr>sq_highest_offset := max (sq_highest_offset w) (off + length data)\<rparr>;
          previous_readable_bytes = ReadableBytes (sq_buffer w)
      in case QuicStreamSequencerBuffer_OnStreamData off data (sq_buffer w) of
           None \<Rightarrow> diverge w
         | Some (err, bytes_written, b) \<Rightarrow>
             let w = w\<lparr>sq_buffer := b\<rparr>
             in if err \<noteq> QUIC_NO_ERROR then lost err w
                else if bytes_written = 0 then w\<lparr>sq_duplicate_frames := sq_duplicate_frames w + 1\<rparr>
                else if sq_blocked w then w
                else if \<not> readable_changed w previous_readable_bytes then w
                else if sq_ignore_read_data w
                then QuicStreamSequencer_FlushBufferedFrames (write_frame lost) gone w
                else avail w)"

definition QuicStreamSequencer_CloseStreamAtOffset ::
    "(QuicErrorCode \<Rightarrow> 'a handler) \<Rightarrow> 'a handler \<Rightarrow> 'a handler \<Rightarrow> nat \<Rightarrow> 'a quic_stream_scheme \<Rightarrow>
     bool \<times> 'a quic_stream_scheme" where
  "QuicStreamSequencer_CloseStreamAtOffset lost gone avail off w =
     (if sq_close_offset w \<noteq> kMaxOffset \<and> off \<noteq> sq_close_offset w
      then (False, lost QUIC_STREAM_SEQUENCER_INVALID_STATE w)
      else if off < sq_highest_offset w
      then (False, lost QUIC_STREAM_SEQUENCER_INVALID_STATE w)
      else (True, QuicStreamSequencer_MaybeCloseStream (QuicStream_OnFinRead (write_frame lost) gone) avail
                    (w\<lparr>sq_close_offset := off\<rparr>)))"

definition QuicStreamSequencer_OnStreamFrame ::
    "(QuicErrorCode \<Rightarrow> 'a handler) \<Rightarrow> 'a handler \<Rightarrow> 'a handler \<Rightarrow> nat \<Rightarrow> bytes \<Rightarrow> bool \<Rightarrow> 'a handler" where
  "QuicStreamSequencer_OnStreamFrame lost gone avail off data fin w =
     (let w = w\<lparr>sq_frames_received := sq_frames_received w + 1\<rparr>
      in if fin
         then case QuicStreamSequencer_CloseStreamAtOffset lost gone avail (off + length data) w of (ok, w) \<Rightarrow>
                if \<not> ok \<or> data = [] then w
                else QuicStreamSequencer_OnFrameData lost gone avail off data w
         else if data = [] then w
         else QuicStreamSequencer_OnFrameData lost gone avail off data w)"

definition QuicStreamSequencer_SetUnblocked :: "'a handler \<Rightarrow> 'a handler" where
  "QuicStreamSequencer_SetUnblocked avail w =
     (let w = w\<lparr>sq_blocked := False\<rparr>
      in if QuicStreamSequencer_IsClosed w \<or> ReadableBytes (sq_buffer w) > 0 then avail w else w)"

section \<open>Frames from the peer\<close>

definition StreamDraining :: "'a handler" where
  "StreamDraining w = w\<lparr>cn_draining := cn_draining w + 1, st_was_draining := True\<rparr>"

definition note_fin :: "bool \<Rightarrow> 'a handler" where
  "note_fin fin w =
     (if fin \<and> \<not> st_fin_received w
      then let w = w\<lparr>st_fin_received := True\<rparr> in if st_fin_sent w then StreamDraining w else w
      else w)"

definition QuicStream_OnStreamFrame ::
    "(QuicErrorCode \<Rightarrow> 'a handler) \<Rightarrow> 'a handler \<Rightarrow> 'a handler \<Rightarrow> nat \<Rightarrow> bytes \<Rightarrow> bool \<Rightarrow> 'a handler" where
  "QuicStream_OnStreamFrame lost gone avail off data fin w =
     (if off > kMaxStreamLength \<or> kMaxStreamLength - off < length data
      then lost QUIC_STREAM_LENGTH_OVERFLOW w
      else if off + length data > sq_close_offset w
      then lost QUIC_STREAM_DATA_BEYOND_CLOSE_OFFSET w
      else let w = note_fin fin w
           in if st_read_side_closed w then w
              else let w = w\<lparr>st_bytes_read := st_bytes_read w + length data\<rparr>;
                       (increased, w) = (if data \<noteq> []
                         then QuicStream_MaybeIncreaseHighestReceivedOffset (off + length data) w else (False, w))
                   in if increased \<and> any_violation w
                      then lost QUIC_FLOW_CONTROL_RECEIVED_TOO_MUCH_DATA w
                      else QuicStreamSequencer_OnStreamFrame lost gone avail off data fin w)"

definition QuicStream_OnStopSending ::
    "(QuicErrorCode \<Rightarrow> 'a handler) \<Rightarrow> 'a handler \<Rightarrow> QuicRstStreamErrorCode \<Rightarrow> 'a handler" where
  "QuicStream_OnStopSending lost gone err w =
     (if st_write_side_closed w \<and> \<not> QuicStream_IsWaitingForAcks w then w
      else QuicStream_MaybeSendRstStream (write_frame lost) gone err (w\<lparr>st_error := err\<rparr>))"

definition QuicStream_OnStreamReset ::
    "(QuicErrorCode \<Rightarrow> 'a handler) \<Rightarrow> 'a handler \<Rightarrow> QuicRstStreamErrorCode \<Rightarrow> nat \<Rightarrow> 'a handler" where
  "QuicStream_OnStreamReset lost gone err byte_offset w =
     (let w = w\<lparr>st_rst_received := True\<rparr>
      in if byte_offset > kMaxStreamLength then lost QUIC_STREAM_LENGTH_OVERFLOW w
         else if sq_close_offset w \<noteq> kMaxOffset \<and> byte_offset \<noteq> sq_close_offset w
         then lost QUIC_STREAM_MULTIPLE_OFFSET w
         else case QuicStream_MaybeIncreaseHighestReceivedOffset byte_offset w of (_, w) \<Rightarrow>
           if any_violation w then lost QUIC_FLOW_CONTROL_RECEIVED_TOO_MUCH_DATA w
           else QuicStream_CloseReadSide (write_frame lost) gone (w\<lparr>st_error := err\<rparr>))"

definition QuicStream_OnWindowUpdateFrame :: "nat \<Rightarrow> 'a handler" where
  "QuicStream_OnWindowUpdateFrame max_data w =
     (case QuicFlowController_UpdateSendWindowOffset max_data (st_flow w) of (unblocked, fc) \<Rightarrow>
        (if unblocked then (w\<lparr>st_flow := fc\<rparr>)\<lparr>cn_write_blocked := True\<rparr> else w\<lparr>st_flow := fc\<rparr>))"

section \<open>Writing\<close>

definition QuicStream_HasBufferedData :: "'a quic_stream_scheme \<Rightarrow> bool" where
  "QuicStream_HasBufferedData w \<longleftrightarrow> stream_offset (st_send w) > stream_bytes_written (st_send w)"

definition QuicStream_BufferedDataBytes :: "'a quic_stream_scheme \<Rightarrow> nat" where
  "QuicStream_BufferedDataBytes w = stream_offset (st_send w) - stream_bytes_written (st_send w)"

definition QuicStream_CanWriteNewData :: "'a quic_stream_scheme \<Rightarrow> bool" where
  "QuicStream_CanWriteNewData w \<longleftrightarrow> QuicStream_BufferedDataBytes w < quic_buffered_data_threshold"

definition QuicStream_CalculateSendWindowSize :: "'a quic_stream_scheme \<Rightarrow> nat" where
  "QuicStream_CalculateSendWindowSize w =
     min (QuicFlowController_SendWindowSize (st_flow w)) (QuicFlowController_SendWindowSize (cn_flow w))"

definition MarkConnectionLevelWriteBlocked :: "'a handler" where
  "MarkConnectionLevelWriteBlocked w = w\<lparr>cn_write_blocked := True\<rparr>"

definition QuicStream_MaybeSendBlocked :: "(control_frame \<Rightarrow> 'a handler) \<Rightarrow> 'a handler" where
  "QuicStream_MaybeSendBlocked emit w =
     (let (fc, upd) = QuicFlowController_MaybeSendBlocked (st_flow w);
          w = emit_opt emit BlockedStream upd (w\<lparr>st_flow := fc\<rparr>);
          (cfc, upd) = QuicFlowController_MaybeSendBlocked (cn_flow w);
          w = emit_opt emit BlockedConnection upd (w\<lparr>cn_flow := cfc\<rparr>)
      in if \<not> st_write_side_closed w \<and> QuicFlowController_IsBlocked (cn_flow w) \<and>
            \<not> QuicFlowController_IsBlocked (st_flow w)
         then MarkConnectionLevelWriteBlocked w else w)"

definition flow_AddBytesSent :: "(QuicErrorCode \<Rightarrow> 'a handler) \<Rightarrow> nat \<Rightarrow> 'a handler" where
  "flow_AddBytesSent lost n w =
     (let (ok, fc) = QuicFlowController_AddBytesSent n (st_flow w);
          w = w\<lparr>st_flow := fc\<rparr>;
          w = (if ok then w else lost QUIC_FLOW_CONTROL_SENT_TOO_MUCH_DATA w);
          (ok, fc) = QuicFlowController_AddBytesSent n (cn_flow w);
          w = w\<lparr>cn_flow := fc\<rparr>
      in if ok then w else lost QUIC_FLOW_CONTROL_SENT_TOO_MUCH_DATA w)"

definition QuicStream_OnStreamDataConsumed :: "nat \<Rightarrow> 'a handler" where
  "QuicStream_OnStreamDataConsumed n w = w\<lparr>st_send := SendBuffer_OnStreamDataConsumed n (st_send w)\<rparr>"

definition note_fin_sent :: "'a handler" where
  "note_fin_sent w =
     (let w = w\<lparr>st_fin_sent := True, st_fin_outstanding := True\<rparr>
      in if st_fin_received w then StreamDraining w else w)"

text \<open>What \<open>WriteBufferedData\<close> does once the session has taken \<open>consumed\<close> of the
  \<open>write_length\<close> bytes.\<close>

definition after_write ::
    "(QuicErrorCode \<Rightarrow> 'a handler) \<Rightarrow> 'a handler \<Rightarrow> nat \<Rightarrow> bool \<Rightarrow> bool \<Rightarrow> nat \<Rightarrow> bool \<Rightarrow> 'a handler" where
  "after_write lost gone write_length fin fin_with_zero_data consumed fin_consumed w =
     (if st_write_side_closed w then w
      else if consumed = write_length
      then let w = (if \<not> fin_with_zero_data then QuicStream_MaybeSendBlocked (write_frame lost) w else w)
           in if fin \<and> fin_consumed
              then QuicStream_CloseWriteSide (write_frame lost) gone (note_fin_sent w)
              else if fin \<and> \<not> fin_consumed \<and> \<not> st_write_side_closed w
              then MarkConnectionLevelWriteBlocked w
              else w
      else MarkConnectionLevelWriteBlocked w)"

definition QuicStream_WriteBufferedData ::
    "(QuicErrorCode \<Rightarrow> 'a handler) \<Rightarrow> 'a handler \<Rightarrow> 'a handler" where
  "QuicStream_WriteBufferedData lost gone w =
     (if fst (next_outcome w) = Yield then MarkConnectionLevelWriteBlocked (snd (next_outcome w))
      else let write_length = QuicStream_BufferedDataBytes w;
               fin_with_zero_data = (st_fin_buffered w \<and> write_length = 0);
               send_window = QuicStream_CalculateSendWindowSize w
           in if send_window = 0 \<and> \<not> fin_with_zero_data then QuicStream_MaybeSendBlocked (write_frame lost) w
              else let fin = (st_fin_buffered w \<and> write_length \<le> send_window);
                       write_length = min write_length send_window;
                       (consumed, fin_consumed, w) =
                         QuicSession_WritevData lost (stream_bytes_written (st_send w)) write_length fin w;
                       w = QuicStream_OnStreamDataConsumed consumed w;
                       w = flow_AddBytesSent lost consumed w
                   in after_write lost gone write_length fin fin_with_zero_data consumed fin_consumed w)"

definition QuicStream_WriteOrBufferData ::
    "(QuicErrorCode \<Rightarrow> 'a handler) \<Rightarrow> 'a handler \<Rightarrow> bytes \<Rightarrow> bool \<Rightarrow> 'a handler" where
  "QuicStream_WriteOrBufferData lost gone data fin w =
     (if data = [] \<and> \<not> fin then w
      else if st_fin_buffered w then w
      else if st_write_side_closed w then w
      else let w = w\<lparr>st_fin_buffered := fin\<rparr>;
               had_buffered_data = QuicStream_HasBufferedData w
           in if data \<noteq> [] \<and> kMaxStreamLength - stream_offset (st_send w) < length data
              then lost QUIC_STREAM_LENGTH_OVERFLOW w
              else let w = (if data \<noteq> [] then w\<lparr>st_send := SaveStreamData data (st_send w)\<rparr> else w)
                   in if \<not> had_buffered_data \<and> (QuicStream_HasBufferedData w \<or> st_fin_buffered w)
                      then QuicStream_WriteBufferedData lost gone w else w)"

section \<open>Acknowledgement, loss and retransmission\<close>

definition QuicStream_OnStreamFrameAcked ::
    "(QuicErrorCode \<Rightarrow> 'a handler) \<Rightarrow> nat \<Rightarrow> nat \<Rightarrow> bool \<Rightarrow> 'a quic_stream_scheme \<Rightarrow> bool \<times> 'a quic_stream_scheme" where
  "QuicStream_OnStreamFrameAcked lost off len fin_acked w =
     (case SendBuffer_OnStreamDataAcked off len (st_send w) of (ok, newly_acked_length, sb) \<Rightarrow>
        let w = w\<lparr>st_send := sb\<rparr>
        in if \<not> ok then (False, lost QUIC_INTERNAL_ERROR w)
           else if \<not> st_fin_sent w \<and> fin_acked then (False, lost QUIC_INTERNAL_ERROR w)
           else let new_data_acked = (newly_acked_length > 0 \<or> (fin_acked \<and> st_fin_outstanding w));
                    w = (if fin_acked then w\<lparr>st_fin_outstanding := False, st_fin_lost := False\<rparr> else w);
                    w = (if \<not> QuicStream_IsWaitingForAcks w \<and> st_write_side_closed w
                         then w\<lparr>st_data_recvd_notified := True\<rparr> else w)
                in (new_data_acked, w))"

definition QuicStream_OnStreamFrameLost :: "nat \<Rightarrow> nat \<Rightarrow> bool \<Rightarrow> 'a handler" where
  "QuicStream_OnStreamFrameLost off len fin_lost w =
     (let w = (if len > 0 then w\<lparr>st_send := SendBuffer_OnStreamDataLost off len (st_send w)\<rparr> else w)
      in if fin_lost \<and> st_fin_outstanding w then w\<lparr>st_fin_lost := True\<rparr> else w)"

definition QuicStream_OnStreamFrameRetransmitted :: "nat \<Rightarrow> nat \<Rightarrow> bool \<Rightarrow> 'a handler" where
  "QuicStream_OnStreamFrameRetransmitted off len fin_retransmitted w =
     (let w = w\<lparr>st_send := SendBuffer_OnStreamDataRetransmitted off len (st_send w)\<rparr>
      in if fin_retransmitted then w\<lparr>st_fin_lost := False\<rparr> else w)"

definition QuicStream_HasPendingRetransmission :: "'a quic_stream_scheme \<Rightarrow> bool" where
  "QuicStream_HasPendingRetransmission w \<longleftrightarrow> pending_retransmissions (st_send w) \<noteq> [] \<or> st_fin_lost w"

text \<open>One round of the loop of \<open>WritePendingRetransmission\<close>; the result says whether the
  loop goes on.\<close>

definition retransmit_step ::
    "(QuicErrorCode \<Rightarrow> 'a handler) \<Rightarrow> 'a quic_stream_scheme \<Rightarrow> bool \<times> 'a quic_stream_scheme" where
  "retransmit_step lost w =
     (if pending_retransmissions (st_send w) = []
      then case QuicSession_WritevData lost (stream_bytes_written (st_send w)) 0 True w of (_, fin_consumed, w) \<Rightarrow>
        (fin_consumed, w\<lparr>st_fin_lost := \<not> fin_consumed\<rparr>)
      else case NextPendingRetransmission (st_send w) of (off, len) \<Rightarrow>
        let can_bundle_fin = (st_fin_lost w \<and> off + len = stream_bytes_written (st_send w))
        in case QuicSession_WritevData lost off len can_bundle_fin w of (consumed, fin_consumed, w) \<Rightarrow>
          (\<not> (consumed < len \<or> (can_bundle_fin \<and> \<not> fin_consumed)),
           QuicStream_OnStreamFrameRetransmitted off consumed fin_consumed w))"

text \<open>Every round that goes on takes a pending interval or the fin away, so as many
  rounds as there are intervals and one for the fin are enough.\<close>

fun retransmit_rounds :: "nat \<Rightarrow> (QuicErrorCode \<Rightarrow> 'a handler) \<Rightarrow> 'a handler" where
  "retransmit_rounds fuel lost w =
     (if \<not> QuicStream_HasPendingRetransmission w then w
      else case fuel of
             0 \<Rightarrow> diverge w
           | Suc fuel \<Rightarrow>
               (case retransmit_step lost w of (go_on, w) \<Rightarrow>
                  if go_on then retransmit_rounds fuel lost w else w))"

declare retransmit_rounds.simps [simp del]

definition QuicStream_WritePendingRetransmission :: "(QuicErrorCode \<Rightarrow> 'a handler) \<Rightarrow> 'a handler" where
  "QuicStream_WritePendingRetransmission lost w =
     retransmit_rounds (length (pending_retransmissions (st_send w)) + 1) lost w"

definition QuicStream_OnCanWrite ::
    "(QuicErrorCode \<Rightarrow> 'a handler) \<Rightarrow> 'a handler \<Rightarrow> 'a handler \<Rightarrow> 'a handler" where
  "QuicStream_OnCanWrite lost gone can_write w =
     (if QuicStream_HasPendingRetransmission w then QuicStream_WritePendingRetransmission lost w
      else if st_write_side_closed w then w
      else let w = (if QuicStream_HasBufferedData w \<or> (st_fin_buffered w \<and> \<not> st_fin_sent w)
                    then QuicStream_WriteBufferedData lost gone w else w)
           in if \<not> st_fin_buffered w \<and> \<not> st_fin_sent w \<and> QuicStream_CanWriteNewData w
              then can_write w else w)"

section \<open>QuictunStream\<close>

definition kStreamReceiveWindowLimit :: nat where
  "kStreamReceiveWindowLimit = 2 * 1024 * 1024 * 1024"

text \<open>The constructors of the sequencer, of \<open>QuicStream\<close> and of \<open>QuictunStream\<close> set the
  fields of the stream; the windows are the ones the session negotiated.\<close>

definition QuicStreamSequencer_new :: "'a handler" where
  "QuicStreamSequencer_new w =
     w\<lparr>sq_buffer := new_seq_buffer kStreamReceiveWindowLimit, sq_highest_offset := 0, sq_close_offset := kMaxOffset,
       sq_blocked := False, sq_frames_received := 0, sq_duplicate_frames := 0, sq_ignore_read_data := False,
       sq_level_triggered := False\<rparr>"

definition QuicStream_new :: "nat \<Rightarrow> nat \<Rightarrow> 'a handler" where
  "QuicStream_new receive_window send_window w =
     (QuicStreamSequencer_new w)\<lparr>st_bytes_read := 0, st_error := QUIC_STREAM_NO_ERROR, st_connection_error := QUIC_NO_ERROR,
       st_flow := new_flow_controller send_window receive_window kStreamReceiveWindowLimit (auto_tune_receive_window (cn_flow w)),
       st_send := new_send_buffer, st_read_side_closed := False, st_write_side_closed := False,
       st_fin_buffered := False, st_fin_sent := False, st_fin_outstanding := False, st_fin_lost := False,
       st_fin_received := False, st_rst_sent := False, st_rst_received := False, st_stop_sending_sent := False,
       st_was_draining := False, st_data_recvd_notified := False, st_diverged := False, cn_data := []\<rparr>"

definition QuictunStream_new :: "nat \<Rightarrow> nat \<Rightarrow> 'a handler" where
  "QuictunStream_new receive_window send_window w =
     (QuicStream_new receive_window send_window w)\<lparr>sq_level_triggered := True\<rparr>"

definition QuictunStream_OnDataAvailable :: "'a handler \<Rightarrow> 'a handler" where
  "QuictunStream_OnDataAvailable notify w =
     (if ReadableBytes (sq_buffer w) = 0 \<and> \<not> QuicStreamSequencer_IsClosed w then w else notify w)"

definition QuictunStream_OnCanWriteNewData :: "'a handler \<Rightarrow> 'a handler" where
  "QuictunStream_OnCanWriteNewData notify w = (if \<not> QuicStream_CanWriteNewData w then w else notify w)"

definition QuictunStream_Read ::
    "(QuicErrorCode \<Rightarrow> 'a handler) \<Rightarrow> 'a handler \<Rightarrow> nat \<Rightarrow> 'a quic_stream_scheme \<Rightarrow>
     bytes \<times> bool \<times> 'a quic_stream_scheme" where
  "QuictunStream_Read lost gone n w =
     (case QuicStreamSequencer_Readv lost n w of (data, w) \<Rightarrow>
        let fin = QuicStreamSequencer_IsClosed w
        in (data, fin, if fin then QuicStream_OnFinRead (write_frame lost) gone w else w))"

definition QuictunStream_WriteToStream ::
    "(QuicErrorCode \<Rightarrow> 'a handler) \<Rightarrow> 'a handler \<Rightarrow> bytes \<Rightarrow> bool \<Rightarrow> 'a handler" where
  "QuictunStream_WriteToStream lost gone data fin w = QuicStream_WriteOrBufferData lost gone data fin w"

definition QuicStream_StopReading :: "(QuicErrorCode \<Rightarrow> 'a handler) \<Rightarrow> 'a handler \<Rightarrow> 'a handler" where
  "QuicStream_StopReading lost gone w = QuicStreamSequencer_StopReading (write_frame lost) gone w"

end
