(* ===== verification/Accepted_Socket.thy ===== *)
theory Accepted_Socket
  imports Quic_Stream
begin

text \<open>
  \<open>QuictunAcceptedTcpSocket\<close> (\<open>quictun_accepted_tcp_socket.cc\<close>): a TCP socket with at
  most one asynchronous receive and one asynchronous send.  The state extends the
  one of the stream, because the completions a socket calls are operations of the
  tunnel, which owns both legs.

  What the kernel answers to \<open>recv\<close> and \<open>send\<close> is an argument of the operation that
  makes the call.  \<open>sk_misuse\<close> records a failed \<open>QUICHE_DCHECK\<close> or \<open>QUICHE_CHECK\<close>;
  \<open>sk_written\<close> collects what the kernel has taken.
\<close>

record tcp_socket = quic_stream +
  sk_open :: bool
  sk_edge_triggered :: bool
  sk_receive_max_size :: "nat option"
  sk_send_data :: "bytes option"
  sk_send_remaining :: bytes
  sk_armed_read :: bool
  sk_armed_write :: bool
  sk_written :: bytes
  sk_misuse :: bool

datatype recv_result = Received bytes | RecvUnavailable | RecvError
datatype send_result = Accepted nat | SendUnavailable | SendError
datatype send_status = SendOk | SendFailed

type_synonym 'a sock_handler = "'a tcp_socket_scheme \<Rightarrow> 'a tcp_socket_scheme"

definition dcheck :: "bool \<Rightarrow> 'a sock_handler" where
  "dcheck p w = (if p then w else w\<lparr>sk_misuse := True\<rparr>)"

definition no_socket :: "'a sock_handler" where
  "no_socket w = w\<lparr>sk_open := False, sk_receive_max_size := None, sk_send_data := None,
     sk_send_remaining := [], sk_armed_read := False, sk_armed_write := False\<rparr>"

definition QuictunAcceptedTcpSocket_new :: "'a sock_handler" where
  "QuictunAcceptedTcpSocket_new w = (no_socket w)\<lparr>sk_open := True, sk_written := []\<rparr>"

definition QuictunAcceptedTcpSocket_Close :: "'a sock_handler" where
  "QuictunAcceptedTcpSocket_Close w = (dcheck (sk_open w) w)\<lparr>sk_open := False\<rparr>"

text \<open>The completions are called with an error, \<open>absl::CancelledError\<close>.\<close>

definition QuictunAcceptedTcpSocket_Disconnect ::
    "(recv_result \<Rightarrow> 'a sock_handler) \<Rightarrow> (send_status \<Rightarrow> 'a sock_handler) \<Rightarrow> 'a sock_handler" where
  "QuictunAcceptedTcpSocket_Disconnect receive_complete send_complete w =
     (if \<not> sk_open w then w
      else let w = QuictunAcceptedTcpSocket_Close w;
               require_receive_callback = (sk_receive_max_size w \<noteq> None);
               require_send_callback = (sk_send_data w \<noteq> None);
               w = w\<lparr>sk_receive_max_size := None, sk_send_data := None, sk_send_remaining := []\<rparr>;
               w = (if require_receive_callback then receive_complete RecvError w else w)
           in if require_send_callback then send_complete SendFailed w else w)"

definition QuictunAcceptedTcpSocket_ReceiveInternal ::
    "recv_result \<Rightarrow> 'a tcp_socket_scheme \<Rightarrow> recv_result \<times> 'a tcp_socket_scheme" where
  "QuictunAcceptedTcpSocket_ReceiveInternal r w =
     (let w = dcheck (sk_receive_max_size w \<noteq> None) w
      in case r of
           Received d \<Rightarrow>
             (Received (case sk_receive_max_size w of Some m \<Rightarrow> take m d | None \<Rightarrow> []),
              w\<lparr>sk_receive_max_size := None\<rparr>)
         | RecvUnavailable \<Rightarrow> (RecvUnavailable, w)
         | RecvError \<Rightarrow> (RecvError, w\<lparr>sk_receive_max_size := None\<rparr>))"

definition QuictunAcceptedTcpSocket_FinishOrRearmAsyncReceive ::
    "(recv_result \<Rightarrow> 'a sock_handler) \<Rightarrow> recv_result \<Rightarrow> 'a sock_handler" where
  "QuictunAcceptedTcpSocket_FinishOrRearmAsyncReceive receive_complete data w =
     (if data = RecvUnavailable
      then (if \<not> sk_edge_triggered w then w\<lparr>sk_armed_read := True\<rparr> else w)
      else receive_complete data w)"

definition QuictunAcceptedTcpSocket_ReceiveAsync ::
    "(recv_result \<Rightarrow> 'a sock_handler) \<Rightarrow> nat \<Rightarrow> recv_result \<Rightarrow> 'a sock_handler" where
  "QuictunAcceptedTcpSocket_ReceiveAsync receive_complete max_size r w =
     (let w = dcheck (max_size > 0 \<and> sk_open w \<and> sk_receive_max_size w = None) w;
          (data, w) = QuictunAcceptedTcpSocket_ReceiveInternal r (w\<lparr>sk_receive_max_size := Some max_size\<rparr>)
      in QuictunAcceptedTcpSocket_FinishOrRearmAsyncReceive receive_complete data w)"

definition QuictunAcceptedTcpSocket_SendInternal ::
    "send_result \<Rightarrow> 'a tcp_socket_scheme \<Rightarrow> send_result \<times> 'a tcp_socket_scheme" where
  "QuictunAcceptedTcpSocket_SendInternal r w =
     (let w = dcheck (sk_send_remaining w \<noteq> [] \<and> sk_open w) w
      in case r of
           Accepted k \<Rightarrow> (Accepted k, w\<lparr>sk_written := sk_written w @ take k (sk_send_remaining w),
                                        sk_send_remaining := drop k (sk_send_remaining w)\<rparr>)
         | _ \<Rightarrow> (r, w))"

definition QuictunAcceptedTcpSocket_FinishOrRearmAsyncSend ::
    "(send_status \<Rightarrow> 'a sock_handler) \<Rightarrow> send_result \<Rightarrow> 'a sock_handler" where
  "QuictunAcceptedTcpSocket_FinishOrRearmAsyncSend send_complete status w =
     (let status = (if status \<noteq> SendError \<and> status \<noteq> SendUnavailable \<and> sk_send_remaining w \<noteq> []
                    then SendUnavailable else status)
      in if status = SendUnavailable
         then (if \<not> sk_edge_triggered w then w\<lparr>sk_armed_write := True\<rparr> else w)
         else send_complete (if status = SendError then SendFailed else SendOk)
                (w\<lparr>sk_send_data := None, sk_send_remaining := []\<rparr>))"

definition QuictunAcceptedTcpSocket_SendAsync ::
    "(send_status \<Rightarrow> 'a sock_handler) \<Rightarrow> bytes \<Rightarrow> send_result \<Rightarrow> 'a sock_handler" where
  "QuictunAcceptedTcpSocket_SendAsync send_complete data r w =
     (let w = dcheck (data \<noteq> [] \<and> sk_send_data w = None) w;
          (status, w) = QuictunAcceptedTcpSocket_SendInternal r
            (w\<lparr>sk_send_data := Some data, sk_send_remaining := data\<rparr>)
      in QuictunAcceptedTcpSocket_FinishOrRearmAsyncSend send_complete status w)"

text \<open>\<open>OnSocketEvent\<close>: the event mask is the two flags; an error event sets both.\<close>

definition QuictunAcceptedTcpSocket_OnSocketEvent ::
    "(recv_result \<Rightarrow> 'a sock_handler) \<Rightarrow> (send_status \<Rightarrow> 'a sock_handler) \<Rightarrow>
     bool \<Rightarrow> bool \<Rightarrow> recv_result \<Rightarrow> send_result \<Rightarrow> 'a sock_handler" where
  "QuictunAcceptedTcpSocket_OnSocketEvent receive_complete send_complete readable writable r s w =
     (let w = (if sk_receive_max_size w \<noteq> None \<and> readable
               then case QuictunAcceptedTcpSocket_ReceiveInternal r w of (data, w) \<Rightarrow>
                 QuictunAcceptedTcpSocket_FinishOrRearmAsyncReceive receive_complete data w
               else w)
      in if sk_send_remaining w \<noteq> [] \<and> writable
         then case QuictunAcceptedTcpSocket_SendInternal s w of (status, w) \<Rightarrow>
           QuictunAcceptedTcpSocket_FinishOrRearmAsyncSend send_complete status w
         else w)"

end
