(* ===== verification/Idle_Tracker.thy ===== *)
theory Idle_Tracker
  imports Prelude
begin

text \<open>
  \<open>QuictunIdleTracker\<close> of \<open>quictun_tunnel.h\<close> and \<open>quictun_tunnel.cc\<close>: the two
  intrusive lists of live tunnels, ordered oldest activity first, that the
  event loop sweeps for tunnels to close.  A tunnel is named by its identity;
  the time of its last activity lives in the tunnel, so the orderings are
  stated against a function \<open>la\<close> from identities to times.

  The invariant \<open>tracker_ok\<close> says what the comments of the class claim "by
  construction": a tunnel is in at most one list, at most once, and each list
  is sorted by activity, none of it later than the clock.
\<close>

type_synonym tunnel_id = nat

record idle_tracker =
  it_order :: "tunnel_id list"
  it_stalled_order :: "tunnel_id list"

definition empty_tracker :: idle_tracker where
  "empty_tracker = \<lparr>it_order = [], it_stalled_order = []\<rparr>"

definition is_linked :: "tunnel_id \<Rightarrow> idle_tracker \<Rightarrow> bool" where
  "is_linked i t \<longleftrightarrow> i \<in> set (it_order t) \<or> i \<in> set (it_stalled_order t)"

definition QuictunIdleTracker_Remove :: "tunnel_id \<Rightarrow> idle_tracker \<Rightarrow> idle_tracker" where
  "QuictunIdleTracker_Remove i t =
     (if is_linked i t
      then t\<lparr>it_order := removeAll i (it_order t), it_stalled_order := removeAll i (it_stalled_order t)\<rparr>
      else t)"

definition class_list :: "bool \<Rightarrow> idle_tracker \<Rightarrow> tunnel_id list" where
  "class_list stalled t = (if stalled then it_stalled_order t else it_order t)"

definition push_back :: "bool \<Rightarrow> tunnel_id \<Rightarrow> idle_tracker \<Rightarrow> idle_tracker" where
  "push_back stalled i t =
     (if stalled then t\<lparr>it_stalled_order := it_stalled_order t @ [i]\<rparr>
      else t\<lparr>it_order := it_order t @ [i]\<rparr>)"

definition QuictunIdleTracker_Touch :: "tunnel_id \<Rightarrow> bool \<Rightarrow> idle_tracker \<Rightarrow> idle_tracker" where
  "QuictunIdleTracker_Touch i stalled t =
     (if class_list stalled t \<noteq> [] \<and> last (class_list stalled t) = i then t
      else push_back stalled i (QuictunIdleTracker_Remove i t))"

definition QuictunIdleTracker_Refile :: "tunnel_id \<Rightarrow> bool \<Rightarrow> idle_tracker \<Rightarrow> idle_tracker" where
  "QuictunIdleTracker_Refile i stalled t =
     (if \<not> is_linked i t then t else QuictunIdleTracker_Touch i stalled t)"

section \<open>Invariant\<close>

definition tracker_ok :: "(tunnel_id \<Rightarrow> QuicTime) \<Rightarrow> QuicTime \<Rightarrow> idle_tracker \<Rightarrow> bool" where
  "tracker_ok la now t \<longleftrightarrow>
     distinct (it_order t @ it_stalled_order t) \<and>
     sorted (map la (it_order t)) \<and> sorted (map la (it_stalled_order t)) \<and>
     (\<forall>i \<in> set (it_order t @ it_stalled_order t). la i \<le> now)"

definition tracker_class :: "idle_tracker \<Rightarrow> tunnel_id \<Rightarrow> bool option" where
  "tracker_class t i =
     (if i \<in> set (it_stalled_order t) then Some True
      else if i \<in> set (it_order t) then Some False else None)"

lemma tracker_ok_empty [wf_intros]: "tracker_ok la now empty_tracker"
  by (simp add: tracker_ok_def empty_tracker_def)

lemma Remove_lists [wf_simps]:
  "it_order (QuictunIdleTracker_Remove i t) = removeAll i (it_order t)"
  "it_stalled_order (QuictunIdleTracker_Remove i t) = removeAll i (it_stalled_order t)"
  by (auto simp: QuictunIdleTracker_Remove_def is_linked_def)

lemma Remove_unlinks [wf_simps]: "\<not> is_linked i (QuictunIdleTracker_Remove i t)"
  by (simp add: is_linked_def wf_simps)

lemma tracker_class_Remove [wf_simps]:
  "tracker_class (QuictunIdleTracker_Remove i t) = (tracker_class t)(i := None)"
  by (auto simp: tracker_class_def wf_simps)

lemma is_linked_class [wf_simps]: "is_linked i t \<longleftrightarrow> tracker_class t i \<noteq> None"
  by (auto simp: tracker_class_def is_linked_def)

lemma tracker_ok_Remove [wf_intros]:
  "tracker_ok la now t \<Longrightarrow> tracker_ok la now (QuictunIdleTracker_Remove i t)"
  by (auto simp: tracker_ok_def wf_simps distinct_removeAll intro: sorted_map_removeAll)

lemma tracker_ok_mono: "tracker_ok la now t \<Longrightarrow> now \<le> now' \<Longrightarrow> tracker_ok la now' t"
  by (auto simp: tracker_ok_def intro: order_trans)

lemma tracker_ok_cong:
  "tracker_ok la now t \<Longrightarrow> (\<And>j. is_linked j t \<Longrightarrow> la' j = la j) \<Longrightarrow> tracker_ok la' now t"
  unfolding tracker_ok_def is_linked_def
  by (auto cong: map_cong simp: map_cong [of _ _ la' la])

text \<open>Under the invariant the short cut of \<open>Touch\<close> is the general case.\<close>

lemma Touch_eq_push:
  assumes "tracker_ok la now t"
  shows "QuictunIdleTracker_Touch i stalled t = push_back stalled i (QuictunIdleTracker_Remove i t)"
proof (cases "class_list stalled t \<noteq> [] \<and> last (class_list stalled t) = i")
  case True
  have d: "distinct (it_order t)" "distinct (it_stalled_order t)"
    "set (it_order t) \<inter> set (it_stalled_order t) = {}"
    using assms by (auto simp: tracker_ok_def)
  have "i \<in> set (class_list stalled t)" using True by (auto intro: last_in_set)
  with d have "i \<notin> set (class_list (\<not> stalled) t)" by (auto simp: class_list_def split: if_splits)
  with \<open>i \<in> _\<close> have "push_back stalled i (QuictunIdleTracker_Remove i t) = t"
    using True d removeAll_last_distinct [of "class_list stalled t" i]
    by (cases stalled; cases t)
      (simp_all add: class_list_def push_back_def QuictunIdleTracker_Remove_def is_linked_def)
  then show ?thesis using True by (simp add: QuictunIdleTracker_Touch_def)
qed (auto simp: QuictunIdleTracker_Touch_def)

lemma tracker_class_Touch [wf_simps]:
  assumes "tracker_ok la now t"
  shows "tracker_class (QuictunIdleTracker_Touch i stalled t) = (tracker_class t)(i \<mapsto> stalled)"
  unfolding Touch_eq_push [OF assms]
  by (auto simp: tracker_class_def push_back_def wf_simps)

lemma tracker_ok_Touch [wf_intros]:
  assumes "tracker_ok la now t" "now \<le> now'"
  shows "tracker_ok (la(i := now')) now' (QuictunIdleTracker_Touch i stalled t)"
proof -
  have le: "\<forall>j \<in> set (it_order t @ it_stalled_order t). la j \<le> now'"
    and s: "sorted (map la (removeAll i (it_order t)))" "sorted (map la (removeAll i (it_stalled_order t)))"
    using assms by (auto simp: tracker_ok_def intro: sorted_map_removeAll order_trans)
  have e: "map (la(i := now')) (removeAll i xs) = map la (removeAll i xs)" for xs by simp
  show ?thesis
    using assms le s sorted_map_fun_upd_last [of la i _ now']
    unfolding Touch_eq_push [OF assms(1)] tracker_ok_def
    by (cases stalled) (auto simp: push_back_def wf_simps distinct_removeAll e simp del: map_append)
qed

lemma tracker_ok_Refile [wf_intros]:
  assumes "tracker_ok la now t" "now \<le> now'"
  shows "tracker_ok (la(i := now')) now' (QuictunIdleTracker_Refile i stalled t)"
  using assms tracker_ok_Touch [OF assms] tracker_ok_mono [OF assms]
  by (auto simp: QuictunIdleTracker_Refile_def intro: tracker_ok_cong)

lemma tracker_class_Refile [wf_simps]:
  assumes "tracker_ok la now t"
  shows "tracker_class (QuictunIdleTracker_Refile i stalled t) =
    (if tracker_class t i = None then tracker_class t else (tracker_class t)(i \<mapsto> stalled))"
  using tracker_class_Touch [OF assms] by (auto simp: QuictunIdleTracker_Refile_def wf_simps)

end
