(* ===== verification/Stream_Effects.thy ===== *)
theory Stream_Effects
  imports Quic_Stream
begin

text \<open>
  The contract between a stream and its users, as a locale.  A relation \<open>R\<close> between
  states is a contract of the stream when it is a preorder, contains the elementary
  updates that the operations of the stream are made of, and contains the handlers
  the user passes.  Then every operation of the stream that the tunnel calls while it
  runs is in \<open>R\<close>: closing either side, stopping to read, resetting, writing, and the
  loss of the connection.  Invariants and frame conditions of the tunnel are such
  relations.

  Taking data out of the receive buffer and adding data to the send buffer are not
  elementary updates; \<open>Readv\<close> and \<open>WriteOrBufferData\<close> are reduced to the update they make
  first.  \<open>stream_writes\<close> adds the bookkeeping of sent data, \<open>stream_receives\<close> the frames of
  the peer and \<open>stream_sends\<close> what the packet layer causes.
\<close>

text \<open>What \<open>WriteOrBufferData\<close> takes before it writes.\<close>

definition accept_data :: "bytes \<Rightarrow> bool \<Rightarrow> 'a handler" where
  "accept_data data fin w =
     (let w = w\<lparr>st_fin_buffered := fin\<rparr>
      in if data \<noteq> [] then w\<lparr>st_send := SaveStreamData data (st_send w)\<rparr> else w)"

lemma note_fin_fields [simp]:
  "sq_buffer (note_fin fin w) = sq_buffer w" "cn_connected (note_fin fin w) = cn_connected w"
  "st_read_side_closed (note_fin fin w) = st_read_side_closed w"
  by (simp_all add: note_fin_def StreamDraining_def Let_def)

lemma MaybeIncreaseHighest_fields [simp]:
  "sq_buffer (snd (QuicStream_MaybeIncreaseHighestReceivedOffset x w)) = sq_buffer w"
  "cn_connected (snd (QuicStream_MaybeIncreaseHighestReceivedOffset x w)) = cn_connected w"
  "st_read_side_closed (snd (QuicStream_MaybeIncreaseHighestReceivedOffset x w)) = st_read_side_closed w"
  by (simp_all add: QuicStream_MaybeIncreaseHighestReceivedOffset_def Let_def split: prod.split)

locale stream_effects =
  fixes R :: "'a quic_stream_scheme \<Rightarrow> 'a quic_stream_scheme \<Rightarrow> bool"
    and gone :: "'a handler" and lost :: "QuicErrorCode \<Rightarrow> 'a handler"
  assumes R_refl: "R w w"
    and R_trans: "R u v \<Longrightarrow> R v w \<Longrightarrow> R u w"
    and R_gone: "R w (gone w)"
    and R_lost: "R w (lost c w)"
    and R_outcomes: "R w (w\<lparr>cn_outcomes := outs\<rparr>)"
    and R_frames: "R w (w\<lparr>cn_frames := fs\<rparr>)"
    and R_session_flow: "R w (w\<lparr>cn_flow := fc\<rparr>)"
    and R_flow: "R w (w\<lparr>st_flow := fc\<rparr>)"
    and R_rst_sent: "R w (w\<lparr>st_rst_sent := True\<rparr>)"
    and R_streams_closed: "R w (w\<lparr>cn_streams_closed := n\<rparr>)"
    and R_draining: "R w (w\<lparr>cn_draining := n, st_was_draining := True\<rparr>)"
    and R_error: "R w (w\<lparr>st_error := e\<rparr>)"
    and R_connection_error: "R w (w\<lparr>st_connection_error := code\<rparr>)"
    and R_stop_sending_sent: "R w (w\<lparr>st_stop_sending_sent := True\<rparr>)"
    and R_fin_received: "R w (w\<lparr>st_fin_received := True\<rparr>)"
    and R_discard: "R w (w\<lparr>sq_ignore_read_data := True,
          sq_buffer := snd (QuicStreamSequencerBuffer_FlushBufferedFrames (sq_buffer w))\<rparr>)"
    and R_clear: "R w (w\<lparr>sq_buffer := QuicStreamSequencerBuffer_Clear (sq_buffer w)\<rparr>)"
    and R_read_closed: "R w (w\<lparr>st_read_side_closed := True,
          sq_buffer := QuicStreamSequencerBuffer_ReleaseWholeBuffer (sq_buffer w)\<rparr>)"
    and R_write_closed: "R w (w\<lparr>st_write_side_closed := True\<rparr>)"
    and R_write_blocked: "R w (w\<lparr>cn_write_blocked := b\<rparr>)"
begin

lemmas R_steps = R_outcomes R_frames R_session_flow R_flow R_rst_sent R_streams_closed R_draining
  R_error R_connection_error R_stop_sending_sent R_fin_received R_discard R_clear
  R_read_closed R_write_closed R_write_blocked

lemma R_next_outcome: "R w (snd (next_outcome w))"
  by (auto simp: next_outcome_def R_refl R_outcomes split: list.split)

lemma R_queue_frame: "R w (queue_frame f w)"
  by (auto simp: queue_frame_def R_refl R_frames)

lemma R_write_frame: "R w (write_frame lost f w)"
proof -
  have "R w (snd (next_outcome (queue_frame f w)))"
    using R_trans R_queue_frame R_next_outcome by blast
  then show ?thesis
    using R_trans R_lost by (auto simp: write_frame_def R_refl split: prod.split)
qed

lemma R_after: "R w w1 \<Longrightarrow> (\<And>v. R v (f v)) \<Longrightarrow> R w (f w1)"
  by (rule R_trans)

lemma R_if: "(P \<Longrightarrow> R w a) \<Longrightarrow> (\<not> P \<Longrightarrow> R w b) \<Longrightarrow> R w (if P then a else b)"
  by simp

section \<open>Flow control and closing, for either way of sending a frame\<close>

lemma R_emit_opt: "(\<And>f v. R v (emit f v)) \<Longrightarrow> R w (emit_opt emit mk upd w)"
  by (auto simp: emit_opt_def R_refl split: option.split)

lemma R_session_consume:
  assumes e: "\<And>f v. R v (emit f v)"
  shows "R w (session_AddBytesConsumed emit n w)"
  using R_trans [OF R_session_flow R_emit_opt [OF e]]
  unfolding session_AddBytesConsumed_def by (simp split: prod.split)

lemma R_grow:
  assumes e: "\<And>f v. R v (emit f v)"
  shows "R w (grow_session_window emit x w)"
  using R_trans [OF R_session_flow R_emit_opt [OF e]]
  unfolding grow_session_window_def session_EnsureWindowAtLeast_def by (simp add: R_refl split: prod.split)

lemma R_window_update:
  assumes e: "\<And>f v. R v (emit f v)"
  shows "R w (stream_MaybeSendWindowUpdate emit w)"
proof -
  have "R w (emit f ((grow_session_window emit x (w\<lparr>st_flow := a\<rparr>))\<lparr>st_flow := b\<rparr>))" for f x a b
    by (rule R_trans [OF R_trans [OF R_trans [OF R_flow R_grow] R_flow] e]) (rule e)
  then show ?thesis unfolding stream_MaybeSendWindowUpdate_def Let_def by (simp add: R_refl R_flow)
qed

lemma R_AddBytesConsumed:
  assumes e: "\<And>f v. R v (emit f v)"
  shows "R w (QuicStream_AddBytesConsumed emit n w)"
proof -
  have "R w (stream_MaybeSendWindowUpdate emit (stream_consume n w))"
    using R_trans [OF R_flow R_window_update [OF e]] by (simp add: stream_consume_def)
  then have "R w (if \<not> st_read_side_closed w then stream_MaybeSendWindowUpdate emit (stream_consume n w) else w)"
    by (simp add: R_refl)
  then show ?thesis unfolding QuicStream_AddBytesConsumed_def
    by (rule R_trans) (rule R_session_consume [OF e])
qed

lemma R_OnClose:
  assumes e: "\<And>f v. R v (emit f v)"
  shows "R w (QuictunStream_OnClose emit gone w)"
proof -
  have rst: "R w (if P then (emit f w)\<lparr>st_rst_sent := True\<rparr> else w)" for P f
    using R_trans [OF e R_rst_sent] by (simp add: R_refl)
  have "R v (gone (if any_violation v then v else QuicStream_AddBytesConsumed emit n v))" for v n
    using R_trans [OF R_AddBytesConsumed [OF e] R_gone] R_gone by simp
  with rst show ?thesis unfolding QuictunStream_OnClose_def Let_def by (rule R_trans)
qed

lemma R_CloseReadSide: "(\<And>f v. R v (emit f v)) \<Longrightarrow> R w (QuicStream_CloseReadSide emit gone w)"
  unfolding QuicStream_CloseReadSide_def QuicSession_OnStreamClosed_def Let_def
  by (auto simp: R_refl R_read_closed
      intro: R_trans [OF R_trans [OF R_read_closed R_streams_closed] R_OnClose])

lemma R_CloseWriteSide: "(\<And>f v. R v (emit f v)) \<Longrightarrow> R w (QuicStream_CloseWriteSide emit gone w)"
  unfolding QuicStream_CloseWriteSide_def QuicSession_OnStreamClosed_def Let_def
  by (auto simp: R_refl R_write_closed
      intro: R_trans [OF R_trans [OF R_write_closed R_streams_closed] R_OnClose])

lemma R_OnConnectionClosed: "R w (QuicStream_OnConnectionClosed gone code w)"
proof -
  have "R w (w\<lparr>st_error := a, st_connection_error := b\<rparr>)" for a b
    by (rule R_trans [OF R_error R_connection_error])
  then have "R w (QuicStream_CloseReadSide queue_frame gone (QuicStream_CloseWriteSide queue_frame gone v))"
    if "v = w \<or> v = w\<lparr>st_error := a, st_connection_error := b\<rparr>" for v a b
    using that R_trans [OF R_trans R_CloseReadSide] R_CloseWriteSide R_queue_frame R_refl by metis
  from this [OF disjI1] this [OF disjI2] show ?thesis
    unfolding QuicStream_OnConnectionClosed_def Let_def by (simp add: R_refl)
qed

text \<open>The loss of the connection is in \<open>R\<close> if the disconnection at its start is.\<close>

lemma R_connection_lost:
  assumes "\<And>w e. R w (w\<lparr>cn_connected := False, cn_error := e\<rparr>)"
  shows "R w (connection_lost gone code w)"
  unfolding connection_lost_def
  using R_trans [OF assms R_OnConnectionClosed] by (simp add: R_refl)

lemma with_connection_lost:
  assumes "\<And>w c. R w (connection_lost gone c w)"
  shows "stream_effects R gone (connection_lost gone)"
  by unfold_locales
    (rule R_refl R_gone assms R_steps | erule (1) R_trans)+

lemma with_disconnect:
  assumes "\<And>w e. R w (w\<lparr>cn_connected := False, cn_error := e\<rparr>)"
  shows "stream_effects R gone (connection_lost gone)"
  by (rule with_connection_lost [OF R_connection_lost [OF assms]])

lemma R_OnFinRead: "(\<And>f v. R v (emit f v)) \<Longrightarrow> R w (QuicStream_OnFinRead emit gone w)"
  unfolding QuicStream_OnFinRead_def by (rule R_trans [OF R_fin_received R_CloseReadSide])

lemma R_MaybeCloseStream:
  assumes "\<And>v. R v (fin_read v)" "\<And>v. R v (avail v)"
  shows "R w (QuicStreamSequencer_MaybeCloseStream fin_read avail w)"
  unfolding QuicStreamSequencer_MaybeCloseStream_def Let_def
  using assms by (auto simp: R_refl intro: R_trans [OF _ R_clear])

lemma R_after_flush:
  assumes e: "\<And>f v. R v (emit f v)" and u: "R u (w\<lparr>sq_buffer := snd (QuicStreamSequencerBuffer_FlushBufferedFrames (sq_buffer w))\<rparr>)"
  shows "R u (QuicStreamSequencer_FlushBufferedFrames emit gone w)"
proof -
  obtain n b where f: "QuicStreamSequencerBuffer_FlushBufferedFrames (sq_buffer w) = (n, b)" by fastforce
  have "R u (QuicStream_AddBytesConsumed emit n (w\<lparr>sq_buffer := b\<rparr>))"
    using R_trans [OF u R_AddBytesConsumed [OF e]] f by simp
  then show ?thesis unfolding QuicStreamSequencer_FlushBufferedFrames_def f prod.case
    by (rule R_trans) (rule R_MaybeCloseStream [OF R_OnFinRead [OF e] R_refl])
qed

lemma R_StopReading:
  assumes e: "\<And>f v. R v (emit f v)"
  shows "R w (QuicStreamSequencer_StopReading emit gone w)"
proof -
  have "R w (QuicStreamSequencer_FlushBufferedFrames emit gone (w\<lparr>sq_ignore_read_data := True\<rparr>))"
    by (rule R_after_flush [OF e]) (use R_discard [of w] in simp)
  then show ?thesis unfolding QuicStreamSequencer_StopReading_def by (simp add: R_refl)
qed

lemma R_QuicStream_StopReading: "R w (QuicStream_StopReading lost gone w)"
  unfolding QuicStream_StopReading_def by (rule R_StopReading [OF R_write_frame])

lemma R_MaybeSendStopSending:
  "(\<And>f v. R v (emit f v)) \<Longrightarrow> R w (QuicStream_MaybeSendStopSending emit gone err w)"
  unfolding QuicStream_MaybeSendStopSending_def
  by (auto simp: R_refl intro: R_trans [OF R_trans [OF _ R_stop_sending_sent] R_CloseReadSide])

lemma R_MaybeSendRstStream:
  "(\<And>f v. R v (emit f v)) \<Longrightarrow> R w (QuicStream_MaybeSendRstStream emit gone err w)"
  unfolding QuicStream_MaybeSendRstStream_def
  by (auto simp: R_refl intro: R_trans [OF R_trans [OF _ R_rst_sent] R_CloseWriteSide])

lemma R_flush_frames: "R w (flush_frames lost w)"
  unfolding flush_frames_def
  using R_next_outcome [of w] by (auto simp: R_refl split: prod.split intro: R_trans [OF _ R_lost])

lemma R_Reset: "R w (QuicStream_Reset lost gone err w)"
  unfolding QuicStream_Reset_def
  by (rule R_trans [OF R_trans [OF R_trans [OF R_error R_MaybeSendStopSending] R_MaybeSendRstStream] R_flush_frames])
    (rule R_queue_frame)+

section \<open>Reading and writing\<close>

lemma R_MaybeSendBlocked:
  assumes e: "\<And>f v. R v (emit f v)"
  shows "R w (QuicStream_MaybeSendBlocked emit w)"
proof -
  have "R w (emit_opt emit BlockedConnection u2 ((emit_opt emit BlockedStream u1 (w\<lparr>st_flow := a\<rparr>))\<lparr>cn_flow := b\<rparr>))"
    for u1 u2 a b
    by (rule R_trans [OF R_trans [OF R_trans [OF R_flow R_emit_opt] R_session_flow] R_emit_opt]) (rule e)+
  then show ?thesis
    unfolding QuicStream_MaybeSendBlocked_def Let_def MarkConnectionLevelWriteBlocked_def
    by (auto split: prod.split intro: R_trans [OF _ R_write_blocked])
qed

lemma R_AddBytesSent: "R w (flow_AddBytesSent lost n w)"
proof -
  have one: "R v (if ok then v else lost c v)" for ok v c
    using R_lost by (simp add: R_refl)
  obtain ok fc where 1: "QuicFlowController_AddBytesSent n (st_flow w) = (ok, fc)" by fastforce
  define u where "u = (if ok then w\<lparr>st_flow := fc\<rparr> else lost QUIC_FLOW_CONTROL_SENT_TOO_MUCH_DATA (w\<lparr>st_flow := fc\<rparr>))"
  have "R w u" unfolding u_def by (rule R_trans [OF R_flow one])
  obtain ok2 fc2 where 2: "QuicFlowController_AddBytesSent n (cn_flow u) = (ok2, fc2)" by fastforce
  show ?thesis
    unfolding flow_AddBytesSent_def Let_def 1 prod.case u_def [symmetric] 2
    by (rule R_trans [OF R_trans [OF \<open>R w u\<close> R_session_flow] one])
qed

lemma R_Readv:
  assumes "R w (diverge w)"
    "\<And>err d b. QuicStreamSequencerBuffer_Readv n [] (sq_buffer w) = Some (err, d, b) \<Longrightarrow> R w (w\<lparr>sq_buffer := b\<rparr>)"
  shows "R w (snd (QuicStreamSequencer_Readv lost n w))"
proof (cases "QuicStreamSequencerBuffer_Readv n [] (sq_buffer w)")
  case None
  then show ?thesis using assms(1) by (simp add: QuicStreamSequencer_Readv_def)
next
  case (Some x)
  obtain err d b where x: "x = (err, d, b)" by (cases x)
  have "R w (w\<lparr>sq_buffer := b\<rparr>)" using assms(2) Some x by blast
  then show ?thesis using Some x R_trans [OF _ R_lost] R_trans [OF _ R_AddBytesConsumed [OF R_write_frame]]
    by (simp add: QuicStreamSequencer_Readv_def Let_def)
qed

lemma R_Read:
  assumes "R w (diverge w)"
    "\<And>err d b. QuicStreamSequencerBuffer_Readv n [] (sq_buffer w) = Some (err, d, b) \<Longrightarrow> R w (w\<lparr>sq_buffer := b\<rparr>)"
  shows "R w (snd (snd (QuictunStream_Read lost gone n w)))"
proof -
  have r: "R w (snd (QuicStreamSequencer_Readv lost n w))" by (rule R_Readv) (use assms in blast)+
  then show ?thesis using R_trans [OF r R_OnFinRead [OF R_write_frame]]
    by (simp add: QuictunStream_Read_def Let_def split_beta)
qed

end

text \<open>Contracts are closed under conjunction and under weakening to a preorder.\<close>

lemma stream_effects_conj:
  assumes "stream_effects R gone lost" "stream_effects Q gone lost"
  shows "stream_effects (\<lambda>w w'. R w w' \<and> Q w w') gone lost"
  by unfold_locales
    (blast intro: stream_effects.R_trans [OF assms(1)] stream_effects.R_trans [OF assms(2)]
     | intro conjI; rule stream_effects.R_refl [OF assms(1)] stream_effects.R_gone [OF assms(1)]
         stream_effects.R_lost [OF assms(1)] stream_effects.R_steps [OF assms(1)]
         stream_effects.R_refl [OF assms(2)] stream_effects.R_gone [OF assms(2)]
         stream_effects.R_lost [OF assms(2)] stream_effects.R_steps [OF assms(2)])+

lemma stream_effects_mono:
  assumes "stream_effects R gone lost" "\<And>w w'. R w w' \<Longrightarrow> Q w w'" "\<And>u v w. Q u v \<Longrightarrow> Q v w \<Longrightarrow> Q u w"
  shows "stream_effects Q gone lost"
  by unfold_locales
    (erule (1) assms(3)
     | rule assms(2); rule stream_effects.R_refl [OF assms(1)] stream_effects.R_gone [OF assms(1)]
         stream_effects.R_lost [OF assms(1)] stream_effects.R_steps [OF assms(1)])+

section \<open>Writing\<close>

lemma WriteOrBufferData_cases:
  obtains (dropped) "QuicStream_WriteOrBufferData lost gone data fin w = w"
      "data = [] \<and> \<not> fin \<or> st_fin_buffered w \<or> st_write_side_closed w"
    | (overflow) "QuicStream_WriteOrBufferData lost gone data fin w =
        lost QUIC_STREAM_LENGTH_OVERFLOW (w\<lparr>st_fin_buffered := fin\<rparr>)"
        "\<not> st_fin_buffered w" "\<not> st_write_side_closed w" "kMaxStreamLength < stream_offset (st_send w) + length data"
    | (accepted) "QuicStream_WriteOrBufferData lost gone data fin w = accept_data data fin w \<or>
        QuicStream_WriteOrBufferData lost gone data fin w = QuicStream_WriteBufferedData lost gone (accept_data data fin w)"
        "\<not> st_fin_buffered w" "\<not> st_write_side_closed w"
        "data = [] \<or> stream_offset (st_send w) + length data \<le> kMaxStreamLength"
proof -
  consider (d) "data = [] \<and> \<not> fin \<or> st_fin_buffered w \<or> st_write_side_closed w"
    | (o) "\<not> st_fin_buffered w" "\<not> st_write_side_closed w" "data \<noteq> []"
        "kMaxStreamLength - stream_offset (st_send w) < length data"
    | (t) "\<not> st_fin_buffered w" "\<not> st_write_side_closed w" "data \<noteq> [] \<or> fin"
        "data = [] \<or> length data \<le> kMaxStreamLength - stream_offset (st_send w)"
    using not_less by blast
  then show thesis
  proof cases
    case d
    then show thesis using dropped by (auto simp: QuicStream_WriteOrBufferData_def)
  next
    case o
    then show thesis using overflow by (simp add: QuicStream_WriteOrBufferData_def Let_def)
  next
    case t
    then have "data = [] \<or> stream_offset (st_send w) + length data \<le> kMaxStreamLength" by (cases data) auto
    moreover have "QuicStream_WriteOrBufferData lost gone data fin w = accept_data data fin w \<or>
        QuicStream_WriteOrBufferData lost gone data fin w = QuicStream_WriteBufferedData lost gone (accept_data data fin w)"
      using t unfolding QuicStream_WriteOrBufferData_def accept_data_def Let_def by (cases "data = []") auto
    ultimately show thesis using accepted t by blast
  qed
qed

text \<open>Sending records what is sent: new data from the end of what was written, never
  more than is buffered, and the fin with the last of it.  Losing the connection or
  the stream leaves the send side as it is.\<close>

definition same_send :: "'a quic_stream_scheme \<Rightarrow> 'a quic_stream_scheme \<Rightarrow> bool" where
  "same_send w w' \<longleftrightarrow>
     st_send w' = st_send w \<and> st_fin_buffered w' = st_fin_buffered w \<and> st_fin_lost w' = st_fin_lost w"

lemma same_send_effects:
  assumes "\<And>w. same_send w (gone w)" "\<And>c w. same_send w (lost c w)"
  shows "stream_effects same_send gone lost"
  by unfold_locales (use assms in \<open>auto simp: same_send_def\<close>)

locale stream_writes = stream_effects +
  assumes gone_send: "same_send w (gone w)"
    and lost_send: "same_send w (lost c w)"
    and R_record: "n \<le> QuicStream_BufferedDataBytes w \<Longrightarrow>
      (f \<Longrightarrow> st_fin_buffered w \<and> n = QuicStream_BufferedDataBytes w) \<Longrightarrow>
      R w (record_data (stream_bytes_written (st_send w)) n f w)"
    and R_consumed: "n \<le> QuicStream_BufferedDataBytes w \<Longrightarrow> R w (QuicStream_OnStreamDataConsumed n w)"
    and R_fin_sent: "st_fin_buffered w \<Longrightarrow> QuicStream_BufferedDataBytes w = 0 \<Longrightarrow>
      R w (w\<lparr>st_fin_sent := True, st_fin_outstanding := True\<rparr>)"
begin

lemma same_send_facts:
  "same_send w (QuicStream_MaybeSendBlocked (write_frame lost) w)" "same_send w (flow_AddBytesSent lost n w)"
proof -
  have e: "stream_effects same_send gone lost" by (rule same_send_effects [OF gone_send lost_send])
  note e1 = stream_effects.R_write_frame [OF e]
  show "same_send w (QuicStream_MaybeSendBlocked (write_frame lost) w)" by (rule stream_effects.R_MaybeSendBlocked [OF e e1])
  show "same_send w (flow_AddBytesSent lost n w)" by (rule stream_effects.R_AddBytesSent [OF e])
qed

lemma WritevData_facts:
  assumes w: "QuicSession_WritevData lost off len fin w = (c, fc, w')"
  shows "c \<le> len" "same_send w w'" "fc \<Longrightarrow> fin \<and> c = len"
proof -
  obtain o1 w1 where w1: "next_outcome w = (o1, w1)" by fastforce
  have "same_send w w1" using w1 by (auto simp: next_outcome_def same_send_def split: list.splits)
  then have s: "same_send w (record_data off n f w1)" for n f by (simp add: same_send_def record_data_def)
  have "same_send w (lost k (record_data off n f w1))" for k n f
    using s [of n f] lost_send [of "record_data off n f w1" k] by (simp add: same_send_def)
  then show "c \<le> len" "same_send w w'" "fc \<Longrightarrow> fin \<and> c = len"
    using w w1 s \<open>same_send w w1\<close> by (auto simp: QuicSession_WritevData_def same_send_def Let_def
        split: if_splits write_outcome.splits)
qed

lemma R_WritevData:
  assumes r: "\<And>v n f. same_send w v \<Longrightarrow> n \<le> len \<Longrightarrow> (f \<Longrightarrow> fin \<and> n = len) \<Longrightarrow> R v (record_data off n f v)"
  shows "R w (snd (snd (QuicSession_WritevData lost off len fin w)))"
proof (cases "cn_connected w")
  case True
  obtain o1 w1 where w1: "next_outcome w = (o1, w1)" by fastforce
  have w: "R w w1" using R_next_outcome [of w] w1 by simp
  have "same_send w w1" using w1 by (auto simp: next_outcome_def same_send_def split: list.splits)
  then have "R w (record_data off (min n len) (fin \<and> f \<and> min n len = len) w1)" for n f
    by (intro R_trans [OF w r]) simp_all
  then show ?thesis using w1 True w R_trans [OF _ R_lost]
    by (auto simp: QuicSession_WritevData_def Let_def split: write_outcome.split)
qed (simp add: QuicSession_WritevData_def R_refl)

lemma R_after_write:
  assumes "fin \<Longrightarrow> fc \<Longrightarrow> c = l \<Longrightarrow> st_fin_buffered w \<and> QuicStream_BufferedDataBytes w = 0"
  shows "R w (after_write lost gone l fin zero c fc w)"
proof -
  define v where "v = (if \<not> zero then QuicStream_MaybeSendBlocked (write_frame lost) w else w)"
  have v: "R w v" by (auto simp: v_def R_refl intro: R_MaybeSendBlocked [OF R_write_frame])
  have s: "same_send w v" using same_send_facts(1) [of w] by (simp add: v_def same_send_def)
  have f: "R w (QuicStream_CloseWriteSide (write_frame lost) gone (note_fin_sent v))"
    if "st_fin_buffered w" "QuicStream_BufferedDataBytes w = 0"
  proof -
    have "R v (v\<lparr>st_fin_sent := True, st_fin_outstanding := True\<rparr>)"
      by (rule R_fin_sent) (use s that in \<open>simp_all add: same_send_def QuicStream_BufferedDataBytes_def\<close>)
    from R_trans [OF v this] R_trans [OF R_trans [OF v this] R_draining]
    have "R w (note_fin_sent v)" by (simp add: note_fin_sent_def StreamDraining_def Let_def)
    then show ?thesis by (rule R_trans [OF _ R_CloseWriteSide [OF R_write_frame]])
  qed
  show ?thesis unfolding after_write_def Let_def v_def [symmetric] MarkConnectionLevelWriteBlocked_def
    using v f assms R_trans [OF v R_write_blocked] R_write_blocked R_refl by simp
qed

text \<open>One write of buffered data, from the session's write to the end.\<close>

lemma R_write_round:
  assumes len: "len \<le> QuicStream_BufferedDataBytes w"
    and fin: "fin \<Longrightarrow> st_fin_buffered w \<and> len = QuicStream_BufferedDataBytes w"
    and w: "QuicSession_WritevData lost (stream_bytes_written (st_send w)) len fin w = (c, fc, v)"
  shows "R w (after_write lost gone len fin zero c fc (flow_AddBytesSent lost c (QuicStream_OnStreamDataConsumed c v)))"
proof -
  note facts = WritevData_facts [OF w]
  have b: "QuicStream_BufferedDataBytes v = QuicStream_BufferedDataBytes w" "st_fin_buffered v = st_fin_buffered w"
    using facts(2) by (simp_all add: same_send_def QuicStream_BufferedDataBytes_def)
  have "R u (record_data (stream_bytes_written (st_send w)) n f u)"
    if "same_send w u" "n \<le> len" "f \<Longrightarrow> fin \<and> n = len" for u n f
    using R_record [of n u f] that len fin by (simp add: QuicStream_BufferedDataBytes_def same_send_def)
  then have "R w v" using R_WritevData [of w len fin "stream_bytes_written (st_send w)"] w by simp
  then have 1: "R w (flow_AddBytesSent lost c (QuicStream_OnStreamDataConsumed c v))"
    by (rule R_trans [OF R_trans [OF _ R_consumed] R_AddBytesSent]) (use facts len b in simp)
  have "st_fin_buffered (flow_AddBytesSent lost c (QuicStream_OnStreamDataConsumed c v)) \<and>
      QuicStream_BufferedDataBytes (flow_AddBytesSent lost c (QuicStream_OnStreamDataConsumed c v)) = 0"
    if "fin" "c = len"
    using same_send_facts(2) [of "QuicStream_OnStreamDataConsumed c v" c] fin that b
    by (simp add: same_send_def QuicStream_BufferedDataBytes_def QuicStream_OnStreamDataConsumed_def
        SendBuffer_OnStreamDataConsumed_def)
  then show ?thesis by (intro R_trans [OF 1 R_after_write]) simp
qed

lemma R_WriteBufferedData: "R w (QuicStream_WriteBufferedData lost gone w)"
proof -
  let ?b = "QuicStream_BufferedDataBytes w" and ?x = "QuicStream_CalculateSendWindowSize w"
  let ?fin = "st_fin_buffered w \<and> ?b \<le> ?x"
  have "R w (case QuicSession_WritevData lost (stream_bytes_written (st_send w)) (min ?b ?x) ?fin w
      of (c, fc, v) \<Rightarrow>
      after_write lost gone (min ?b ?x) ?fin zero c fc (flow_AddBytesSent lost c (QuicStream_OnStreamDataConsumed c v)))"
    for zero
    by (auto split: prod.split intro!: R_write_round)
  then show ?thesis
    unfolding QuicStream_WriteBufferedData_def Let_def MarkConnectionLevelWriteBlocked_def
    using R_trans [OF R_next_outcome R_write_blocked] R_MaybeSendBlocked [OF R_write_frame] by simp
qed

text \<open>What \<open>WriteOrBufferData\<close> leads to, from an earlier state \<open>u\<close>.\<close>

lemma R_WriteOrBufferData:
  assumes drop: "R u w" and take: "R u (accept_data data fin w)" and fin: "R u (w\<lparr>st_fin_buffered := fin\<rparr>)"
  shows "R u (QuicStream_WriteOrBufferData lost gone data fin w)"
  using drop take R_trans [OF take R_WriteBufferedData] R_trans [OF fin R_lost]
  by (cases lost gone data fin w rule: WriteOrBufferData_cases) auto

end

lemma stream_writes_conj:
  assumes "stream_writes R gone lost" "stream_writes Q gone lost"
  shows "stream_writes (\<lambda>w w'. R w w' \<and> Q w w') gone lost"
  using assms stream_effects_conj [of R gone lost Q] unfolding stream_writes_def stream_writes_axioms_def by simp

lemma stream_writes_mono:
  assumes "stream_writes R gone lost" "\<And>w w'. R w w' \<Longrightarrow> Q w w'" "\<And>u v w. Q u v \<Longrightarrow> Q v w \<Longrightarrow> Q u w"
  shows "stream_writes Q gone lost"
  using assms stream_effects_mono [of R gone lost Q] unfolding stream_writes_def stream_writes_axioms_def by simp

section \<open>Frames from the peer\<close>

locale stream_receives = stream_effects R gone lost
  for R :: "'a quic_stream_scheme \<Rightarrow> 'a quic_stream_scheme \<Rightarrow> bool"
    and gone :: "'a handler" and lost :: "QuicErrorCode \<Rightarrow> 'a handler" +
  fixes avail :: "'a handler"
  assumes R_avail: "R w (avail w)"
    and R_highest: "R w (w\<lparr>sq_highest_offset := n\<rparr>)"
    and R_close_offset: "R w (w\<lparr>sq_close_offset := n\<rparr>)"
    and R_frames_received: "R w (w\<lparr>sq_frames_received := n\<rparr>)"
    and R_duplicate: "R w (w\<lparr>sq_duplicate_frames := n\<rparr>)"
    and R_bytes_read: "R w (w\<lparr>st_bytes_read := n\<rparr>)"
    and R_rst_received: "R w (w\<lparr>st_rst_received := True\<rparr>)"
begin

text \<open>Taking a frame into the buffer depends on more than the state.  That the update
  it makes is in \<open>R\<close> is a premise: for a frame that is kept, for one that is discarded at
  once, and for the loss of the connection after a rejected frame.\<close>

definition taken :: "nat \<Rightarrow> bytes \<Rightarrow> 'a quic_stream_scheme \<Rightarrow> bool" where
  "taken off data w =
     (case QuicStreamSequencerBuffer_OnStreamData off data (sq_buffer w) of
        None \<Rightarrow> R w (diverge w)
      | Some (err, n, b) \<Rightarrow>
          let v = w\<lparr>sq_buffer := b\<rparr>
          in R w (if err \<noteq> QUIC_NO_ERROR then lost err v
             else if sq_ignore_read_data w \<and> \<not> sq_blocked w \<and> n \<noteq> 0 \<and> readable_changed v (ReadableBytes (sq_buffer w))
             then v\<lparr>sq_buffer := snd (QuicStreamSequencerBuffer_FlushBufferedFrames b)\<rparr> else v))"

lemma R_OnFrameData:
  assumes t: "\<And>h. taken off data (w\<lparr>sq_highest_offset := h\<rparr>)"
  shows "R w (QuicStreamSequencer_OnFrameData lost gone avail off data w)"
proof -
  define u where "u = w\<lparr>sq_highest_offset := max (sq_highest_offset w) (off + length data)\<rparr>"
  have u: "R w u" by (simp add: u_def R_highest)
  have t: "taken off data u" unfolding u_def by (rule t)
  note def = QuicStreamSequencer_OnFrameData_def [of lost gone avail off data w, unfolded Let_def, folded u_def]
  show ?thesis
  proof (cases "QuicStreamSequencerBuffer_OnStreamData off data (sq_buffer u)")
    case None
    then show ?thesis using t R_trans [OF u] by (simp add: def taken_def)
  next
    case (Some x)
    obtain err n b where x: "x = (err, n, b)" by (cases x)
    let ?v = "u\<lparr>sq_buffer := b\<rparr>"
    have flush: "R w (QuicStreamSequencer_FlushBufferedFrames (write_frame lost) gone ?v)"
      if "R u (u\<lparr>sq_buffer := snd (QuicStreamSequencerBuffer_FlushBufferedFrames b)\<rparr>)"
      by (rule R_trans [OF u R_after_flush [OF R_write_frame]]) (use that in simp)
    have kept: "R w (?v\<lparr>sq_duplicate_frames := k\<rparr>)" "R w ?v" "R w (avail ?v)" if "R u ?v" for k
      using R_trans [OF u that] R_trans [OF R_trans [OF u that]] R_duplicate R_avail by auto
    show ?thesis using t kept flush R_trans [OF u]
      by (auto simp: def taken_def Some x Let_def)
  qed
qed

lemma R_CloseStreamAtOffset: "R w (snd (QuicStreamSequencer_CloseStreamAtOffset lost gone avail off w))"
proof -
  have "R w (QuicStreamSequencer_MaybeCloseStream (QuicStream_OnFinRead (write_frame lost) gone) avail
      (w\<lparr>sq_close_offset := off\<rparr>))"
    by (rule R_trans [OF R_close_offset R_MaybeCloseStream]) (rule R_OnFinRead [OF R_write_frame] R_avail)+
  then show ?thesis unfolding QuicStreamSequencer_CloseStreamAtOffset_def
    by (cases "sq_close_offset w \<noteq> kMaxOffset \<and> off \<noteq> sq_close_offset w"; cases "off < sq_highest_offset w")
      (simp_all add: R_lost)
qed

text \<open>A frame with a fin that was consumed before is taken after the application was
  told; every other frame meets the buffer as it was.\<close>

lemma R_sequencer_frame:
  assumes fresh: "\<And>v. sq_buffer v = sq_buffer w \<Longrightarrow> cn_connected v = cn_connected w \<Longrightarrow>
      st_read_side_closed v = st_read_side_closed w \<Longrightarrow> data \<noteq> [] \<Longrightarrow> taken off data v"
    and late: "\<And>v. R w v \<Longrightarrow> fin \<Longrightarrow> data \<noteq> [] \<Longrightarrow> off + length data \<le> total_bytes_read (sq_buffer w) \<Longrightarrow>
      taken off data v"
  shows "R w (QuicStreamSequencer_OnStreamFrame lost gone avail off data fin w)"
proof -
  define u where "u = w\<lparr>sq_frames_received := sq_frames_received w + 1\<rparr>"
  have u: "R w u" by (simp add: u_def R_frames_received)
  have d1: "R v (QuicStreamSequencer_OnFrameData lost gone avail off data v)"
    if "data \<noteq> []" "sq_buffer v = sq_buffer w" "cn_connected v = cn_connected w"
      "st_read_side_closed v = st_read_side_closed w" for v
    by (rule R_OnFrameData [OF fresh]) (use that in simp_all)
  have d2: "R v (QuicStreamSequencer_OnFrameData lost gone avail off data v)"
    if "data \<noteq> []" "fin" "off + length data \<le> total_bytes_read (sq_buffer w)" "R w v" for v
    by (rule R_OnFrameData [OF late [OF R_trans [OF \<open>R w v\<close> R_highest]]]) (use that in simp_all)
  obtain ok v where c: "QuicStreamSequencer_CloseStreamAtOffset lost gone avail (off + length data) u = (ok, v)"
    by fastforce
  have v: "R w v" using R_trans [OF u R_CloseStreamAtOffset [of u "off + length data"]] c by simp
  have "R w (QuicStreamSequencer_OnFrameData lost gone avail off data v)" if "data \<noteq> []" "fin" "ok"
  proof (cases "off + length data \<le> total_bytes_read (sq_buffer w)")
    case True
    then show ?thesis using R_trans [OF v d2] that v by blast
  next
    case False
    then have "v = u\<lparr>sq_close_offset := off + length data\<rparr>"
      using c \<open>ok\<close> by (auto simp: QuicStreamSequencer_CloseStreamAtOffset_def u_def
          QuicStreamSequencer_MaybeCloseStream_def QuicStreamSequencer_IsClosed_def split: if_splits)
    then show ?thesis using R_trans [OF v d1] that by (simp add: u_def)
  qed
  moreover have "R w (QuicStreamSequencer_OnFrameData lost gone avail off data u)" if "data \<noteq> []"
    using R_trans [OF u d1] that by (simp add: u_def)
  ultimately show ?thesis
    unfolding QuicStreamSequencer_OnStreamFrame_def Let_def u_def [symmetric] c prod.case using u v by simp
qed

lemma R_MaybeIncreaseHighest: "R w (snd (QuicStream_MaybeIncreaseHighestReceivedOffset x w))"
  using R_flow R_trans [OF R_flow R_session_flow]
  by (simp add: QuicStream_MaybeIncreaseHighestReceivedOffset_def Let_def split: prod.split)

lemma R_note_fin: "R w (note_fin fin w)"
  using R_fin_received R_trans [OF R_fin_received R_draining]
  by (simp add: note_fin_def StreamDraining_def Let_def R_refl)

lemma R_OnStreamFrame:
  assumes fresh: "\<And>v. off + length data \<le> kMaxStreamLength \<Longrightarrow> sq_buffer v = sq_buffer w \<Longrightarrow>
      cn_connected v = cn_connected w \<Longrightarrow> \<not> st_read_side_closed v \<Longrightarrow> data \<noteq> [] \<Longrightarrow> taken off data v"
    and late: "\<And>v. off + length data \<le> kMaxStreamLength \<Longrightarrow> R w v \<Longrightarrow> fin \<Longrightarrow> data \<noteq> [] \<Longrightarrow>
      off + length data \<le> total_bytes_read (sq_buffer w) \<Longrightarrow> taken off data v"
  shows "R w (QuicStream_OnStreamFrame lost gone avail off data fin w)"
proof (cases "off > kMaxStreamLength \<or> kMaxStreamLength - off < length data")
  case True
  then show ?thesis by (simp add: QuicStream_OnStreamFrame_def R_lost)
next
  case small: False
  define u where "u = note_fin fin w"
  define v where "v = u\<lparr>st_bytes_read := st_bytes_read u + length data\<rparr>"
  obtain i x where x: "(i, x) = (if data \<noteq> [] then QuicStream_MaybeIncreaseHighestReceivedOffset (off + length data) v
      else (False, v))" by (metis surj_pair)
  have u: "R w u" by (simp add: u_def R_note_fin)
  have v: "R w v" using R_trans [OF u R_bytes_read] by (simp add: v_def)
  have x2: "x = v \<or> x = snd (QuicStream_MaybeIncreaseHighestReceivedOffset (off + length data) v)"
    using x by (auto split: if_splits) (metis snd_conv)
  then have wx: "R w x" using v R_trans [OF v R_MaybeIncreaseHighest] by auto
  have same: "sq_buffer x = sq_buffer w" "cn_connected x = cn_connected w" "st_read_side_closed x = st_read_side_closed u"
    using x2 by (auto simp: v_def u_def)
  have "R x (QuicStreamSequencer_OnStreamFrame lost gone avail off data fin x)" if "\<not> st_read_side_closed u"
    by (rule R_sequencer_frame [OF fresh late [OF _ R_trans [OF wx]]]) (use small same that in auto)
  then show ?thesis
    unfolding QuicStream_OnStreamFrame_def Let_def u_def [symmetric] v_def [symmetric] x [symmetric] prod.case
    using R_lost u R_trans [OF wx R_lost] R_trans [OF wx] small by simp
qed

lemma R_OnStopSending: "R w (QuicStream_OnStopSending lost gone err w)"
  unfolding QuicStream_OnStopSending_def
  using R_trans [OF R_error R_MaybeSendRstStream [OF R_write_frame]] by (simp add: R_refl)

lemma R_OnStreamReset: "R w (QuicStream_OnStreamReset lost gone err off w)"
proof -
  define u where "u = w\<lparr>st_rst_received := True\<rparr>"
  have u: "R w u" by (simp add: u_def R_rst_received)
  obtain i x where x: "QuicStream_MaybeIncreaseHighestReceivedOffset off u = (i, x)" by fastforce
  have wx: "R w x" using R_trans [OF u R_MaybeIncreaseHighest [of u off]] x by simp
  show ?thesis
    unfolding QuicStream_OnStreamReset_def Let_def u_def [symmetric] x prod.case
    using R_trans [OF u R_lost] R_trans [OF wx R_lost]
      R_trans [OF R_trans [OF wx R_error] R_CloseReadSide [OF R_write_frame]] by simp
qed

lemma R_OnWindowUpdateFrame: "R w (QuicStream_OnWindowUpdateFrame n w)"
  unfolding QuicStream_OnWindowUpdateFrame_def
  using R_flow R_trans [OF R_flow R_write_blocked] by (simp split: prod.split)

end

section \<open>Events of the packet layer\<close>

lemma Retransmitted_first:
  assumes p: "pending_retransmissions sb = i # rest" and s: "separated_list (i # rest)"
  shows "pending_retransmissions (SendBuffer_OnStreamDataRetransmitted (fst i) (snd i - fst i) sb) = rest"
proof -
  let ?d = "QuicIntervalSet_Difference (QuicIntervalSet_Add i []) (i # rest)"
  have "separated_list ?d" "points ?d = points (i # rest) - {fst i..<snd i}"
    using Difference_correct [OF s single_separated [of i]] by (simp_all only: single_points)
  then have "?d = rest"
    using s separated_unique separated_tail_points [OF s] by (metis separated_simps(2))
  moreover have "(fst i, fst i + (snd i - fst i)) = i" "snd i - fst i \<noteq> 0" using s by simp_all
  ultimately show ?thesis by (simp add: SendBuffer_OnStreamDataRetransmitted_def p)
qed

locale stream_sends = stream_writes R gone lost
  for R :: "'a quic_stream_scheme \<Rightarrow> 'a quic_stream_scheme \<Rightarrow> bool"
    and gone :: "'a handler" and lost :: "QuicErrorCode \<Rightarrow> 'a handler" +
  fixes can_write :: "'a handler"
  assumes R_can_write: "R w (can_write w)"
    and R_record_again: "pending_retransmissions (st_send w) \<noteq> [] \<Longrightarrow>
      NextPendingRetransmission (st_send w) = (off, len) \<Longrightarrow> n \<le> len \<Longrightarrow>
      (f \<Longrightarrow> st_fin_lost w \<and> off + n = stream_bytes_written (st_send w)) \<Longrightarrow> R w (record_data off n f w)"
    and R_record_fin: "(f \<Longrightarrow> st_fin_lost w) \<Longrightarrow> R w (record_data (stream_bytes_written (st_send w)) 0 f w)"
    and R_retransmitted: "R w (w\<lparr>st_send := SendBuffer_OnStreamDataRetransmitted off len (st_send w)\<rparr>)"
    and R_fin_acked: "R w (w\<lparr>st_fin_outstanding := False, st_fin_lost := False\<rparr>)"
    and R_fin_lost: "(b \<Longrightarrow> st_fin_outstanding w \<or> st_fin_lost w) \<Longrightarrow> R w (w\<lparr>st_fin_lost := b\<rparr>)"
    and R_recvd_notified: "R w (w\<lparr>st_data_recvd_notified := True\<rparr>)"
begin

lemma R_OnStreamFrameAcked:
  assumes "\<And>ok n sb. SendBuffer_OnStreamDataAcked off len (st_send w) = (ok, n, sb) \<Longrightarrow> R w (w\<lparr>st_send := sb\<rparr>)"
  shows "R w (snd (QuicStream_OnStreamFrameAcked lost off len fin w))"
proof -
  obtain ok n sb where a: "SendBuffer_OnStreamDataAcked off len (st_send w) = (ok, n, sb)" by (metis prod_cases3)
  define u where "u = w\<lparr>st_send := sb\<rparr>"
  have u: "R w u" unfolding u_def by (rule assms [OF a])
  define v where "v = (if fin then u\<lparr>st_fin_outstanding := False, st_fin_lost := False\<rparr> else u)"
  have v: "R w v" using u R_trans [OF u R_fin_acked] by (simp add: v_def)
  show ?thesis
    unfolding QuicStream_OnStreamFrameAcked_def a prod.case Let_def u_def [symmetric] v_def [symmetric]
    using R_trans [OF u R_lost] v R_trans [OF v R_recvd_notified] by simp
qed

lemma R_OnStreamFrameLost:
  assumes "len > 0 \<Longrightarrow> R w (w\<lparr>st_send := SendBuffer_OnStreamDataLost off len (st_send w)\<rparr>)"
  shows "R w (QuicStream_OnStreamFrameLost off len fin w)"
  unfolding QuicStream_OnStreamFrameLost_def Let_def
  using assms R_fin_lost [of True] R_trans [OF assms R_fin_lost [of True]] by (simp add: R_refl)

lemma R_OnStreamFrameRetransmitted: "R w (QuicStream_OnStreamFrameRetransmitted off len fin w)"
  unfolding QuicStream_OnStreamFrameRetransmitted_def Let_def
  using R_retransmitted R_trans [OF R_retransmitted R_fin_lost [of False]] by simp

lemma R_retransmit_step:
  assumes p: "QuicStream_HasPendingRetransmission w"
  shows "R w (snd (retransmit_step lost w))"
proof (cases "pending_retransmissions (st_send w) = []")
  case True
  obtain c fc v where v: "QuicSession_WritevData lost (stream_bytes_written (st_send w)) 0 True w = (c, fc, v)"
    by (metis prod_cases3)
  have "st_fin_lost w" using True p by (simp add: QuicStream_HasPendingRetransmission_def)
  then have "R u (record_data (stream_bytes_written (st_send w)) n f u)" if "same_send w u" "n \<le> 0" for u n f
    using R_record_fin [of f u] that by (simp add: same_send_def)
  then have r: "R w v" using R_WritevData [of w 0 True "stream_bytes_written (st_send w)"] v by simp
  have "R v (v\<lparr>st_fin_lost := \<not> fc\<rparr>)"
    by (rule R_fin_lost) (use WritevData_facts(2) [OF v] \<open>st_fin_lost w\<close> in \<open>simp add: same_send_def\<close>)
  from R_trans [OF r this] v True show ?thesis by (simp add: retransmit_step_def)
next
  case False
  obtain off len where n: "NextPendingRetransmission (st_send w) = (off, len)" by fastforce
  have "R v (record_data off k f v)"
    if "same_send w v" "k \<le> len" "f \<Longrightarrow> (st_fin_lost w \<and> off + len = stream_bytes_written (st_send w)) \<and> k = len" for v k f
    using R_record_again [of v off len k f] that n False by (simp add: same_send_def)
  from R_trans [OF R_WritevData [OF this] R_OnStreamFrameRetransmitted] False n show ?thesis
    by (simp add: retransmit_step_def split_beta Let_def)
qed

lemma retransmit_step_pending:
  assumes "retransmit_step lost w = (True, w')" "separated_list (pending_retransmissions (st_send w))"
  shows "case pending_retransmissions (st_send w) of
    [] \<Rightarrow> \<not> QuicStream_HasPendingRetransmission w' | _ # rest \<Rightarrow> pending_retransmissions (st_send w') = rest"
proof (cases "pending_retransmissions (st_send w)")
  case Nil
  then show ?thesis using assms WritevData_facts(2) [of "stream_bytes_written (st_send w)" 0 True w]
    by (auto simp: retransmit_step_def QuicStream_HasPendingRetransmission_def same_send_def split: prod.splits)
next
  case (Cons i rest)
  let ?off = "fst i" and ?len = "snd i - fst i"
  let ?b = "st_fin_lost w \<and> ?off + ?len = stream_bytes_written (st_send w)"
  obtain c fc v where v: "QuicSession_WritevData lost ?off ?len ?b w = (c, fc, v)" by (metis prod_cases3)
  have "c = ?len" and w': "w' = QuicStream_OnStreamFrameRetransmitted ?off c fc v"
    using assms(1) WritevData_facts(1) [OF v] v Cons
    by (auto simp: retransmit_step_def NextPendingRetransmission_def Let_def)
  then have "pending_retransmissions (st_send w') = pending_retransmissions (SendBuffer_OnStreamDataRetransmitted ?off ?len (st_send w))"
    using WritevData_facts(2) [OF v] by (simp add: QuicStream_OnStreamFrameRetransmitted_def same_send_def Let_def)
  then show ?thesis using Retransmitted_first assms(2) Cons by simp
qed

lemma R_retransmit_rounds:
  "separated_list (pending_retransmissions (st_send w)) \<Longrightarrow>
   length (pending_retransmissions (st_send w)) < fuel \<Longrightarrow> R w (retransmit_rounds fuel lost w)"
proof (induction fuel arbitrary: w)
  case (Suc fuel)
  obtain g v where v: "retransmit_step lost w = (g, v)" by fastforce
  have r: "R w v" if "QuicStream_HasPendingRetransmission w" using R_retransmit_step [OF that] v by simp
  have "R v (retransmit_rounds fuel lost v)" if "g"
  proof (cases "pending_retransmissions (st_send w)")
    case Nil
    then show ?thesis using retransmit_step_pending [of w v] v that Suc.prems(1)
      by (subst retransmit_rounds.simps) (simp add: R_refl)
  next
    case (Cons i rest)
    then show ?thesis using retransmit_step_pending [of w v] v that Suc by simp
  qed
  then show ?case using v r R_trans [OF r] R_refl
    by (cases "QuicStream_HasPendingRetransmission w") (subst retransmit_rounds.simps, simp)+
qed simp

lemma R_OnCanWrite:
  assumes "separated_list (pending_retransmissions (st_send w))"
  shows "R w (QuicStream_OnCanWrite lost gone can_write w)"
proof -
  define v where "v = (if QuicStream_HasBufferedData w \<or> (st_fin_buffered w \<and> \<not> st_fin_sent w)
      then QuicStream_WriteBufferedData lost gone w else w)"
  have v: "R w v" by (simp add: v_def R_refl R_WriteBufferedData)
  show ?thesis
    unfolding QuicStream_OnCanWrite_def QuicStream_WritePendingRetransmission_def Let_def v_def [symmetric]
    using v R_trans [OF v R_can_write] R_retransmit_rounds [OF assms] by (simp add: R_refl)
qed

end

end
