(* ===== verification/Tunnel.thy ===== *)
theory Tunnel
  imports Accepted_Socket Idle_Tracker Stream_Effects
begin

text \<open>
  \<open>QuictunTunnel\<close> (\<open>quictun_tunnel.h\<close>, \<open>quictun_tunnel.cc\<close>): the pump between one QUIC
  stream and one TCP socket.  The state extends the stream and the socket with the
  fields of the class and with the idle tracker the tunnel files itself in;
  \<open>tk_activity\<close> gives \<open>last_activity_\<close> of every tunnel of the tracker.

  Both legs call back inline.  A receive that completes at once calls
  \<open>ReceiveComplete\<close>, which starts the next receive; a send that completes at once calls
  \<open>SendComplete\<close>, which starts the next send.  The answers of the kernel to the
  successive calls of one event are a list, and both recursions go down that list;
  an answer after its end is "would block".  A write to the stream that fails closes
  the connection and with it the stream, and \<open>OnStreamGone\<close> runs before the write
  returns: \<open>tn_gone\<close> and \<open>tn_lost\<close> below are passed to the operations of the stream.
  Inside \<open>Close\<close> the flag \<open>closed_\<close> is set, \<open>OnStreamGone\<close> and the completions of the
  socket return at their first line, and the handlers passed there are what is left
  of them.

  \<open>oc\<close> is the callback \<open>on_closed_\<close>, an operation of the owner.  \<open>tn_read\<close>, \<open>tn_seed\<close>,
  \<open>tn_to_socket\<close> and \<open>tn_from_tcp\<close> record the bytes that passed: what \<open>Read\<close> returned, the seed of \<open>Start\<close>,
  what was handed to \<open>SendAsync\<close> and what the socket received.
\<close>

record tunnel = tcp_socket +
  tn_id :: tunnel_id
  tn_has_socket :: bool
  tn_has_on_closed :: bool
  tn_pending_seed_data :: bytes
  tn_pending_to_tcp :: "bytes list"
  tn_send_in_flight :: bool
  tn_receive_in_flight :: bool
  tn_tcp_receive_done :: bool
  tn_flush_close_alarm :: "QuicTime option"
  tn_send_done_time :: QuicTime
  tn_quic_receive_done :: bool
  tn_closed :: bool
  tn_started :: bool
  tn_stalled :: bool
  tn_socket_disconnected :: bool
  tk_tracker :: idle_tracker
  tk_activity :: "tunnel_id \<Rightarrow> QuicTime"
  tn_seed :: bytes
  tn_read :: bytes
  tn_to_socket :: bytes
  tn_from_tcp :: bytes
  tn_close_count :: nat

type_synonym 'a tn_handler = "'a tunnel_scheme \<Rightarrow> 'a tunnel_scheme"

definition kReadSize :: nat where
  "kReadSize = 16 * 1024"

definition kMaxQueuedChunks :: nat where
  "kMaxQueuedChunks = 4"

definition kMaxFlushCloseWait :: QuicTimeDelta where
  "kMaxFlushCloseWait = seconds 3"

definition kFlushCloseRetryInterval :: QuicTimeDelta where
  "kFlushCloseRetryInterval = milliseconds 100"

definition QuictunTunnel_new :: "tunnel_id \<Rightarrow> bool \<Rightarrow> 'a tn_handler" where
  "QuictunTunnel_new i has_socket w =
     w\<lparr>tn_id := i, tn_has_socket := has_socket, tn_has_on_closed := True, tn_pending_seed_data := [],
       tn_pending_to_tcp := [], tn_send_in_flight := False, tn_receive_in_flight := False,
       tn_tcp_receive_done := False, tn_flush_close_alarm := None, tn_send_done_time := 0,
       tn_quic_receive_done := False, tn_closed := False, tn_started := False, tn_stalled := False,
       tn_socket_disconnected := False, tn_seed := [], tn_read := [], tn_to_socket := [], tn_from_tcp := [],
       tn_close_count := 0\<rparr>"

definition last_activity :: "'a tunnel_scheme \<Rightarrow> QuicTime" where
  "last_activity w = tk_activity w (tn_id w)"

definition QuictunTunnel_IsHoldingBuffer :: "'a tunnel_scheme \<Rightarrow> bool" where
  "QuictunTunnel_IsHoldingBuffer w \<longleftrightarrow>
     length (tn_pending_to_tcp w) \<ge> kMaxQueuedChunks \<or> QuicStream_HasBufferedData w"

definition QuictunTunnel_NoteActivity :: "'a tn_handler" where
  "QuictunTunnel_NoteActivity w =
     (if tn_closed w then w
      else let stalled = QuictunTunnel_IsHoldingBuffer w
           in w\<lparr>tk_activity := (tk_activity w)(tn_id w := cn_now w), tn_stalled := stalled,
                tk_tracker := QuictunIdleTracker_Touch (tn_id w) stalled (tk_tracker w)\<rparr>)"

definition QuictunTunnel_UpdateIdleClass :: "'a tn_handler" where
  "QuictunTunnel_UpdateIdleClass w =
     (if tn_closed w then w
      else let stalled = QuictunTunnel_IsHoldingBuffer w
           in if stalled = tn_stalled w then w
              else w\<lparr>tn_stalled := stalled, tk_activity := (tk_activity w)(tn_id w := cn_now w),
                     tk_tracker := QuictunIdleTracker_Refile (tn_id w) stalled (tk_tracker w)\<rparr>)"

section \<open>Close\<close>

definition closed_ReceiveComplete :: "recv_result \<Rightarrow> 'a tn_handler" where
  "closed_ReceiveComplete _ w = w\<lparr>tn_receive_in_flight := False\<rparr>"

definition closed_SendComplete :: "send_status \<Rightarrow> 'a tn_handler" where
  "closed_SendComplete _ w = w\<lparr>tn_send_in_flight := False\<rparr>"

text \<open>The steps of \<open>Close\<close>: it marks the tunnel, stops reading, disconnects the socket,
  runs the owner's callback once and resets the stream.\<close>

definition close_begin :: "'a tn_handler" where
  "close_begin w =
     (dcheck (\<not> tn_closed w) w)\<lparr>tn_closed := True, tn_flush_close_alarm := None,
       tk_tracker := QuictunIdleTracker_Remove (tn_id w) (tk_tracker w),
       tn_close_count := tn_close_count w + 1\<rparr>"

definition close_stop_reading :: "'a tn_handler" where
  "close_stop_reading w =
     (if \<not> reading_stopped w then QuicStream_StopReading (connection_lost (\<lambda>w. w)) (\<lambda>w. w) w else w)"

definition close_socket :: "'a tn_handler" where
  "close_socket w =
     (if tn_has_socket w \<and> \<not> tn_socket_disconnected w
      then QuictunAcceptedTcpSocket_Disconnect closed_ReceiveComplete closed_SendComplete
             (w\<lparr>tn_socket_disconnected := True\<rparr>)
      else w)"

definition close_notify :: "'a tn_handler \<Rightarrow> 'a tn_handler" where
  "close_notify oc w = (if tn_has_on_closed w then oc (w\<lparr>tn_has_on_closed := False\<rparr>) else w)"

definition close_reset :: "bool \<Rightarrow> 'a tn_handler" where
  "close_reset reset_stream w =
     (if reset_stream \<and> cn_connected w
      then QuicStream_Reset (connection_lost (\<lambda>w. w)) (\<lambda>w. w) QUIC_STREAM_CANCELLED w else w)"

definition QuictunTunnel_Close :: "'a tn_handler \<Rightarrow> bool \<Rightarrow> 'a tn_handler" where
  "QuictunTunnel_Close oc reset_stream w =
     close_reset reset_stream (close_notify oc (close_socket (close_stop_reading (close_begin w))))"

definition QuictunTunnel_OnStreamGone :: "'a tn_handler \<Rightarrow> 'a tn_handler" where
  "QuictunTunnel_OnStreamGone oc w = (if tn_closed w then w else QuictunTunnel_Close oc False w)"

abbreviation tn_gone :: "'a tn_handler \<Rightarrow> 'a tn_handler" where
  "tn_gone \<equiv> QuictunTunnel_OnStreamGone"

definition tn_lost :: "'a tn_handler \<Rightarrow> QuicErrorCode \<Rightarrow> 'a tn_handler" where
  "tn_lost oc = connection_lost (tn_gone oc)"

definition QuictunTunnel_MaybeFinalizeClose :: "'a tn_handler \<Rightarrow> 'a tn_handler" where
  "QuictunTunnel_MaybeFinalizeClose oc w =
     (if tn_closed w \<or> \<not> tn_tcp_receive_done w then w
      else if \<not> QuicStream_HasBufferedData w \<and> \<not> QuicStream_IsWaitingForAcks w
      then QuictunTunnel_Close oc False (w\<lparr>tn_flush_close_alarm := None\<rparr>)
      else if cn_now w - tn_send_done_time w \<ge> kMaxFlushCloseWait
      then QuictunTunnel_Close oc True (w\<lparr>tn_flush_close_alarm := None\<rparr>)
      else let deadline = min (cn_now w + kFlushCloseRetryInterval) (tn_send_done_time w + kMaxFlushCloseWait)
           in case tn_flush_close_alarm w of
                None \<Rightarrow> w\<lparr>tn_flush_close_alarm := Some deadline\<rparr>
              | Some d \<Rightarrow> if d > deadline then w\<lparr>tn_flush_close_alarm := Some deadline\<rparr> else w)"

definition QuictunTunnel_OnFlushCloseAlarm :: "'a tn_handler \<Rightarrow> 'a tn_handler" where
  "QuictunTunnel_OnFlushCloseAlarm oc w = QuictunTunnel_MaybeFinalizeClose oc (w\<lparr>tn_flush_close_alarm := None\<rparr>)"

definition begin_send_done :: "'a tn_handler \<Rightarrow> 'a tn_handler" where
  "begin_send_done oc w =
     QuictunStream_WriteToStream (tn_lost oc) (tn_gone oc) [] True
       (w\<lparr>tn_tcp_receive_done := True, tn_send_done_time := cn_now w\<rparr>)"

definition QuictunTunnel_MaybeCloseAfterQuicFin :: "'a tn_handler \<Rightarrow> 'a tn_handler" where
  "QuictunTunnel_MaybeCloseAfterQuicFin oc w =
     (if tn_closed w \<or> \<not> tn_quic_receive_done w then w
      else QuictunTunnel_MaybeFinalizeClose oc (if \<not> tn_tcp_receive_done w then begin_send_done oc w else w))"

section \<open>From TCP to QUIC\<close>

definition QuictunTunnel_ReceiveComplete :: "'a tn_handler \<Rightarrow> 'a tn_handler \<Rightarrow> recv_result \<Rightarrow> 'a tn_handler" where
  "QuictunTunnel_ReceiveComplete oc begin_read data w =
     (let w = w\<lparr>tn_receive_in_flight := False\<rparr>
      in if tn_closed w then w
         else case data of
           Received d \<Rightarrow>
             if d = [] then QuictunTunnel_MaybeFinalizeClose oc (begin_send_done oc w)
             else let w = (QuictunTunnel_NoteActivity w)\<lparr>tn_from_tcp := tn_from_tcp w @ d\<rparr>;
                      w = QuictunStream_WriteToStream (tn_lost oc) (tn_gone oc) d False w;
                      w = (if \<not> QuicStream_HasBufferedData w then begin_read w else w)
                  in QuictunTunnel_UpdateIdleClass w
         | _ \<Rightarrow> QuictunTunnel_Close oc True w)"

definition begin_read_guard :: "'a tunnel_scheme \<Rightarrow> bool" where
  "begin_read_guard w \<longleftrightarrow> tn_closed w \<or> tn_receive_in_flight w \<or> tn_tcp_receive_done w \<or> \<not> tn_has_socket w"

primrec QuictunTunnel_BeginReadFromTcp :: "recv_result list \<Rightarrow> 'a tn_handler \<Rightarrow> 'a tn_handler" where
  "QuictunTunnel_BeginReadFromTcp [] = (\<lambda>oc w.
     if begin_read_guard w then w
     else QuictunAcceptedTcpSocket_ReceiveAsync (\<lambda>_ w. w) kReadSize RecvUnavailable
            (w\<lparr>tn_receive_in_flight := True\<rparr>))"
| "QuictunTunnel_BeginReadFromTcp (r # rs) = (\<lambda>oc w.
     if begin_read_guard w then w
     else QuictunAcceptedTcpSocket_ReceiveAsync
            (QuictunTunnel_ReceiveComplete oc (QuictunTunnel_BeginReadFromTcp rs oc)) kReadSize r
            (w\<lparr>tn_receive_in_flight := True\<rparr>))"

section \<open>From QUIC to TCP\<close>

definition read_chunk :: "'a tn_handler \<Rightarrow> 'a tunnel_scheme \<Rightarrow> bytes \<times> bool \<times> 'a tunnel_scheme" where
  "read_chunk oc w =
     (case QuictunStream_Read (tn_lost oc) (tn_gone oc) kReadSize w of (data, fin, w) \<Rightarrow>
        let w = (if data \<noteq> []
                 then let w = QuictunTunnel_NoteActivity w
                      in w\<lparr>tn_pending_to_tcp := tn_pending_to_tcp w @ [data], tn_read := tn_read w @ data\<rparr>
                 else w)
        in (data, fin, w))"

fun fill_rounds :: "nat \<Rightarrow> 'a tn_handler \<Rightarrow> 'a tn_handler" where
  "fill_rounds fuel oc w =
     (if length (tn_pending_to_tcp w) \<ge> kMaxQueuedChunks then w
      else case fuel of
             0 \<Rightarrow> diverge w
           | Suc fuel \<Rightarrow>
               (case read_chunk oc w of (data, fin, w) \<Rightarrow>
                  if fin then w\<lparr>tn_quic_receive_done := True\<rparr>
                  else if data = [] then w
                  else fill_rounds fuel oc w))"

declare fill_rounds.simps [simp del]

definition QuictunTunnel_FillQueueFromStream :: "'a tn_handler \<Rightarrow> 'a tn_handler" where
  "QuictunTunnel_FillQueueFromStream oc w = QuictunTunnel_UpdateIdleClass (fill_rounds kMaxQueuedChunks oc w)"

definition QuictunTunnel_SendComplete :: "'a tn_handler \<Rightarrow> 'a tn_handler \<Rightarrow> send_status \<Rightarrow> 'a tn_handler" where
  "QuictunTunnel_SendComplete oc flush status w =
     (let w = w\<lparr>tn_send_in_flight := False\<rparr>
      in if tn_closed w then w
         else if status \<noteq> SendOk then QuictunTunnel_Close oc True w
         else flush (QuictunTunnel_FillQueueFromStream oc w))"

definition flush_guard :: "'a tunnel_scheme \<Rightarrow> bool" where
  "flush_guard w \<longleftrightarrow> tn_closed w \<or> tn_send_in_flight w \<or> \<not> tn_has_socket w"

definition pop_chunk :: "'a tunnel_scheme \<Rightarrow> bytes \<times> 'a tunnel_scheme" where
  "pop_chunk w =
     (let chunk = hd (tn_pending_to_tcp w)
      in (chunk, w\<lparr>tn_pending_to_tcp := tl (tn_pending_to_tcp w), tn_send_in_flight := True,
                   tn_to_socket := tn_to_socket w @ chunk\<rparr>))"

definition flush_step ::
    "'a tn_handler \<Rightarrow> (send_status \<Rightarrow> 'a tn_handler) \<Rightarrow> send_result \<Rightarrow> 'a tn_handler" where
  "flush_step oc send_complete s w =
     (if flush_guard w then w
      else if tn_pending_to_tcp w = [] then QuictunTunnel_MaybeCloseAfterQuicFin oc w
      else case pop_chunk w of (chunk, w) \<Rightarrow>
        QuictunTunnel_UpdateIdleClass (QuictunAcceptedTcpSocket_SendAsync send_complete chunk s w))"

primrec QuictunTunnel_MaybeFlushQuicToTcp :: "send_result list \<Rightarrow> 'a tn_handler \<Rightarrow> 'a tn_handler" where
  "QuictunTunnel_MaybeFlushQuicToTcp [] = (\<lambda>oc. flush_step oc (\<lambda>_ w. w) SendUnavailable)"
| "QuictunTunnel_MaybeFlushQuicToTcp (s # ss) = (\<lambda>oc.
     flush_step oc (QuictunTunnel_SendComplete oc (QuictunTunnel_MaybeFlushQuicToTcp ss oc)) s)"

section \<open>Entry points\<close>

definition QuictunTunnel_SetSocket :: "'a tn_handler" where
  "QuictunTunnel_SetSocket w = (dcheck (\<not> tn_has_socket w) w)\<lparr>tn_has_socket := True\<rparr>"

definition QuictunTunnel_SetPendingSeedData :: "bytes \<Rightarrow> 'a tn_handler" where
  "QuictunTunnel_SetPendingSeedData d w = w\<lparr>tn_pending_seed_data := d\<rparr>"

definition QuictunTunnel_Start ::
    "recv_result list \<Rightarrow> send_result list \<Rightarrow> 'a tn_handler \<Rightarrow> bytes \<Rightarrow> 'a tn_handler" where
  "QuictunTunnel_Start rs ss oc seed w =
     (let w = w\<lparr>tn_started := True\<rparr>;
          w = (if seed \<noteq> [] then w\<lparr>tn_pending_to_tcp := tn_pending_to_tcp w @ [seed], tn_seed := tn_seed w @ seed\<rparr> else w);
          w = QuictunTunnel_NoteActivity w;
          w = QuictunTunnel_FillQueueFromStream oc w;
          w = QuictunTunnel_BeginReadFromTcp rs oc w
      in QuictunTunnel_MaybeFlushQuicToTcp ss oc w)"

definition QuictunTunnel_OnStreamDataAvailable :: "send_result list \<Rightarrow> 'a tn_handler \<Rightarrow> 'a tn_handler" where
  "QuictunTunnel_OnStreamDataAvailable ss oc w =
     (if tn_closed w \<or> \<not> tn_started w then w
      else QuictunTunnel_MaybeFlushQuicToTcp ss oc (QuictunTunnel_FillQueueFromStream oc w))"

definition QuictunTunnel_OnStreamCanWriteMore :: "recv_result list \<Rightarrow> 'a tn_handler \<Rightarrow> 'a tn_handler" where
  "QuictunTunnel_OnStreamCanWriteMore rs oc w =
     (if tn_closed w \<or> \<not> tn_started w then w
      else if tn_tcp_receive_done w then QuictunTunnel_MaybeFinalizeClose oc w
      else let w = QuictunTunnel_UpdateIdleClass w
           in if tn_receive_in_flight w \<or> QuicStream_HasBufferedData w then w
              else QuictunTunnel_BeginReadFromTcp rs oc w)"

definition QuictunTunnel_ConnectComplete ::
    "recv_result list \<Rightarrow> send_result list \<Rightarrow> 'a tn_handler \<Rightarrow> bool \<Rightarrow> 'a tn_handler" where
  "QuictunTunnel_ConnectComplete rs ss oc ok w =
     (if tn_closed w then w
      else if \<not> ok then QuictunTunnel_Close oc True (w\<lparr>tn_socket_disconnected := True\<rparr>)
      else QuictunTunnel_Start rs ss oc (tn_pending_seed_data w) w)"

end
