(* ===== verification/Stream_Receive.thy ===== *)
theory Stream_Receive
  imports Stream_Effects
begin

text \<open>
  The receive side of a stream across its operations: the buffer holds bytes of the
  peer's stream only, a side that is closed for reading has nothing left to read, and
  the read position moves only by reading.  \<open>recv_ok \<sigma> m\<close> is the invariant for the
  peer's stream \<open>\<sigma>\<close> and a position \<open>m\<close> that was read before; \<open>recv_keeps\<close> is the relation
  that all elementary updates of a stream are in.
\<close>

definition recv_ok :: "(nat \<Rightarrow> byte) \<Rightarrow> nat \<Rightarrow> 'a quic_stream_scheme \<Rightarrow> bool" where
  "recv_ok \<sigma> m w \<longleftrightarrow>
     holds_stream \<sigma> (sq_buffer w) \<and> \<not> st_diverged w \<and> \<not> sq_blocked w \<and>
     m \<le> total_bytes_read (sq_buffer w) \<and>
     (reading_stopped w \<longrightarrow> ReadableBytes (sq_buffer w) = 0)"

definition recv_keeps :: "(nat \<Rightarrow> byte) \<Rightarrow> 'a quic_stream_scheme \<Rightarrow> 'a quic_stream_scheme \<Rightarrow> bool" where
  "recv_keeps \<sigma> w w' \<longleftrightarrow>
     (\<forall>m. recv_ok \<sigma> m w \<longrightarrow>
        recv_ok \<sigma> m w' \<and> (reading_stopped w \<longrightarrow> reading_stopped w') \<and>
        (\<not> reading_stopped w' \<longrightarrow> total_bytes_read (sq_buffer w') = total_bytes_read (sq_buffer w)))"

section \<open>The buffer\<close>

lemma no_missing:
  assumes r: "ranges_ok b" and e: "held b = Map.empty"
  shows "ReadableBytes b = 0"
proof (rule ccontr)
  assume "ReadableBytes b \<noteq> 0"
  then have "total_bytes_read b \<in> points (bytes_received b)"
    using FirstMissingByte_facts [OF r] by (auto simp: ReadableBytes_def)
  then have "held b (total_bytes_read b) \<noteq> None" by (simp add: held_def)
  then show False using e by simp
qed

lemma held_Clear: "held (QuicStreamSequencerBuffer_Clear b) = Map.empty"
  by (auto simp: QuicStreamSequencerBuffer_Clear_def held_def fun_eq_iff)

lemma held_Release: "held (QuicStreamSequencerBuffer_ReleaseWholeBuffer b) = Map.empty"
  by (auto simp: QuicStreamSequencerBuffer_ReleaseWholeBuffer_def QuicStreamSequencerBuffer_Clear_def
      held_def fun_eq_iff)

lemma total_Clear [simp]:
  "total_bytes_read (QuicStreamSequencerBuffer_Clear b) = total_bytes_read b"
  "total_bytes_read (QuicStreamSequencerBuffer_ReleaseWholeBuffer b) = total_bytes_read b"
  by (simp_all add: QuicStreamSequencerBuffer_ReleaseWholeBuffer_def QuicStreamSequencerBuffer_Clear_def)

lemma emptied:
  assumes "seqbuf_ok b" "held b = Map.empty"
  shows "holds_stream \<sigma> b" "ReadableBytes b = 0"
  using assms no_missing by (auto simp: holds_stream_def seqbuf_ok_def)

lemma emptied_Clear:
  assumes "holds_stream \<sigma> b"
  shows "holds_stream \<tau> (QuicStreamSequencerBuffer_Clear b)" "ReadableBytes (QuicStreamSequencerBuffer_Clear b) = 0"
    "holds_stream \<tau> (QuicStreamSequencerBuffer_ReleaseWholeBuffer b)"
    "ReadableBytes (QuicStreamSequencerBuffer_ReleaseWholeBuffer b) = 0"
  using assms emptied [OF Clear_ok held_Clear] emptied [OF ReleaseWholeBuffer_ok held_Release]
  by (auto simp: holds_stream_def seqbuf_ok_def)

lemma NextExpectedByte_total:
  assumes "seqbuf_ok b"
  shows "total_bytes_read b \<le> NextExpectedByte b"
proof (rule ccontr)
  assume "\<not> ?thesis"
  then have "NextExpectedByte b \<in> points (bytes_received b)"
    using assms by (auto simp: seqbuf_ok_def ranges_ok_def)
  moreover have "separated_list (bytes_received b)"
    using assms by (simp add: seqbuf_ok_def ranges_ok_def wf_simps)
  ultimately have "bytes_received b \<noteq> [] \<and> NextExpectedByte b < snd (last (bytes_received b))"
    by (intro separated_last_max)
  then show False by (auto simp: NextExpectedByte_def)
qed

lemma emptied_Flush:
  assumes "holds_stream \<sigma> b"
  shows "holds_stream \<tau> (snd (QuicStreamSequencerBuffer_FlushBufferedFrames b))"
    "ReadableBytes (snd (QuicStreamSequencerBuffer_FlushBufferedFrames b)) = 0"
    "total_bytes_read b \<le> total_bytes_read (snd (QuicStreamSequencerBuffer_FlushBufferedFrames b))"
  using assms emptied FlushBufferedFrames_ok NextExpectedByte_total
  by (auto simp: holds_stream_def)

lemma duplicate_readable:
  assumes ok: "holds_stream \<sigma> b" and f: "frame_of \<sigma> off data"
    and r: "QuicStreamSequencerBuffer_OnStreamData off data b = Some (QUIC_NO_ERROR, 0, b')"
  shows "ReadableBytes b' = ReadableBytes b"
proof -
  have s: "seqbuf_ok b" using ok by (simp add: holds_stream_def)
  have lt: "off < 2 ^ 64" "length data < 2 ^ 64" using f by (simp_all add: frame_of_def)
  have ne: "data \<noteq> []" using OnStreamData_rejects(1) [OF lt, of b] r by auto
  have "\<not> (2 ^ 64 \<le> off + length data \<or> total_bytes_read b + max_buffer_capacity_bytes b < off + length data)"
    using OnStreamData_rejects(2) [OF lt ne, of b] r by auto
  then have fin: "off + length data \<le> total_bytes_read b + max_buffer_capacity_bytes b"
    and small: "off + length data < 2 ^ 64" by auto
  have "\<not> too_many_intervals off data b" using OnStreamData_too_many [OF s ne fin small] r by auto
  from OnStreamData_receives [OF s ne fin small this] r
  have c: "card ({off..<off + length data} - points (bytes_received b)) = 0" and rc: "receives off data b b'" by auto
  then have "points (bytes_received b') = points (bytes_received b)"
    by (auto simp: receives_def card_eq_0_iff)
  then have "bytes_received b' = bytes_received b"
    using separated_unique s rc by (simp add: receives_def seqbuf_ok_def ranges_ok_def wf_simps)
  then show ?thesis using rc by (simp add: ReadableBytes_def FirstMissingByte_def receives_def)
qed

text \<open>A frame that lies below the read position is accepted and brings nothing new.\<close>

lemma OnStreamData_late:
  assumes ok: "holds_stream \<sigma> b" and ne: "data \<noteq> []" and lt: "off + length data < 2 ^ 64"
    and l: "off + length data \<le> total_bytes_read b"
  shows "\<exists>b'. QuicStreamSequencerBuffer_OnStreamData off data b = Some (QUIC_NO_ERROR, 0, b')"
proof -
  have s: "seqbuf_ok b" using ok by (simp add: holds_stream_def)
  have sub: "{off..<off + length data} \<subseteq> points (bytes_received b)"
    using l s by (auto simp: seqbuf_ok_def ranges_ok_def)
  have many: "\<not> too_many_intervals off data b" using sub by (simp add: too_many_intervals_def)
  from OnStreamData_receives [OF s ne _ lt many] l sub show ?thesis by (auto simp: Diff_eq_empty_iff [THEN iffD2])
qed

text \<open>What a frame of the stream does to the buffer: it is taken, or it is refused and
  only the record of what was received changes, which releasing the buffer forgets.\<close>

lemma OnStreamData_cases:
  assumes ok: "holds_stream \<sigma> b" and f: "frame_of \<sigma> off data" and ne: "data \<noteq> []"
  obtains n b' where "QuicStreamSequencerBuffer_OnStreamData off data b = Some (QUIC_NO_ERROR, n, b')"
  | err n r where "QuicStreamSequencerBuffer_OnStreamData off data b = Some (err, n, b\<lparr>bytes_received := r\<rparr>)"
      "err \<noteq> QUIC_NO_ERROR"
proof -
  have s: "seqbuf_ok b" using ok by (simp add: holds_stream_def)
  have lt: "off < 2 ^ 64" "length data < 2 ^ 64" using f by (simp_all add: frame_of_def)
  show thesis
  proof (cases "2 ^ 64 \<le> off + length data \<or> total_bytes_read b + max_buffer_capacity_bytes b < off + length data")
    case True
    then show thesis using OnStreamData_rejects(2) [OF lt ne] that(2) [of QUIC_INTERNAL_ERROR 0 "bytes_received b"] by simp
  next
    case False
    then show thesis
      using OnStreamData_receives [OF s ne, of off] OnStreamData_too_many [OF s ne, of off] that
      by (cases "too_many_intervals off data b") (auto simp: not_le not_less)
  qed
qed

lemma Release_received [simp]:
  "QuicStreamSequencerBuffer_ReleaseWholeBuffer (b\<lparr>bytes_received := r\<rparr>) = QuicStreamSequencerBuffer_ReleaseWholeBuffer b"
  by (simp add: QuicStreamSequencerBuffer_ReleaseWholeBuffer_def QuicStreamSequencerBuffer_Clear_def)

lemma connection_lost_buffer:
  assumes "cn_connected v" "\<not> st_read_side_closed v"
    "QuicStreamSequencerBuffer_ReleaseWholeBuffer b = QuicStreamSequencerBuffer_ReleaseWholeBuffer (sq_buffer v)"
  shows "connection_lost gone c (v\<lparr>sq_buffer := b\<rparr>) = connection_lost gone c v"
  using assms
  by (simp add: connection_lost_def QuicStream_OnConnectionClosed_def QuicStream_CloseReadSide_def
      QuicStream_CloseWriteSide_def Let_def)

section \<open>The elementary updates\<close>

lemma recv_keeps_refl: "recv_keeps \<sigma> w w"
  by (simp add: recv_keeps_def)

lemma recv_keeps_trans: "recv_keeps \<sigma> u v \<Longrightarrow> recv_keeps \<sigma> v w \<Longrightarrow> recv_keeps \<sigma> u w"
  unfolding recv_keeps_def by metis

lemma recv_keeps_same:
  "sq_buffer w' = sq_buffer w \<Longrightarrow> st_diverged w' = st_diverged w \<Longrightarrow> sq_blocked w' = sq_blocked w \<Longrightarrow>
   sq_ignore_read_data w' = sq_ignore_read_data w \<Longrightarrow> st_read_side_closed w' = st_read_side_closed w \<Longrightarrow>
   recv_keeps \<sigma> w w'"
  by (simp add: recv_keeps_def recv_ok_def reading_stopped_def)

lemma recv_keeps_clear: "recv_keeps \<sigma> w (w\<lparr>sq_buffer := QuicStreamSequencerBuffer_Clear (sq_buffer w)\<rparr>)"
  using emptied_Clear by (auto simp: recv_keeps_def recv_ok_def reading_stopped_def)

lemma recv_keeps_release:
  "recv_keeps \<sigma> w (w\<lparr>st_read_side_closed := True,
     sq_buffer := QuicStreamSequencerBuffer_ReleaseWholeBuffer (sq_buffer w)\<rparr>)"
  using emptied_Clear by (auto simp: recv_keeps_def recv_ok_def reading_stopped_def)

lemma recv_keeps_discard:
  "recv_keeps \<sigma> w (w\<lparr>sq_ignore_read_data := True,
     sq_buffer := snd (QuicStreamSequencerBuffer_FlushBufferedFrames (sq_buffer w))\<rparr>)"
  using emptied_Flush by (auto simp: recv_keeps_def recv_ok_def reading_stopped_def intro: order_trans)

lemma recv_effects_lost:
  assumes "\<And>w. recv_keeps \<sigma> w (gone w)"
  shows "stream_effects (recv_keeps \<sigma>) gone (connection_lost gone)"
proof -
  have "stream_effects (recv_keeps \<sigma>) gone (\<lambda>_ w. w)"
    by unfold_locales
      (rule assms recv_keeps_refl recv_keeps_clear recv_keeps_release recv_keeps_discard
       | erule (1) recv_keeps_trans | rule recv_keeps_same; simp)+
  then show ?thesis
    by (rule stream_effects.with_disconnect) (rule recv_keeps_same; simp)
qed

section \<open>Frames\<close>

text \<open>A frame of the stream that is taken keeps the invariant, and so does one that is
  discarded at once because the application stopped reading.\<close>

lemma recv_keeps_frame:
  assumes ok: "recv_ok \<sigma> m v" and f: "frame_of \<sigma> off data" and ne: "data \<noteq> []"
    and lt: "off + length data < 2 ^ 64"
    and op: "\<not> st_read_side_closed v \<or> off + length data \<le> total_bytes_read (sq_buffer v)"
    and r: "QuicStreamSequencerBuffer_OnStreamData off data (sq_buffer v) = Some (QUIC_NO_ERROR, n, b)"
  shows "recv_keeps \<sigma> v (v\<lparr>sq_buffer :=
      if sq_ignore_read_data v \<and> \<not> sq_blocked v \<and> n \<noteq> 0 \<and> readable_changed (v\<lparr>sq_buffer := b\<rparr>) (ReadableBytes (sq_buffer v))
      then snd (QuicStreamSequencerBuffer_FlushBufferedFrames b) else b\<rparr>)"
proof -
  have h: "holds_stream \<sigma> (sq_buffer v)" using ok by (simp add: recv_ok_def)
  note d = Deliver_holds_stream [OF h f r]
  have z: "n = 0" if "off + length data \<le> total_bytes_read (sq_buffer v)"
    using that OnStreamData_late [OF h ne lt] r by auto
  have "ReadableBytes b = 0" if "reading_stopped v"
      "\<not> (sq_ignore_read_data v \<and> \<not> sq_blocked v \<and> n \<noteq> 0 \<and> readable_changed (v\<lparr>sq_buffer := b\<rparr>) (ReadableBytes (sq_buffer v)))"
    using that ok op z duplicate_readable [OF h f, of b] r
    by (cases "n = 0") (auto simp: recv_ok_def reading_stopped_def readable_changed_def split: if_splits)
  then show ?thesis using d emptied_Flush [OF d(1)] ok
    by (auto simp: recv_keeps_def recv_ok_def reading_stopped_def intro: order_trans)
qed

context stream_receives
begin

lemma frame_taken:
  assumes ok: "recv_ok \<sigma> m v" and f: "frame_of \<sigma> off data" and ne: "data \<noteq> []"
    and lt: "off + length data < 2 ^ 64"
    and op: "\<not> st_read_side_closed v \<or> off + length data \<le> total_bytes_read (sq_buffer v)"
    and upd: "\<And>b. recv_keeps \<sigma> v (v\<lparr>sq_buffer := b\<rparr>) \<Longrightarrow> R v (v\<lparr>sq_buffer := b\<rparr>)"
    and bad: "\<And>err b. \<not> st_read_side_closed v \<Longrightarrow> \<not> off + length data \<le> total_bytes_read (sq_buffer v) \<Longrightarrow>
      QuicStreamSequencerBuffer_ReleaseWholeBuffer b = QuicStreamSequencerBuffer_ReleaseWholeBuffer (sq_buffer v) \<Longrightarrow>
      R v (lost err (v\<lparr>sq_buffer := b\<rparr>))"
  shows "taken off data v"
proof -
  have h: "holds_stream \<sigma> (sq_buffer v)" using ok by (simp add: recv_ok_def)
  from h f ne show ?thesis
  proof (cases rule: OnStreamData_cases)
    case (1 n b')
    from upd [OF recv_keeps_frame [OF ok f ne lt op 1]] 1 show ?thesis
      by (auto simp: taken_def Let_def split: if_splits)
  next
    case (2 err n r)
    then have "\<not> off + length data \<le> total_bytes_read (sq_buffer v)"
      using OnStreamData_late [OF h ne lt] by auto
    then have "\<not> st_read_side_closed v" "\<not> off + length data \<le> total_bytes_read (sq_buffer v)" using op by blast+
    from bad [OF this, of "(sq_buffer v)\<lparr>bytes_received := r\<rparr>"] 2 show ?thesis by (simp add: taken_def)
  qed
qed

end

section \<open>Reading\<close>

text \<open>Reading moves the position by what it returns.\<close>

lemma Readv_recv:
  assumes ok: "recv_ok \<sigma> m w" and n: "n > 0"
  shows "\<exists>data b. QuicStreamSequencerBuffer_Readv n [] (sq_buffer w) = Some (QUIC_NO_ERROR, data, b) \<and>
    length data \<le> n \<and> recv_ok \<sigma> m (w\<lparr>sq_buffer := b\<rparr>) \<and>
    total_bytes_read b = total_bytes_read (sq_buffer w) + length data \<and>
    data = map \<sigma> [total_bytes_read (sq_buffer w)..<total_bytes_read (sq_buffer w) + length data] \<and>
    (reading_stopped w \<longrightarrow> data = [])"
proof -
  let ?b = "sq_buffer w" and ?k = "min n (ReadableBytes (sq_buffer w))"
  have h: "holds_stream \<sigma> ?b" and s: "seqbuf_ok ?b" using ok by (simp_all add: recv_ok_def holds_stream_def)
  obtain b where b: "QuicStreamSequencerBuffer_Readv n [] ?b =
      Some (QUIC_NO_ERROR, map (\<lambda>x. the (held ?b x)) [total_bytes_read ?b..<total_bytes_read ?b + ?k], b)"
    "same_view (advance ?k ?b) b"
    using Readv_reads [OF s refl, of n "[]"] by auto
  let ?d = "map (\<lambda>x. the (held ?b x)) [total_bytes_read ?b..<total_bytes_read ?b + ?k]"
  note c = Consume_holds_stream [OF h b(1)]
  have "ReadableBytes b = ReadableBytes ?b - ?k"
    using ReadableBytes_view [OF b(2)] by (simp add: advance_def ReadableBytes_def FirstMissingByte_def)
  then show ?thesis using b(1) c ok n
    by (intro exI [of _ ?d] exI [of _ b]) (auto simp: recv_ok_def reading_stopped_def)
qed

end
