(* ===== verification/Stream_Send.thy ===== *)
theory Stream_Send
  imports Stream_Effects
begin

text \<open>
  The send side of a stream across its operations.  \<open>send_ok D\<close> says that \<open>D\<close> is what the
  application has written: the send buffer holds it, every data frame handed to the
  packet layer carries bytes of \<open>D\<close> at their offset, and a frame with the fin ends
  where \<open>D\<close> ends.  \<open>send_keeps\<close> is the relation that all operations but the writes of the
  application are in.
\<close>

definition carries :: "bytes \<Rightarrow> nat \<times> bytes \<times> bool \<Rightarrow> bool" where
  "carries D fr = (case fr of (off, d, fin) \<Rightarrow>
     off + length d \<le> length D \<and> d = take (length d) (drop off D) \<and> (fin \<longrightarrow> off + length d = length D))"

definition send_ok :: "bytes \<Rightarrow> 'a quic_stream_scheme \<Rightarrow> bool" where
  "send_ok D w \<longleftrightarrow>
     sb_ok D (st_send w) \<and> list_all (carries D) (cn_data w) \<and>
     (list_ex (\<lambda>(off, d, fin). fin) (cn_data w) \<longrightarrow> st_fin_buffered w) \<and>
     (st_fin_sent w \<or> st_fin_outstanding w \<or> st_fin_lost w \<longrightarrow>
        st_fin_buffered w \<and> QuicStream_BufferedDataBytes w = 0)"

definition send_done :: "'a quic_stream_scheme \<Rightarrow> bool" where
  "send_done w \<longleftrightarrow> st_fin_buffered w \<or> st_write_side_closed w"

text \<open>A stream whose connection is gone takes no data.\<close>

definition conn_ok :: "'a quic_stream_scheme \<Rightarrow> bool" where
  "conn_ok w \<longleftrightarrow> cn_connected w \<or> st_write_side_closed w"

definition data_keeps :: "'a quic_stream_scheme \<Rightarrow> 'a quic_stream_scheme \<Rightarrow> bool" where
  "data_keeps w w' \<longleftrightarrow>
     (\<forall>D. send_ok D w \<longrightarrow> send_ok D w') \<and> (st_fin_buffered w \<longrightarrow> st_fin_buffered w') \<and>
     (st_write_side_closed w \<longrightarrow> st_write_side_closed w')"

definition send_keeps :: "'a quic_stream_scheme \<Rightarrow> 'a quic_stream_scheme \<Rightarrow> bool" where
  "send_keeps w w' \<longleftrightarrow> data_keeps w w' \<and> (conn_ok w \<longrightarrow> conn_ok w')"

lemmas send_keeps_defs = send_keeps_def data_keeps_def conn_ok_def

lemma send_keeps_refl: "send_keeps w w"
  by (simp add: send_keeps_defs)

lemma send_keeps_trans: "send_keeps u v \<Longrightarrow> send_keeps v w \<Longrightarrow> send_keeps u w"
  by (simp add: send_keeps_def data_keeps_def)

lemma data_keeps_same:
  "same_send w w' \<Longrightarrow> cn_data w' = cn_data w \<Longrightarrow> (st_write_side_closed w \<longrightarrow> st_write_side_closed w') \<Longrightarrow>
   st_fin_sent w' = st_fin_sent w \<Longrightarrow> st_fin_outstanding w' = st_fin_outstanding w \<Longrightarrow> data_keeps w w'"
  by (auto simp: data_keeps_def send_ok_def same_send_def QuicStream_BufferedDataBytes_def)

lemma data_keeps_refl: "data_keeps w w"
  by (simp add: data_keeps_def)

lemma data_keeps_trans: "data_keeps u v \<Longrightarrow> data_keeps v w \<Longrightarrow> data_keeps u w"
  by (simp add: data_keeps_def)

lemma send_keeps_same:
  "same_send w w' \<Longrightarrow> cn_data w' = cn_data w \<Longrightarrow> (st_write_side_closed w \<longrightarrow> st_write_side_closed w') \<Longrightarrow>
   st_fin_sent w' = st_fin_sent w \<Longrightarrow> st_fin_outstanding w' = st_fin_outstanding w \<Longrightarrow>
   cn_connected w' = cn_connected w \<Longrightarrow> send_keeps w w'"
  by (auto simp: send_keeps_def conn_ok_def intro: data_keeps_same)

lemma buffered_bytes: "sb_ok D (st_send w) \<Longrightarrow> stream_bytes_written (st_send w) + QuicStream_BufferedDataBytes w = length D"
  by (auto simp: sb_ok_def QuicStream_BufferedDataBytes_def)

lemma data_read_back:
  assumes "sb_ok D sb" "off + n \<le> length D" "{off..<off + n} \<inter> points (bytes_acked sb) = {}"
  shows "snd (SendBuffer_WriteStreamData off n sb) = take n (drop off D)"
  using WriteStreamData_data [OF assms] by simp

lemma send_keeps_record:
  assumes r: "\<And>D. send_ok D w \<Longrightarrow> off + n \<le> length D \<and> {off..<off + n} \<inter> points (bytes_acked (st_send w)) = {} \<and>
      (f \<longrightarrow> off + n = length D \<and> st_fin_buffered w)"
  shows "send_keeps w (record_data off n f w)"
proof -
  have "carries D (off, snd (SendBuffer_WriteStreamData off n (st_send w)), f) \<and> (f \<longrightarrow> st_fin_buffered w)"
    if "send_ok D w" for D
    using r [OF that] data_read_back [of D "st_send w" off n] that by (auto simp: carries_def send_ok_def)
  then show ?thesis
    by (auto simp: send_keeps_defs record_data_def send_ok_def QuicStream_BufferedDataBytes_def)
qed

lemma send_keeps_record_new:
  assumes "n \<le> QuicStream_BufferedDataBytes w" "f \<Longrightarrow> st_fin_buffered w \<and> n = QuicStream_BufferedDataBytes w"
  shows "send_keeps w (record_data (stream_bytes_written (st_send w)) n f w)"
proof (rule send_keeps_record)
  fix D assume d: "send_ok D w"
  then have "points (bytes_acked (st_send w)) \<subseteq> {..<stream_bytes_written (st_send w)}"
    by (simp add: send_ok_def sb_ok_def)
  moreover have "stream_bytes_written (st_send w) + QuicStream_BufferedDataBytes w = length D"
    using d buffered_bytes [of D w] by (simp add: send_ok_def)
  ultimately show "stream_bytes_written (st_send w) + n \<le> length D \<and>
      {stream_bytes_written (st_send w)..<stream_bytes_written (st_send w) + n} \<inter> points (bytes_acked (st_send w)) = {} \<and>
      (f \<longrightarrow> stream_bytes_written (st_send w) + n = length D \<and> st_fin_buffered w)"
    using assms by auto
qed

lemma send_keeps_record_fin:
  "(f \<Longrightarrow> st_fin_lost w) \<Longrightarrow> send_keeps w (record_data (stream_bytes_written (st_send w)) 0 f w)"
  using buffered_bytes by (intro send_keeps_record) (fastforce simp: send_ok_def)

lemma send_keeps_record_again:
  assumes p: "pending_retransmissions (st_send w) \<noteq> []" "NextPendingRetransmission (st_send w) = (off, len)" "n \<le> len"
    and f: "f \<Longrightarrow> st_fin_lost w \<and> off + n = stream_bytes_written (st_send w)"
  shows "send_keeps w (record_data off n f w)"
proof (rule send_keeps_record)
  fix D assume d: "send_ok D w"
  obtain i rest where i: "pending_retransmissions (st_send w) = i # rest" using p(1) by (cases "pending_retransmissions (st_send w)") auto
  have "{off..<off + n} \<subseteq> points (pending_retransmissions (st_send w))"
    using p i by (auto simp: NextPendingRetransmission_def mem_points)
  then have 1: "{off..<off + n} \<subseteq> {..<stream_bytes_written (st_send w)} - points (bytes_acked (st_send w))"
    using d by (auto simp: send_ok_def sb_ok_def)
  have "off \<in> points (pending_retransmissions (st_send w))"
    using d i p(2) by (auto simp: NextPendingRetransmission_def mem_points send_ok_def sb_ok_def wf_simps)
  then have "off < stream_bytes_written (st_send w)" using d by (auto simp: send_ok_def sb_ok_def)
  with 1 have "off + n \<le> stream_bytes_written (st_send w)"
    by (cases n) (auto dest: subsetD [of _ _ "off + (n - 1)"])
  then show "off + n \<le> length D \<and> {off..<off + n} \<inter> points (bytes_acked (st_send w)) = {} \<and>
      (f \<longrightarrow> off + n = length D \<and> st_fin_buffered w)"
    using 1 d f buffered_bytes [of D w] by (auto simp: send_ok_def)
qed

lemma send_keeps_consumed:
  assumes "n \<le> QuicStream_BufferedDataBytes w"
  shows "send_keeps w (QuicStream_OnStreamDataConsumed n w)"
proof -
  have "sb_ok D (SendBuffer_OnStreamDataConsumed n (st_send w))" if "sb_ok D (st_send w)" for D
    using assms buffered_bytes [OF that] by (intro sb_ok_OnStreamDataConsumed that) (use that in \<open>simp add: sb_ok_def\<close>)
  then show ?thesis
    by (auto simp: send_keeps_defs send_ok_def QuicStream_OnStreamDataConsumed_def
        QuicStream_BufferedDataBytes_def SendBuffer_OnStreamDataConsumed_def)
qed

lemma lost_closes:
  assumes "\<And>w. st_write_side_closed w \<Longrightarrow> st_write_side_closed (gone w)" "cn_connected w"
  shows "st_write_side_closed (connection_lost gone c w)"
proof -
  let ?R = "\<lambda>w w'. st_write_side_closed w \<longrightarrow> st_write_side_closed w'"
  have e: "stream_effects ?R gone (\<lambda>_ w. w)" by unfold_locales (use assms(1) in auto)
  note r = stream_effects.R_CloseReadSide [OF e stream_effects.R_queue_frame [OF e]]
    stream_effects.R_OnClose [OF e stream_effects.R_queue_frame [OF e]]
  have "st_write_side_closed (QuicStream_CloseWriteSide queue_frame gone v)" for v
    using r(2) [of "QuicSession_OnStreamClosed (v\<lparr>st_write_side_closed := True\<rparr>)"]
    by (simp add: QuicStream_CloseWriteSide_def QuicSession_OnStreamClosed_def Let_def)
  then show ?thesis using assms(2) r(1)
    by (simp add: connection_lost_def QuicStream_OnConnectionClosed_def Let_def)
qed

lemma send_effects:
  assumes g: "\<And>w. send_keeps w (gone w)"
  shows "stream_effects send_keeps gone (connection_lost gone)"
proof -
  have e: "stream_effects send_keeps gone (\<lambda>_ w. w)"
    by unfold_locales
      (rule assms send_keeps_refl | erule (1) send_keeps_trans | rule send_keeps_same; simp add: same_send_def)+
  have "data_keeps w (gone w)" for w using g [of w] by (simp add: send_keeps_def)
  then have "stream_effects data_keeps gone (\<lambda>_ w. w)"
    by unfold_locales
      (assumption | rule data_keeps_refl | erule (1) data_keeps_trans | rule data_keeps_same; simp add: same_send_def)+
  then have "data_keeps w (connection_lost gone c w)" for w c
    by (rule stream_effects.R_connection_lost) (rule data_keeps_same; simp add: same_send_def)
  moreover have "st_write_side_closed (connection_lost gone c w)" if "cn_connected w" for w c
    by (rule lost_closes [OF _ that]) (use g in \<open>auto simp: send_keeps_def data_keeps_def\<close>)
  then have "conn_ok w \<longrightarrow> conn_ok (connection_lost gone c w)" for w c
    by (cases "cn_connected w") (simp_all add: conn_ok_def connection_lost_def)
  ultimately show ?thesis
    by (intro stream_effects.with_connection_lost [OF e]) (simp add: send_keeps_def)
qed

lemma connection_lost_send:
  assumes "\<And>w. same_send w (gone w)"
  shows "same_send w (connection_lost gone c w)"
  by (rule stream_effects.R_connection_lost [where R = same_send and lost = "\<lambda>_ w. w"])
    (rule same_send_effects [OF assms], simp_all add: same_send_def)

lemma send_writes_lost:
  assumes g: "\<And>w. send_keeps w (gone w)" "\<And>w. same_send w (gone w)"
  shows "stream_writes send_keeps gone (connection_lost gone)"
proof (rule stream_writes.intro [OF send_effects [OF g(1)]], unfold_locales)
  show "send_keeps w (w\<lparr>st_fin_sent := True, st_fin_outstanding := True\<rparr>)"
    if "st_fin_buffered w" "QuicStream_BufferedDataBytes w = 0" for w :: "'a quic_stream_scheme"
    using that by (simp add: send_keeps_defs send_ok_def QuicStream_BufferedDataBytes_def)
qed (simp_all add: g connection_lost_send send_keeps_record_new send_keeps_consumed)

text \<open>What the packet layer reports of sent data.\<close>

lemma send_keeps_buffer:
  assumes "\<And>D. sb_ok D (st_send w) \<Longrightarrow> sb_ok D sb \<and> stream_bytes_written sb = stream_bytes_written (st_send w)"
  shows "send_keeps w (w\<lparr>st_send := sb\<rparr>)"
proof -
  have "QuicStream_BufferedDataBytes (w\<lparr>st_send := sb\<rparr>) = QuicStream_BufferedDataBytes w" if "sb_ok D (st_send w)" for D
    using assms [OF that] that by (simp add: QuicStream_BufferedDataBytes_def sb_ok_def)
  then show ?thesis using assms by (auto simp: send_keeps_defs send_ok_def)
qed

lemma send_keeps_acked:
  assumes "SendBuffer_OnStreamDataAcked off len (st_send w) = (ok, n, sb)" "off + len \<le> stream_bytes_written (st_send w)"
  shows "send_keeps w (w\<lparr>st_send := sb\<rparr>)"
  by (rule send_keeps_buffer) (use assms OnStreamDataAcked_acks in \<open>fastforce simp: acks_def\<close>)

lemma send_keeps_lost:
  assumes "off + len \<le> stream_bytes_written (st_send w)"
  shows "send_keeps w (w\<lparr>st_send := SendBuffer_OnStreamDataLost off len (st_send w)\<rparr>)"
  using OnStreamDataLost_pending [OF _ assms]
  by (intro send_keeps_buffer) (simp add: SendBuffer_OnStreamDataLost_def Let_def)

lemma send_keeps_retransmitted:
  "send_keeps w (w\<lparr>st_send := SendBuffer_OnStreamDataRetransmitted off len (st_send w)\<rparr>)"
  using OnStreamDataRetransmitted_pending
  by (intro send_keeps_buffer) (simp add: SendBuffer_OnStreamDataRetransmitted_def)

text \<open>The application's write.\<close>

lemma accept_data_ok:
  assumes "send_ok D w" "\<not> st_fin_buffered w"
  shows "send_ok (D @ data) (accept_data data fin w)"
proof -
  have s: "sb_ok (D @ data) (SaveStreamData data (st_send w))" if "data \<noteq> []"
    using assms by (intro sb_ok_SaveStreamData) (simp add: send_ok_def)
  have c: "carries (D @ data) fr" if "carries D fr" "\<not> snd (snd fr)" for fr
    using that by (auto simp: carries_def)
  have "list_all (carries (D @ data)) (cn_data w)"
    using assms c by (auto simp: send_ok_def list_all_iff list_ex_iff)
  then show ?thesis using assms s by (auto simp: send_ok_def accept_data_def Let_def)
qed

end
