(* ===== verification/Tunnel_Safety.thy ===== *)
theory Tunnel_Safety
  imports Tunnel Stream_Receive Stream_Send
begin

text \<open>
  What a tunnel keeps whatever the peer, the kernel and the packet layer do: the bytes
  that pass, the use of the socket, the idle tracker and the single close.  The
  invariant \<open>tunnel_ok\<close> is kept by every operation, including the ones that are entered
  again from inside a write.
\<close>

section \<open>Frame conditions\<close>

text \<open>A stream operation that does not reach the tunnel leaves its part of the state alone.\<close>

definition stream_only :: "'a quic_stream_scheme \<Rightarrow> 'a quic_stream_scheme \<Rightarrow> bool" where
  "stream_only w w' \<longleftrightarrow> quic_stream.more w' = quic_stream.more w \<and> cn_now w' = cn_now w"

lemma stream_only_trivial: "stream_effects stream_only (\<lambda>w. w) (\<lambda>_ w. w)"
  by unfold_locales (simp_all add: stream_only_def)

interpretation quiet: stream_effects stream_only "\<lambda>w. w" "connection_lost (\<lambda>w. w)"
  by (rule stream_effects.with_disconnect [OF stream_only_trivial]) (simp add: stream_only_def)

interpretation quiet_recv: stream_effects "recv_keeps \<sigma>" "\<lambda>w. w" "connection_lost (\<lambda>w. w)" for \<sigma>
  by (rule recv_effects_lost) (rule recv_keeps_refl)

interpretation quiet_send: stream_writes send_keeps "\<lambda>w. w" "connection_lost (\<lambda>w. w)"
  by (rule send_writes_lost) (simp_all add: send_keeps_refl same_send_def)

interpretation quiet_same: stream_effects same_send "\<lambda>w. w" "connection_lost (\<lambda>w. w)"
  by (rule same_send_effects, simp add: same_send_def, rule connection_lost_send, simp add: same_send_def)

lemma same_more:
  fixes w w' :: "'a tunnel_scheme"
  assumes "quic_stream.more w' = quic_stream.more w"
  shows "tn_closed w' = tn_closed w" "tn_id w' = tn_id w" "tn_has_socket w' = tn_has_socket w"
    "tn_has_on_closed w' = tn_has_on_closed w" "tn_pending_to_tcp w' = tn_pending_to_tcp w"
    "tn_send_in_flight w' = tn_send_in_flight w" "tn_receive_in_flight w' = tn_receive_in_flight w"
    "tn_tcp_receive_done w' = tn_tcp_receive_done w" "tn_flush_close_alarm w' = tn_flush_close_alarm w"
    "tn_send_done_time w' = tn_send_done_time w" "tn_quic_receive_done w' = tn_quic_receive_done w"
    "tn_started w' = tn_started w" "tn_stalled w' = tn_stalled w"
    "tn_socket_disconnected w' = tn_socket_disconnected w" "tk_tracker w' = tk_tracker w"
    "tk_activity w' = tk_activity w" "tn_seed w' = tn_seed w" "tn_read w' = tn_read w"
    "tn_to_socket w' = tn_to_socket w" "tn_from_tcp w' = tn_from_tcp w"
    "tn_close_count w' = tn_close_count w" "tn_pending_seed_data w' = tn_pending_seed_data w"
    "sk_open w' = sk_open w" "sk_edge_triggered w' = sk_edge_triggered w"
    "sk_receive_max_size w' = sk_receive_max_size w" "sk_send_data w' = sk_send_data w"
    "sk_send_remaining w' = sk_send_remaining w" "sk_written w' = sk_written w" "sk_misuse w' = sk_misuse w" "tunnel.more w' = tunnel.more w"
  using assms by (cases w; cases w'; simp)+

section \<open>The invariant\<close>

text \<open>Every byte read from the stream, after the seed, is either with the socket or queued,
  in order, and the socket has taken a prefix of what it was given.\<close>

definition bytes_ok :: "'a tunnel_scheme \<Rightarrow> bool" where
  "bytes_ok w \<longleftrightarrow>
     tn_to_socket w @ concat (tn_pending_to_tcp w) = tn_seed w @ tn_read w \<and> prefix (sk_written w) (tn_to_socket w) \<and>
     (\<not> tn_started w \<longrightarrow> tn_seed w = [] \<and> tn_read w = []) \<and>
     (tn_started w \<longrightarrow> tn_seed w = tn_pending_seed_data w)"

definition exact_ok :: "'a tunnel_scheme \<Rightarrow> bool" where
  "exact_ok w \<longleftrightarrow> tn_closed w \<or> tn_to_socket w = sk_written w @ sk_send_remaining w"

definition queue_ok :: "'a tunnel_scheme \<Rightarrow> bool" where
  "queue_ok w \<longleftrightarrow>
     length (tn_pending_to_tcp w) \<le> kMaxQueuedChunks \<and>
     (\<forall>c \<in> set (tn_pending_to_tcp w). c \<noteq> [] \<and> length c \<le> max kReadSize (length (tn_seed w)))"

definition socket_ok :: "'a tunnel_scheme \<Rightarrow> bool" where
  "socket_ok w \<longleftrightarrow>
     \<not> sk_misuse w \<and> (tn_socket_disconnected w \<longrightarrow> \<not> sk_open w) \<and>
     (if tn_closed w
      then \<not> tn_send_in_flight w \<and> \<not> tn_receive_in_flight w \<and> sk_send_data w = None \<and>
           sk_send_remaining w = [] \<and> sk_receive_max_size w = None \<and> (tn_has_socket w \<longrightarrow> \<not> sk_open w)
      else (tn_send_in_flight w \<longleftrightarrow> sk_send_data w \<noteq> None) \<and>
           (sk_send_data w \<noteq> None \<longleftrightarrow> sk_send_remaining w \<noteq> []) \<and>
           (tn_receive_in_flight w \<longleftrightarrow> sk_receive_max_size w \<noteq> None) \<and>
           (tn_started w \<longrightarrow> tn_has_socket w \<and> sk_open w) \<and>
           (\<not> tn_started w \<longrightarrow> \<not> tn_send_in_flight w \<and> \<not> tn_receive_in_flight w \<and> tn_pending_to_tcp w = []))"

definition tracking_ok :: "'a tunnel_scheme \<Rightarrow> bool" where
  "tracking_ok w \<longleftrightarrow>
     tracker_ok (tk_activity w) (cn_now w) (tk_tracker w) \<and>
     tracker_class (tk_tracker w) (tn_id w) =
       (if tn_started w \<and> \<not> tn_closed w then Some (tn_stalled w) else None)"

type_synonym 'a owner_inv = "bool \<Rightarrow> bytes \<Rightarrow> 'a \<Rightarrow> bool"

text \<open>\<open>P closed seed x\<close> is what the owner keeps of its own part \<open>x\<close> of the state, for a tunnel that is
  closed or not and that has the given seed.\<close>

definition closing_ok :: "'a owner_inv \<Rightarrow> 'a tunnel_scheme \<Rightarrow> bool" where
  "closing_ok P w \<longleftrightarrow>
     tn_close_count w = (if tn_closed w then 1 else 0) \<and> tn_has_on_closed w = (\<not> tn_closed w) \<and>
     (tn_closed w \<longrightarrow> tn_flush_close_alarm w = None) \<and> P (tn_closed w) (tn_pending_seed_data w) (tunnel.more w)"

text \<open>A send that fails drops what the socket has not taken, and the tunnel closes; what
  \<open>Close\<close> needs is \<open>tunnel_core\<close>.\<close>

definition tunnel_core :: "'a owner_inv \<Rightarrow> 'a tunnel_scheme \<Rightarrow> bool" where
  "tunnel_core P w \<longleftrightarrow> bytes_ok w \<and> queue_ok w \<and> socket_ok w \<and> tracking_ok w \<and> closing_ok P w"

definition tunnel_ok :: "'a owner_inv \<Rightarrow> 'a tunnel_scheme \<Rightarrow> bool" where
  "tunnel_ok P w \<longleftrightarrow> tunnel_core P w \<and> exact_ok w"

lemmas tunnel_core_defs = tunnel_core_def bytes_ok_def queue_ok_def socket_ok_def tracking_ok_def closing_ok_def
lemmas tunnel_ok_defs = tunnel_ok_def exact_ok_def tunnel_core_defs

text \<open>What the tunnel may rely on after a call into the stream: nothing of its own
  changed unless the tunnel was closed meanwhile, and even then not the bytes.\<close>

definition kept_by_close :: "'a tunnel_scheme \<Rightarrow> 'a tunnel_scheme \<Rightarrow> bool" where
  "kept_by_close w w' \<longleftrightarrow>
     cn_now w' = cn_now w \<and> tn_id w' = tn_id w \<and> tn_pending_to_tcp w' = tn_pending_to_tcp w \<and>
     tn_seed w' = tn_seed w \<and> tn_read w' = tn_read w \<and> tn_to_socket w' = tn_to_socket w \<and>
     tn_from_tcp w' = tn_from_tcp w \<and> sk_written w' = sk_written w \<and> sk_misuse w' = sk_misuse w \<and>
     tn_has_socket w' = tn_has_socket w \<and> tn_started w' = tn_started w \<and>
     tn_tcp_receive_done w' = tn_tcp_receive_done w \<and> tn_quic_receive_done w' = tn_quic_receive_done w \<and>
     tn_send_done_time w' = tn_send_done_time w \<and> tn_pending_seed_data w' = tn_pending_seed_data w"

definition undisturbed :: "'a tunnel_scheme \<Rightarrow> 'a tunnel_scheme \<Rightarrow> bool" where
  "undisturbed w w' \<longleftrightarrow>
     kept_by_close w w' \<and> (tn_closed w \<longrightarrow> tn_closed w') \<and>
     (tn_closed w \<or> \<not> tn_closed w' \<longrightarrow> quic_stream.more w' = quic_stream.more w)"

definition safe_call :: "'a owner_inv \<Rightarrow> 'a tunnel_scheme \<Rightarrow> 'a tunnel_scheme \<Rightarrow> bool" where
  "safe_call P w w' \<longleftrightarrow> (tunnel_ok P w \<longrightarrow> tunnel_ok P w' \<and> undisturbed w w')"

lemma stream_only_safe:
  assumes "stream_only w w'"
  shows "safe_call P w w'"
proof -
  have m: "quic_stream.more w' = quic_stream.more w" "cn_now w' = cn_now w"
    using assms by (simp_all add: stream_only_def)
  show ?thesis
    unfolding safe_call_def undisturbed_def kept_by_close_def tunnel_ok_defs same_more [OF m(1)] m
    by (simp only: simp_thms)
qed

lemma safe_call_refl: "safe_call P w w"
  by (rule stream_only_safe) (simp add: stream_only_def)

lemma safe_call_trans: "safe_call P u v \<Longrightarrow> safe_call P v w \<Longrightarrow> safe_call P u w"
  unfolding safe_call_def undisturbed_def kept_by_close_def by auto

section \<open>Close\<close>

text \<open>The owner's callback works on the owner's part of the state, where it notes the close.\<close>

locale tunnel_owner =
  fixes oc :: "'a tn_handler" and P :: "'a owner_inv"
  assumes oc_frame: "tunnel.truncate (oc w) = tunnel.truncate w"
    and oc_closes: "P False (tn_pending_seed_data w) (tunnel.more w) \<Longrightarrow>
      P True (tn_pending_seed_data w) (tunnel.more (oc w))"
begin

lemma oc_fields [simp]:
  "cn_now (oc w) = cn_now w" "tn_closed (oc w) = tn_closed w" "tn_id (oc w) = tn_id w"
  "tn_has_socket (oc w) = tn_has_socket w" "tn_has_on_closed (oc w) = tn_has_on_closed w"
  "tn_pending_to_tcp (oc w) = tn_pending_to_tcp w" "tn_send_in_flight (oc w) = tn_send_in_flight w"
  "tn_receive_in_flight (oc w) = tn_receive_in_flight w" "tn_tcp_receive_done (oc w) = tn_tcp_receive_done w"
  "tn_flush_close_alarm (oc w) = tn_flush_close_alarm w" "tn_send_done_time (oc w) = tn_send_done_time w"
  "tn_quic_receive_done (oc w) = tn_quic_receive_done w" "tn_started (oc w) = tn_started w"
  "tn_stalled (oc w) = tn_stalled w" "tn_socket_disconnected (oc w) = tn_socket_disconnected w"
  "tk_tracker (oc w) = tk_tracker w" "tk_activity (oc w) = tk_activity w" "tn_seed (oc w) = tn_seed w"
  "tn_read (oc w) = tn_read w" "tn_to_socket (oc w) = tn_to_socket w" "tn_from_tcp (oc w) = tn_from_tcp w"
  "tn_close_count (oc w) = tn_close_count w" "tn_pending_seed_data (oc w) = tn_pending_seed_data w" "sk_open (oc w) = sk_open w"
  "sk_receive_max_size (oc w) = sk_receive_max_size w" "sk_send_data (oc w) = sk_send_data w"
  "sk_send_remaining (oc w) = sk_send_remaining w" "sk_written (oc w) = sk_written w"
  "sk_misuse (oc w) = sk_misuse w" "cn_connected (oc w) = cn_connected w"
  "sq_buffer (oc w) = sq_buffer w" "st_diverged (oc w) = st_diverged w" "sq_blocked (oc w) = sq_blocked w"
  "sq_ignore_read_data (oc w) = sq_ignore_read_data w" "st_read_side_closed (oc w) = st_read_side_closed w"
  "st_send (oc w) = st_send w" "st_fin_buffered (oc w) = st_fin_buffered w" "st_fin_lost (oc w) = st_fin_lost w"
  "cn_data (oc w) = cn_data w" "st_write_side_closed (oc w) = st_write_side_closed w"
  "st_fin_sent (oc w) = st_fin_sent w" "st_fin_outstanding (oc w) = st_fin_outstanding w"
  using oc_frame [of w] by (simp_all add: tunnel.truncate_def)

text \<open>The state after \<open>Close\<close>: closed once, unlinked, the socket released and nothing in
  flight; the bytes and the clock as before.\<close>

lemma close_begin_fields:
  assumes "\<not> tn_closed w"
  shows "close_begin w = w\<lparr>tn_closed := True, tn_flush_close_alarm := None,
       tk_tracker := QuictunIdleTracker_Remove (tn_id w) (tk_tracker w),
       tn_close_count := tn_close_count w + 1\<rparr>"
  using assms by (simp add: close_begin_def dcheck_def)

lemma close_stop_reading_stream_only: "stream_only w (close_stop_reading w)"
  unfolding close_stop_reading_def by (simp add: quiet.R_refl quiet.R_QuicStream_StopReading)

lemma close_reset_stream_only: "stream_only w (close_reset b w)"
  unfolding close_reset_def by (simp add: quiet.R_refl quiet.R_Reset)

lemma close_ok:
  assumes ok: "tunnel_core P w" and nc: "\<not> tn_closed w"
  shows "tunnel_ok P (QuictunTunnel_Close oc b w)" "tn_closed (QuictunTunnel_Close oc b w)"
    "kept_by_close w (QuictunTunnel_Close oc b w)"
proof -
  define w1 where "w1 = close_begin w"
  define w2 where "w2 = close_stop_reading w1"
  define w3 where "w3 = close_socket w2"
  define w4 where "w4 = close_notify oc w3"
  define w5 where "w5 = close_reset b w4"
  have w5_eq: "QuictunTunnel_Close oc b w = w5"
    by (simp add: QuictunTunnel_Close_def w1_def w2_def w3_def w4_def w5_def)
  have 2: "quic_stream.more w2 = quic_stream.more w1" "cn_now w2 = cn_now w1"
    using close_stop_reading_stream_only [of w1] by (simp_all add: w2_def stream_only_def)
  have 5: "quic_stream.more w5 = quic_stream.more w4" "cn_now w5 = cn_now w4"
    using close_reset_stream_only [of w4 b] by (simp_all add: w5_def stream_only_def)
  note f1 = close_begin_fields [OF nc, folded w1_def]
  note f2 = same_more [OF 2(1), unfolded f1, simplified]
  have 3: "w3 = (if tn_has_socket w \<and> \<not> tn_socket_disconnected w \<and> sk_open w
      then w2\<lparr>tn_socket_disconnected := True, sk_open := False, sk_receive_max_size := None, sk_send_data := None,
        sk_send_remaining := [],
        tn_receive_in_flight := (if sk_receive_max_size w \<noteq> None then False else tn_receive_in_flight w),
        tn_send_in_flight := (if sk_send_data w \<noteq> None then False else tn_send_in_flight w)\<rparr>
      else if tn_has_socket w \<and> \<not> tn_socket_disconnected w then w2\<lparr>tn_socket_disconnected := True\<rparr> else w2)"
    by (auto simp: w3_def close_socket_def QuictunAcceptedTcpSocket_Disconnect_def QuictunAcceptedTcpSocket_Close_def
        dcheck_def closed_ReceiveComplete_def closed_SendComplete_def Let_def f2)
  have 4: "w4 = oc (w3\<lparr>tn_has_on_closed := False\<rparr>)"
    using ok nc by (auto simp: w4_def close_notify_def 3 f2 tunnel_core_defs)
  note f5 = same_more [OF 5(1), unfolded 4, simplified]
  let ?v = "w3\<lparr>tn_has_on_closed := False\<rparr>"
  have v: "tunnel.more ?v = tunnel.more w" "tn_pending_seed_data ?v = tn_pending_seed_data w" by (simp_all add: 3 f2)
  have p: "P True (tn_pending_seed_data w) (tunnel.more (oc ?v))"
    using oc_closes [of ?v] ok nc unfolding v by (simp add: tunnel_core_def closing_ok_def)
  have c: "tracker_class (QuictunIdleTracker_Remove (tn_id w) (tk_tracker w)) (tn_id w) = None"
    by (simp add: wf_simps)
  show "tn_closed (QuictunTunnel_Close oc b w)" unfolding w5_eq f5 by (simp add: 3 f2)
  show "kept_by_close w (QuictunTunnel_Close oc b w)"
    unfolding w5_eq kept_by_close_def f5 5(2) 4 using 2(2) by (simp add: 3 f2 f1)
  show "tunnel_ok P (QuictunTunnel_Close oc b w)"
    unfolding w5_eq tunnel_ok_def tunnel_core_def
  proof (intro conjI)
    show "exact_ok w5" unfolding exact_ok_def f5 by (simp add: 3 f2)
    show "bytes_ok w5" using ok nc unfolding bytes_ok_def f5 by (auto simp: 3 f2 tunnel_core_defs)
    show "queue_ok w5" using ok nc unfolding queue_ok_def f5 by (simp add: 3 f2 tunnel_core_defs)
    show "socket_ok w5" using ok nc unfolding socket_ok_def f5 by (auto simp: 3 f2 tunnel_core_defs)
    show "tracking_ok w5" using ok nc 2(2) tracker_ok_Remove [of _ _ "tk_tracker w"] c
      unfolding tracking_ok_def f5 5(2) 4 by (simp add: 3 f2 f1 tunnel_core_defs)
    have "tn_close_count w3 = 1" "tn_closed w3" "tn_flush_close_alarm w3 = None" using ok nc by (simp_all add: 3 f2 tunnel_core_defs)
    then show "closing_ok P w5" using p v(2) unfolding closing_ok_def f5 by (simp add: f5)
  qed
qed

text \<open>\<open>Close\<close> also keeps both ends of the stream.\<close>

lemma close_by_steps:
  assumes t: "\<And>u v w. R u v \<Longrightarrow> R v w \<Longrightarrow> R u w"
    and "\<And>w. R w (close_begin w)" "\<And>w. R w (close_stop_reading w)" "\<And>w. R w (close_socket w)"
      "\<And>w. R w (close_notify oc w)" "\<And>w. R w (close_reset b w)"
  shows "R w (QuictunTunnel_Close oc b w)"
  unfolding QuictunTunnel_Close_def 
  by (rule t [OF t [OF t [OF t [OF assms(2,3)] assms(4)] assms(5)] assms(6)])

lemmas close_step_defs = close_begin_def close_socket_def close_notify_def QuictunAcceptedTcpSocket_Disconnect_def
  QuictunAcceptedTcpSocket_Close_def closed_ReceiveComplete_def closed_SendComplete_def dcheck_def Let_def

lemma close_recv: "recv_keeps \<sigma> w (QuictunTunnel_Close oc b w)"
proof (rule close_by_steps [where R = "recv_keeps \<sigma>"])
  show "recv_keeps \<sigma> u w" if "recv_keeps \<sigma> u v" "recv_keeps \<sigma> v w" for u v w using that by (rule recv_keeps_trans)
  show "recv_keeps \<sigma> w (close_stop_reading w)" for w
    by (simp add: close_stop_reading_def recv_keeps_refl quiet_recv.R_QuicStream_StopReading)
  show "recv_keeps \<sigma> w (close_reset b w)" for w
    by (simp add: close_reset_def recv_keeps_refl quiet_recv.R_Reset)
qed (rule recv_keeps_same; simp add: close_step_defs)+

lemma close_send: "send_keeps w (QuictunTunnel_Close oc b w)"
proof (rule close_by_steps [where R = send_keeps])
  show "send_keeps u w" if "send_keeps u v" "send_keeps v w" for u v w using that by (rule send_keeps_trans)
  show "send_keeps w (close_stop_reading w)" for w
    by (simp add: close_stop_reading_def send_keeps_refl quiet_send.R_QuicStream_StopReading)
  show "send_keeps w (close_reset b w)" for w
    by (simp add: close_reset_def send_keeps_refl quiet_send.R_Reset)
qed (rule send_keeps_same; simp add: close_step_defs same_send_def)+

lemma close_same_send: "same_send w (QuictunTunnel_Close oc b w)"
proof (rule close_by_steps [where R = same_send])
  show "same_send u w" if "same_send u v" "same_send v w" for u v w using that by (rule quiet_same.R_trans)
  show "same_send w (close_stop_reading w)" for w
    by (simp add: close_stop_reading_def quiet_same.R_refl quiet_same.R_QuicStream_StopReading)
  show "same_send w (close_reset b w)" for w
    by (simp add: close_reset_def quiet_same.R_refl quiet_same.R_Reset)
qed (simp_all add: close_step_defs same_send_def)

lemma gone_safe: "safe_call P w (tn_gone oc w)"
  using close_ok [of w False] safe_call_refl
  by (auto simp: QuictunTunnel_OnStreamGone_def safe_call_def undisturbed_def tunnel_ok_def)

lemma gone_recv: "recv_keeps \<sigma> w (tn_gone oc w)"
  by (simp add: QuictunTunnel_OnStreamGone_def recv_keeps_refl close_recv)

lemma gone_send: "send_keeps w (tn_gone oc w)" "same_send w (tn_gone oc w)"
  by (simp_all add: QuictunTunnel_OnStreamGone_def send_keeps_refl close_send close_same_send quiet_same.R_refl)

lemma lost_same_send: "same_send w (tn_lost oc c w)"
  unfolding tn_lost_def by (rule connection_lost_send) (rule gone_send)

text \<open>Hence every call of the tunnel into the stream keeps its contracts.\<close>

lemma safe_effects: "stream_effects (safe_call P) (tn_gone oc) (tn_lost oc)"
proof -
  have "stream_effects (safe_call P) (tn_gone oc) (\<lambda>_ w. w)"
    by unfold_locales
      (erule (1) safe_call_trans | rule gone_safe stream_only_safe | simp add: stream_only_def)+
  then show ?thesis unfolding tn_lost_def
    by (rule stream_effects.with_disconnect) (rule stream_only_safe; simp add: stream_only_def)
qed

lemma recv_effects: "stream_effects (recv_keeps \<sigma>) (tn_gone oc) (tn_lost oc)"
  unfolding tn_lost_def by (rule recv_effects_lost) (rule gone_recv)

lemma safe_writes: "stream_writes (safe_call P) (tn_gone oc) (tn_lost oc)"
  by (rule stream_writes.intro [OF safe_effects], unfold_locales)
    (auto simp: gone_send lost_same_send stream_only_def record_data_def QuicStream_OnStreamDataConsumed_def
      intro!: stream_only_safe)

lemma recv_writes: "stream_writes (recv_keeps \<sigma>) (tn_gone oc) (tn_lost oc)"
  by (rule stream_writes.intro [OF recv_effects], unfold_locales)
    (auto simp: gone_send lost_same_send record_data_def QuicStream_OnStreamDataConsumed_def
      intro!: recv_keeps_same)

lemma send_writes: "stream_writes send_keeps (tn_gone oc) (tn_lost oc)"
  unfolding tn_lost_def by (rule send_writes_lost) (rule gone_send)+

end

end
