(* ===== verification/Tunnel_Invariant.thy ===== *)
theory Tunnel_Invariant
  imports Tunnel_Safety
begin

text \<open>
  The invariant of a tunnel and its stream, and that every operation of the tunnel keeps
  it.  \<open>\<sigma>\<close> is the peer's stream, \<open>k\<close> the offset where the tunnel starts to read it and \<open>m\<close>
  an offset up to which the stream was consumed before; \<open>pre\<close> is what the owner wrote to the stream before the tunnel started.

  \<^item> \<open>recv_inv\<close>: what the tunnel has read is the peer's stream from \<open>k\<close> on, without a gap.
  \<^item> \<open>send_inv\<close>: what was written to the stream is \<open>pre\<close> followed by what came from the TCP
    socket, and all of it as long as the stream takes data.
\<close>

definition recv_inv :: "(nat \<Rightarrow> byte) \<Rightarrow> nat \<Rightarrow> nat \<Rightarrow> 'a tunnel_scheme \<Rightarrow> bool" where
  "recv_inv \<sigma> k m w \<longleftrightarrow>
     recv_ok \<sigma> (max m (k + length (tn_read w))) w \<and> tn_read w = map \<sigma> [k..<k + length (tn_read w)] \<and>
     (\<not> reading_stopped w \<longrightarrow> total_bytes_read (sq_buffer w) = k + length (tn_read w))"

definition send_inv :: "bytes \<Rightarrow> 'a tunnel_scheme \<Rightarrow> bool" where
  "send_inv pre w \<longleftrightarrow>
     conn_ok w \<and>
     (\<exists>n \<le> length (tn_from_tcp w).
        send_ok (pre @ take n (tn_from_tcp w)) w \<and> (\<not> send_done w \<longrightarrow> n = length (tn_from_tcp w)))"

text \<open>A tunnel that is done with its TCP side has its alarm set, for a time at which it
  closes at the latest.  This holds from the end of one event to the next; \<open>q\<close> says
  whether the invariant includes it.\<close>

definition alarm_ok :: "'a tunnel_scheme \<Rightarrow> bool" where
  "alarm_ok w \<longleftrightarrow>
     tn_closed w \<or> \<not> tn_tcp_receive_done w \<or>
     (\<exists>d. tn_flush_close_alarm w = Some d \<and> d \<le> tn_send_done_time w + kMaxFlushCloseWait)"

definition tunnel_inv :: "'a owner_inv \<Rightarrow> (nat \<Rightarrow> byte) \<Rightarrow> nat \<Rightarrow> nat \<Rightarrow> bytes \<Rightarrow> bool \<Rightarrow> 'a tunnel_scheme \<Rightarrow> bool" where
  "tunnel_inv P \<sigma> k m pre q w \<longleftrightarrow> tunnel_ok P w \<and> recv_inv \<sigma> k m w \<and> send_inv pre w \<and> (q \<longrightarrow> alarm_ok w)"

text \<open>A change of the tunnel's own fields does not touch the stream.\<close>

definition same_stream :: "'a tunnel_scheme \<Rightarrow> 'a tunnel_scheme \<Rightarrow> bool" where
  "same_stream w w' \<longleftrightarrow>
     quic_stream.truncate w' = quic_stream.truncate w \<and> tn_read w' = tn_read w \<and> tn_from_tcp w' = tn_from_tcp w"

definition same_alarm :: "'a tunnel_scheme \<Rightarrow> 'a tunnel_scheme \<Rightarrow> bool" where
  "same_alarm w w' \<longleftrightarrow>
     tn_closed w' = tn_closed w \<and> tn_tcp_receive_done w' = tn_tcp_receive_done w \<and>
     tn_flush_close_alarm w' = tn_flush_close_alarm w \<and> tn_send_done_time w' = tn_send_done_time w"

lemma inv_parts:
  assumes "tunnel_inv P \<sigma> k m pre q w"
  shows "bytes_ok w" "queue_ok w" "socket_ok w" "tracking_ok w" "closing_ok P w" "exact_ok w"
  using assms by (simp_all add: tunnel_inv_def tunnel_ok_def tunnel_core_def)

lemma tunnel_okI: "bytes_ok w \<Longrightarrow> queue_ok w \<Longrightarrow> socket_ok w \<Longrightarrow> tracking_ok w \<Longrightarrow> closing_ok P w \<Longrightarrow> exact_ok w \<Longrightarrow> tunnel_ok P w"
  by (simp add: tunnel_ok_def tunnel_core_def)

lemma same_stream_inv:
  assumes "same_stream w w'"
  shows "recv_inv \<sigma> k m w' = recv_inv \<sigma> k m w" "send_inv pre w' = send_inv pre w"
  using assms
  by (simp_all add: same_stream_def quic_stream.truncate_def recv_inv_def recv_ok_def reading_stopped_def
      send_inv_def send_ok_def send_done_def conn_ok_def QuicStream_BufferedDataBytes_def)

lemma same_alarm_ok: "same_alarm w w' \<Longrightarrow> alarm_ok w' = alarm_ok w"
  by (simp add: same_alarm_def alarm_ok_def)

lemma inv_own:
  "tunnel_inv P \<sigma> k m pre q w \<Longrightarrow> same_stream w w' \<Longrightarrow> same_alarm w w' \<Longrightarrow> tunnel_ok P w' \<Longrightarrow> tunnel_inv P \<sigma> k m pre q w'"
  by (simp add: tunnel_inv_def same_stream_inv same_alarm_ok)

lemma undisturbed_alarm: "undisturbed w w' \<Longrightarrow> alarm_ok w \<Longrightarrow> alarm_ok w'"
  using same_more(1,8,9,10) [of w' w] by (auto simp: undisturbed_def alarm_ok_def)

lemma recv_inv_keeps:
  "recv_inv \<sigma> k m w \<Longrightarrow> recv_keeps \<sigma> w w' \<Longrightarrow> tn_read w' = tn_read w \<Longrightarrow> recv_inv \<sigma> k m w'"
  unfolding recv_inv_def recv_keeps_def by metis

lemma send_inv_keeps:
  assumes "send_inv pre w" "send_keeps w w'" "tn_from_tcp w' = tn_from_tcp w"
  shows "send_inv pre w'"
proof -
  obtain n where "n \<le> length (tn_from_tcp w)" "send_ok (pre @ take n (tn_from_tcp w)) w" "conn_ok w"
      "\<not> send_done w \<longrightarrow> n = length (tn_from_tcp w)"
    using assms(1) unfolding send_inv_def by blast
  then show ?thesis
    using assms(2) unfolding send_inv_def send_keeps_def data_keeps_def send_done_def assms(3)
    by (intro conjI exI [of _ n]) auto
qed

lemma inv_call:
  assumes i: "tunnel_inv P \<sigma> k m pre q w" and s: "safe_call P w w'" "recv_keeps \<sigma> w w'" "send_keeps w w'"
  shows "tunnel_inv P \<sigma> k m pre q w'" "undisturbed w w'"
proof -
  show u: "undisturbed w w'" using i s(1) by (simp add: tunnel_inv_def safe_call_def)
  then have f: "tn_read w' = tn_read w" "tn_from_tcp w' = tn_from_tcp w"
    by (simp_all add: undisturbed_def kept_by_close_def)
  then show "tunnel_inv P \<sigma> k m pre q w'"
    using i s(1) recv_inv_keeps [OF _ s(2)] send_inv_keeps [OF _ s(3)] undisturbed_alarm [OF u]
    by (simp add: tunnel_inv_def safe_call_def)
qed

text \<open>The fields the invariant does not mention.\<close>

lemma tunnel_ok_fields [simp]:
  "tunnel_ok P (w\<lparr>tn_from_tcp := x\<rparr>) = tunnel_ok P w" "tunnel_ok P (w\<lparr>tn_quic_receive_done := b\<rparr>) = tunnel_ok P w"
  "tunnel_ok P (w\<lparr>tn_tcp_receive_done := b, tn_send_done_time := t\<rparr>) = tunnel_ok P w"
  "tunnel_ok P (w\<lparr>sq_buffer := sb\<rparr>) = tunnel_ok P w"
  by (simp_all add: tunnel_ok_defs)

lemma recv_inv_fields [simp]:
  "recv_inv \<sigma> k m (w\<lparr>tn_from_tcp := x\<rparr>) = recv_inv \<sigma> k m w"
  by (simp add: recv_inv_def recv_ok_def reading_stopped_def)

section \<open>The idle tracker\<close>

lemma NoteActivity_same_stream: "same_stream w (QuictunTunnel_NoteActivity w)"
  by (simp add: QuictunTunnel_NoteActivity_def same_stream_def quic_stream.truncate_def Let_def)

lemma UpdateIdleClass_same_stream: "same_stream w (QuictunTunnel_UpdateIdleClass w)"
  by (simp add: QuictunTunnel_UpdateIdleClass_def same_stream_def quic_stream.truncate_def Let_def)

lemma tracker_ops_alarm: "same_alarm w (QuictunTunnel_NoteActivity w)" "same_alarm w (QuictunTunnel_UpdateIdleClass w)"
  by (simp_all add: QuictunTunnel_NoteActivity_def QuictunTunnel_UpdateIdleClass_def same_alarm_def Let_def)

lemma tracker_update:
  assumes "tunnel_ok P w" "w' = w\<lparr>tk_activity := a, tn_stalled := s, tk_tracker := t\<rparr>" "tracking_ok w'"
  shows "tunnel_ok P w'"
proof -
  have "bytes_ok w' = bytes_ok w" "queue_ok w' = queue_ok w" "socket_ok w' = socket_ok w"
    "closing_ok P w' = closing_ok P w" "exact_ok w' = exact_ok w"
    using assms(2) by (simp_all add: bytes_ok_def queue_ok_def socket_ok_def closing_ok_def exact_ok_def)
  then show ?thesis using assms(1,3) by (simp add: tunnel_ok_def tunnel_core_def)
qed

lemma NoteActivity_ok:
  assumes ok: "tunnel_ok P w" and st: "tn_started w"
  shows "tunnel_ok P (QuictunTunnel_NoteActivity w)"
proof (cases "tn_closed w")
  case False
  let ?b = "QuictunTunnel_IsHoldingBuffer w"
  have t: "tracker_ok (tk_activity w) (cn_now w) (tk_tracker w)" using ok by (simp add: tunnel_ok_defs)
  note tracker_ok_Touch [OF t order_refl, of "tn_id w" ?b] tracker_class_Touch [OF t, of "tn_id w" ?b]
  then show ?thesis using False st
    by (intro tracker_update [OF ok]) (simp_all add: QuictunTunnel_NoteActivity_def tracking_ok_def Let_def)
qed (simp add: QuictunTunnel_NoteActivity_def ok)

lemma UpdateIdleClass_ok:
  assumes ok: "tunnel_ok P w"
  shows "tunnel_ok P (QuictunTunnel_UpdateIdleClass w)"
proof (cases "tn_closed w \<or> QuictunTunnel_IsHoldingBuffer w = tn_stalled w")
  case False
  let ?b = "QuictunTunnel_IsHoldingBuffer w"
  have t: "tracker_ok (tk_activity w) (cn_now w) (tk_tracker w)"
    and c: "tracker_class (tk_tracker w) (tn_id w) = (if tn_started w \<and> \<not> tn_closed w then Some (tn_stalled w) else None)"
    using ok by (simp_all add: tunnel_ok_defs)
  note tracker_ok_Refile [OF t order_refl, of "tn_id w" ?b] tracker_class_Refile [OF t, of "tn_id w" ?b]
  then show ?thesis using False c
    by (intro tracker_update [OF ok, where a = "(tk_activity w)(tn_id w := cn_now w)" and s = ?b
          and t = "QuictunIdleTracker_Refile (tn_id w) ?b (tk_tracker w)"]) (simp_all add: QuictunTunnel_UpdateIdleClass_def tracking_ok_def Let_def)
qed (auto simp: QuictunTunnel_UpdateIdleClass_def ok Let_def)

lemma NoteActivity_inv: "tunnel_inv P \<sigma> k m pre q w \<Longrightarrow> tn_started w \<Longrightarrow> tunnel_inv P \<sigma> k m pre q (QuictunTunnel_NoteActivity w)"
  by (rule inv_own [OF _ NoteActivity_same_stream tracker_ops_alarm(1) NoteActivity_ok]) (simp_all add: tunnel_inv_def)

lemma UpdateIdleClass_inv: "tunnel_inv P \<sigma> k m pre q w \<Longrightarrow> tunnel_inv P \<sigma> k m pre q (QuictunTunnel_UpdateIdleClass w)"
  by (rule inv_own [OF _ UpdateIdleClass_same_stream tracker_ops_alarm(2) UpdateIdleClass_ok]) (simp_all add: tunnel_inv_def)

lemma tracker_ops_fields [simp]:
  "tn_closed (QuictunTunnel_NoteActivity w) = tn_closed w" "tn_started (QuictunTunnel_NoteActivity w) = tn_started w"
  "tn_pending_to_tcp (QuictunTunnel_NoteActivity w) = tn_pending_to_tcp w" "tn_read (QuictunTunnel_NoteActivity w) = tn_read w"
  "tn_from_tcp (QuictunTunnel_NoteActivity w) = tn_from_tcp w"
  "tn_closed (QuictunTunnel_UpdateIdleClass w) = tn_closed w" "tn_started (QuictunTunnel_UpdateIdleClass w) = tn_started w"
  by (simp_all add: QuictunTunnel_NoteActivity_def QuictunTunnel_UpdateIdleClass_def Let_def)

section \<open>Calls into the stream\<close>

lemma undisturbed_trans: "undisturbed u v \<Longrightarrow> undisturbed v w \<Longrightarrow> undisturbed u w"
  unfolding undisturbed_def kept_by_close_def by auto

text \<open>What \<open>Read\<close> does after it has taken the bytes from the buffer.\<close>

lemma Read_call:
  assumes e: "stream_effects R gone lost"
    and r: "QuictunStream_Read lost gone n w = (data, fin, v)"
    and b: "QuicStreamSequencerBuffer_Readv n [] (sq_buffer w) = Some (QUIC_NO_ERROR, data, b)"
  shows "R (w\<lparr>sq_buffer := b\<rparr>) v"
proof -
  let ?w = "QuicStream_AddBytesConsumed (write_frame lost) (length data) (w\<lparr>sq_buffer := b\<rparr>)"
  have "v = (if fin then QuicStream_OnFinRead (write_frame lost) gone ?w else ?w)"
    using r b by (auto simp: QuictunStream_Read_def QuicStreamSequencer_Readv_def Let_def)
  moreover have "R (w\<lparr>sq_buffer := b\<rparr>) ?w"
    by (rule stream_effects.R_AddBytesConsumed [OF e stream_effects.R_write_frame [OF e]])
  moreover have "R ?w (QuicStream_OnFinRead (write_frame lost) gone ?w)"
    by (rule stream_effects.R_OnFinRead [OF e stream_effects.R_write_frame [OF e]])
  ultimately show ?thesis using stream_effects.R_trans [OF e] by auto
qed

context tunnel_owner
begin

lemma close_inv:
  assumes "tunnel_core P w" "recv_inv \<sigma> k m w" "send_inv pre w" "\<not> tn_closed w"
  shows "tunnel_inv P \<sigma> k m pre q (QuictunTunnel_Close oc b w)" "tn_closed (QuictunTunnel_Close oc b w)"
    "kept_by_close w (QuictunTunnel_Close oc b w)"
  using close_ok [OF assms(1,4)] recv_inv_keeps [OF assms(2) close_recv] send_inv_keeps [OF assms(3) close_send]
  by (simp_all add: tunnel_inv_def kept_by_close_def alarm_ok_def)

lemma inv_AddBytesConsumed:
  assumes "tunnel_inv P \<sigma> k m pre q w"
  shows "tunnel_inv P \<sigma> k m pre q (QuicStream_AddBytesConsumed (write_frame (tn_lost oc)) n w)"
    "undisturbed w (QuicStream_AddBytesConsumed (write_frame (tn_lost oc)) n w)"
  using inv_call [OF assms] stream_effects.R_AddBytesConsumed stream_effects.R_write_frame
    safe_effects recv_effects [of \<sigma>] stream_writes.axioms(1) [OF send_writes] by metis+

lemma inv_OnFinRead:
  assumes "tunnel_inv P \<sigma> k m pre q w"
  shows "tunnel_inv P \<sigma> k m pre q (QuicStream_OnFinRead (write_frame (tn_lost oc)) (tn_gone oc) w)"
    "undisturbed w (QuicStream_OnFinRead (write_frame (tn_lost oc)) (tn_gone oc) w)"
  using inv_call [OF assms] stream_effects.R_OnFinRead stream_effects.R_write_frame
    safe_effects recv_effects [of \<sigma>] stream_writes.axioms(1) [OF send_writes] by metis+

text \<open>A write takes what came from the TCP socket; when the stream takes no more, the
  data is dropped.\<close>

lemma write_send:
  assumes s: "send_inv pre w" and w1: "w1 = w\<lparr>tn_from_tcp := tn_from_tcp w @ d\<rparr>"
    and f: "tn_from_tcp (QuicStream_WriteOrBufferData (tn_lost oc) (tn_gone oc) d fin w1) = tn_from_tcp w1"
  shows "send_inv pre (QuicStream_WriteOrBufferData (tn_lost oc) (tn_gone oc) d fin w1)" (is "send_inv pre ?w")
proof -
  obtain n where n: "n \<le> length (tn_from_tcp w)" "send_ok (pre @ take n (tn_from_tcp w)) w" "conn_ok w"
      "\<not> send_done w \<longrightarrow> n = length (tn_from_tcp w)"
    using s unfolding send_inv_def by blast
  let ?D = "pre @ take n (tn_from_tcp w)"
  have 1: "send_ok ?D w1" "conn_ok w1" "take n (tn_from_tcp w1) = take n (tn_from_tcp w)" "send_done w1 = send_done w"
    using n by (simp_all add: w1 send_ok_def conn_ok_def send_done_def QuicStream_BufferedDataBytes_def)
  show ?thesis
  proof (cases "tn_lost oc" "tn_gone oc" d fin w1 rule: WriteOrBufferData_cases)
    case dropped
    then show ?thesis using n 1 f unfolding send_inv_def
      by (intro conjI exI [of _ n]) (auto simp: w1 send_done_def)
  next
    case overflow
    let ?v = "w1\<lparr>st_fin_buffered := fin\<rparr>"
    have v: "send_ok ?D ?v" "conn_ok ?v" "cn_connected ?v"
      using 1 overflow by (auto simp: send_ok_def conn_ok_def QuicStream_BufferedDataBytes_def)
    have k: "send_keeps ?v ?w" using overflow stream_effects.R_lost [OF stream_writes.axioms(1) [OF send_writes]] by metis
    have "st_write_side_closed ?w" unfolding overflow(1) unfolding tn_lost_def
      by (rule lost_closes) (use v gone_send in \<open>auto simp: send_keeps_def data_keeps_def\<close>)
    then show ?thesis using k v n 1 f unfolding send_inv_def send_keeps_def data_keeps_def
      by (intro conjI exI [of _ n]) (auto simp: w1 send_done_def)
  next
    case accepted
    let ?v = "accept_data d fin w1"
    have "send_ok (?D @ d) ?v" by (rule accept_data_ok [OF 1(1) accepted(2)])
    moreover have "?D @ d = pre @ take (length (tn_from_tcp w1)) (tn_from_tcp w1)"
      using n(4) 1(4) accepted(2,3) by (simp add: send_done_def w1)
    moreover have "conn_ok ?v" using 1 by (simp add: conn_ok_def accept_data_def Let_def)
    moreover have "send_keeps ?v ?w"
      using accepted(1) send_keeps_refl stream_writes.R_WriteBufferedData [OF send_writes] by metis
    ultimately show ?thesis unfolding send_inv_def send_keeps_def data_keeps_def f
      by (intro conjI exI [of _ "length (tn_from_tcp w1)"]) auto
  qed
qed

lemma write_inv:
  assumes i: "tunnel_inv P \<sigma> k m pre q w" and w1: "w1 = w\<lparr>tn_from_tcp := tn_from_tcp w @ d\<rparr>"
  shows "tunnel_inv P \<sigma> k m pre q (QuictunStream_WriteToStream (tn_lost oc) (tn_gone oc) d fin w1)"
    "undisturbed w1 (QuictunStream_WriteToStream (tn_lost oc) (tn_gone oc) d fin w1)"
proof -
  let ?w = "QuicStream_WriteOrBufferData (tn_lost oc) (tn_gone oc) d fin w1"
  have "safe_call P w1 ?w"
    by (rule stream_writes.R_WriteOrBufferData [OF safe_writes])
      (auto simp: stream_only_def accept_data_def Let_def intro!: stream_only_safe)
  moreover have "tunnel_ok P w1" "recv_inv \<sigma> k m w1"
    using i by (simp_all add: w1 tunnel_inv_def)
  ultimately have ok: "tunnel_ok P ?w" and u: "undisturbed w1 ?w" by (simp_all add: safe_call_def)
  then have f: "tn_from_tcp ?w = tn_from_tcp w1" "tn_read ?w = tn_read w1"
    by (simp_all add: undisturbed_def kept_by_close_def)
  have "recv_keeps \<sigma> w1 ?w"
    by (rule stream_writes.R_WriteOrBufferData [OF recv_writes])
      (auto simp: accept_data_def Let_def intro!: recv_keeps_same)
  then have "recv_inv \<sigma> k m ?w" using \<open>recv_inv \<sigma> k m w1\<close> f(2) by (metis recv_inv_keeps)
  moreover have "send_inv pre w" using i by (simp add: tunnel_inv_def)
  then have "send_inv pre ?w" using write_send [OF _ w1 f(1)] by blast
  moreover have "q \<longrightarrow> alarm_ok w1" using i by (simp add: tunnel_inv_def w1 alarm_ok_def)
  ultimately show "tunnel_inv P \<sigma> k m pre q (QuictunStream_WriteToStream (tn_lost oc) (tn_gone oc) d fin w1)"
      "undisturbed w1 (QuictunStream_WriteToStream (tn_lost oc) (tn_gone oc) d fin w1)"
    using ok u undisturbed_alarm [OF u] by (simp_all add: tunnel_inv_def QuictunStream_WriteToStream_def)
qed

section \<open>Closing in order\<close>

lemma alarm_inv:
  assumes "tunnel_inv P \<sigma> k m pre q w" "\<not> tn_closed w" "r \<longrightarrow> alarm_ok (w\<lparr>tn_flush_close_alarm := a\<rparr>)"
  shows "tunnel_inv P \<sigma> k m pre r (w\<lparr>tn_flush_close_alarm := a\<rparr>)"
proof -
  let ?w = "w\<lparr>tn_flush_close_alarm := a\<rparr>"
  have "bytes_ok ?w = bytes_ok w" "queue_ok ?w = queue_ok w" "socket_ok ?w = socket_ok w"
    "tracking_ok ?w = tracking_ok w" "exact_ok ?w = exact_ok w" "closing_ok P w \<longrightarrow> closing_ok P ?w"
    using assms(2) by (simp_all add: bytes_ok_def queue_ok_def socket_ok_def tracking_ok_def closing_ok_def exact_ok_def)
  moreover have "same_stream w ?w" by (simp add: same_stream_def quic_stream.truncate_def)
  note same_stream_inv [OF this]
  ultimately show ?thesis using assms(1,3) by (simp add: tunnel_inv_def tunnel_ok_def tunnel_core_def)
qed

lemma inv_any: "tunnel_inv P \<sigma> k m pre q w \<Longrightarrow> (r \<Longrightarrow> alarm_ok w) \<Longrightarrow> tunnel_inv P \<sigma> k m pre r w"
  by (simp add: tunnel_inv_def)

lemma close_tunnel_inv:
  assumes "tunnel_inv P \<sigma> k m pre q w" "\<not> tn_closed w"
  shows "tunnel_inv P \<sigma> k m pre r (QuictunTunnel_Close oc b w)" "tn_started (QuictunTunnel_Close oc b w) = tn_started w"
  using close_inv(1) [of w \<sigma> k m pre r b] close_inv(3) [of w \<sigma> k m pre b] assms
  by (simp_all add: tunnel_inv_def tunnel_ok_def kept_by_close_def)

text \<open>\<open>MaybeFinalizeClose\<close> closes the tunnel or sets the alarm.\<close>

lemma MaybeFinalizeClose_inv:
  assumes i: "tunnel_inv P \<sigma> k m pre False w"
  shows "tunnel_inv P \<sigma> k m pre q (QuictunTunnel_MaybeFinalizeClose oc w)"
    "tn_started (QuictunTunnel_MaybeFinalizeClose oc w) = tn_started w"
proof -
  let ?d = "min (cn_now w + kFlushCloseRetryInterval) (tn_send_done_time w + kMaxFlushCloseWait)"
  have c: "tunnel_inv P \<sigma> k m pre q (QuictunTunnel_Close oc b (w\<lparr>tn_flush_close_alarm := None\<rparr>)) \<and>
      tn_started (QuictunTunnel_Close oc b (w\<lparr>tn_flush_close_alarm := None\<rparr>)) = tn_started w" if "\<not> tn_closed w" for b
    using close_tunnel_inv [OF alarm_inv [OF i that, of False None]] that by simp
  have a: "tunnel_inv P \<sigma> k m pre q (w\<lparr>tn_flush_close_alarm := Some ?d\<rparr>)" if "\<not> tn_closed w"
    by (rule alarm_inv [OF i that]) (simp add: alarm_ok_def)
  have k: "tunnel_inv P \<sigma> k m pre q w"
    if "tn_closed w \<or> \<not> tn_tcp_receive_done w \<or> (\<exists>t. tn_flush_close_alarm w = Some t \<and> \<not> t > ?d)"
    using that by (intro inv_any [OF i]) (auto simp: alarm_ok_def)
  show "tunnel_inv P \<sigma> k m pre q (QuictunTunnel_MaybeFinalizeClose oc w)"
      "tn_started (QuictunTunnel_MaybeFinalizeClose oc w) = tn_started w"
    using c a k by (auto simp: QuictunTunnel_MaybeFinalizeClose_def Let_def simp del: min_def split: option.split)
qed

lemma begin_send_done_inv:
  assumes i: "tunnel_inv P \<sigma> k m pre q w"
  shows "tunnel_inv P \<sigma> k m pre False (begin_send_done oc w)" "tn_started (begin_send_done oc w) = tn_started w"
proof -
  let ?w = "w\<lparr>tn_tcp_receive_done := True, tn_send_done_time := cn_now w\<rparr>"
  have "same_stream w ?w" by (simp add: same_stream_def quic_stream.truncate_def)
  from same_stream_inv [OF this] have "tunnel_inv P \<sigma> k m pre False ?w" using i by (simp add: tunnel_inv_def)
  from write_inv [OF this refl, of "[]" True]
  show "tunnel_inv P \<sigma> k m pre False (begin_send_done oc w)" "tn_started (begin_send_done oc w) = tn_started w"
    by (simp_all add: begin_send_done_def undisturbed_def kept_by_close_def)
qed

lemma MaybeCloseAfterQuicFin_inv:
  assumes "tunnel_inv P \<sigma> k m pre q w"
  shows "tunnel_inv P \<sigma> k m pre q (QuictunTunnel_MaybeCloseAfterQuicFin oc w)"
    "tn_started (QuictunTunnel_MaybeCloseAfterQuicFin oc w) = tn_started w"
  using assms begin_send_done_inv [OF assms] MaybeFinalizeClose_inv [OF inv_any [OF assms]]
    MaybeFinalizeClose_inv [OF begin_send_done_inv(1) [OF assms]]
  by (simp_all add: QuictunTunnel_MaybeCloseAfterQuicFin_def)

section \<open>Reading the stream\<close>

text \<open>One round of \<open>FillQueueFromStream\<close>: what \<open>Read\<close> returns is the next piece of the
  peer's stream, also when the call closes the tunnel.\<close>

lemma Read_inv:
  assumes i: "tunnel_inv P \<sigma> k m pre q w" and r: "QuictunStream_Read (tn_lost oc) (tn_gone oc) n w = (data, fin, v)" and n: "n > 0"
  shows "tunnel_ok P v" "send_inv pre v" "undisturbed w v" "length data \<le> n"
    "recv_inv \<sigma> k m (v\<lparr>tn_read := tn_read v @ data\<rparr>)"
proof -
  let ?m = "k + length (tn_read w)"
  have okm: "recv_ok \<sigma> (max m ?m) w" using i by (simp add: tunnel_inv_def recv_inv_def)
  then have ok: "recv_ok \<sigma> ?m w" by (simp add: recv_ok_def)
  obtain b where b: "QuicStreamSequencerBuffer_Readv n [] (sq_buffer w) = Some (QUIC_NO_ERROR, data, b)"
    and len: "length data \<le> n" and okb: "recv_ok \<sigma> ?m (w\<lparr>sq_buffer := b\<rparr>)"
    and tot: "total_bytes_read b = total_bytes_read (sq_buffer w) + length data"
    and dat: "data = map \<sigma> [total_bytes_read (sq_buffer w)..<total_bytes_read (sq_buffer w) + length data]"
    and stop: "reading_stopped w \<longrightarrow> data = []"
    using Readv_recv [OF ok n] r by (auto simp: QuictunStream_Read_def QuicStreamSequencer_Readv_def Let_def)
  define w1 where "w1 = w\<lparr>sq_buffer := b\<rparr>"
  note call = Read_call [OF _ r b, folded w1_def]
  have w1: "tunnel_ok P w1" "send_inv pre w1" "reading_stopped w1 = reading_stopped w" "tn_read w1 = tn_read w"
      "undisturbed w w1"
    using i by (simp_all add: w1_def tunnel_inv_def send_inv_def send_ok_def send_done_def conn_ok_def
        QuicStream_BufferedDataBytes_def reading_stopped_def undisturbed_def kept_by_close_def)
  have s: "tunnel_ok P v" "undisturbed w1 v" using call [OF safe_effects] w1 by (simp_all add: safe_call_def)
  then show "tunnel_ok P v" "undisturbed w v" "length data \<le> n"
    using undisturbed_trans [OF w1(5)] len by simp_all
  have f: "tn_read v = tn_read w" "tn_from_tcp v = tn_from_tcp w1"
    using s(2) w1(4) by (simp_all add: undisturbed_def kept_by_close_def)
  have "recv_ok \<sigma> (max m (?m + length data)) w1" using okb okm tot by (simp add: w1_def recv_ok_def reading_stopped_def)
  then have v: "recv_ok \<sigma> (max m (?m + length data)) v" "reading_stopped w1 \<longrightarrow> reading_stopped v"
      "\<not> reading_stopped v \<longrightarrow> total_bytes_read (sq_buffer v) = total_bytes_read b"
    using call [OF recv_effects [of \<sigma>]] by (auto simp: recv_keeps_def w1_def)
  have p: "\<not> reading_stopped w \<longrightarrow> total_bytes_read (sq_buffer w) = ?m" "tn_read w = map \<sigma> [k..<?m]"
    using i by (simp_all add: tunnel_inv_def recv_inv_def)
  have "data = map \<sigma> [?m..<?m + length data]" using dat p(1) stop by (cases "reading_stopped w") auto
  then have "tn_read w @ data = map \<sigma> [k..<?m + length data]"
    using p(2) upt_add_eq_append [of k ?m "length data"] by (metis le_add1 map_append)
  then show "recv_inv \<sigma> k m (v\<lparr>tn_read := tn_read v @ data\<rparr>)"
    using v tot p(1) w1(3) f
    by (auto simp: recv_inv_def recv_ok_def reading_stopped_def add.assoc)
  show "send_inv pre v"
    by (rule send_inv_keeps [OF w1(2) call [OF stream_writes.axioms(1) [OF send_writes]] f(2)])
qed

lemma push_ok:
  assumes "tunnel_ok P u" "tn_started u" "length (tn_pending_to_tcp u) < kMaxQueuedChunks" "data \<noteq> []" "length data \<le> kReadSize"
  shows "tunnel_ok P (u\<lparr>tn_pending_to_tcp := tn_pending_to_tcp u @ [data], tn_read := tn_read u @ data\<rparr>)"
proof -
  let ?u = "u\<lparr>tn_pending_to_tcp := tn_pending_to_tcp u @ [data], tn_read := tn_read u @ data\<rparr>"
  have "bytes_ok u \<longrightarrow> bytes_ok ?u" using assms(2) by (simp add: bytes_ok_def)
  moreover have "queue_ok u \<longrightarrow> queue_ok ?u" using assms(3-5) by (auto simp: queue_ok_def)
  moreover have "socket_ok ?u = socket_ok u" using assms(2) by (simp add: socket_ok_def)
  moreover have "tracking_ok ?u = tracking_ok u" "closing_ok P ?u = closing_ok P u" "exact_ok ?u = exact_ok u"
    by (simp_all add: tracking_ok_def closing_ok_def exact_ok_def)
  ultimately show ?thesis using assms(1) by (simp add: tunnel_ok_def tunnel_core_def)
qed

lemma read_chunk_inv:
  assumes i: "tunnel_inv P \<sigma> k m pre q w" and st: "tn_started w" and room: "length (tn_pending_to_tcp w) < kMaxQueuedChunks"
    and r: "read_chunk oc w = (data, fin, w')"
  shows "tunnel_inv P \<sigma> k m pre q w'" "tn_started w'"
    "length (tn_pending_to_tcp w') = length (tn_pending_to_tcp w) + (if data \<noteq> [] then 1 else 0)"
proof -
  obtain v where v: "QuictunStream_Read (tn_lost oc) (tn_gone oc) kReadSize w = (data, fin, v)"
    and w': "w' = (if data \<noteq> [] then (QuictunTunnel_NoteActivity v)
      \<lparr>tn_pending_to_tcp := tn_pending_to_tcp v @ [data], tn_read := tn_read v @ data\<rparr> else v)"
    using r by (auto simp: read_chunk_def Let_def split: prod.splits if_splits)
  note f = Read_inv [OF i v]
  have u: "tn_started v = tn_started w" "tn_pending_to_tcp v = tn_pending_to_tcp w"
    using f(3) by (simp_all add: kReadSize_def undisturbed_def kept_by_close_def)
  show "tn_started w'" "length (tn_pending_to_tcp w') = length (tn_pending_to_tcp w) + (if data \<noteq> [] then 1 else 0)"
    using u st w' by (simp_all split: if_splits)
  show "tunnel_inv P \<sigma> k m pre q w'"
  proof (cases "data = []")
    case True
    then show ?thesis using f w' i undisturbed_alarm [OF f(3)] by (simp add: tunnel_inv_def kReadSize_def)
  next
    case False
    let ?n = "QuictunTunnel_NoteActivity v"
    have "tunnel_ok P ?n" using NoteActivity_ok f(1) st u by (simp add: kReadSize_def)
    then have "tunnel_ok P w'" using push_ok [of ?n data] False w' st u room f(4) by (simp add: kReadSize_def)
    moreover have s: "same_stream (v\<lparr>tn_read := tn_read v @ data\<rparr>) w'"
      using False w' NoteActivity_same_stream [of v] by (simp add: same_stream_def quic_stream.truncate_def)
    moreover have "send_inv pre (v\<lparr>tn_read := tn_read v @ data\<rparr>) = send_inv pre v"
      by (simp add: send_inv_def send_ok_def send_done_def conn_ok_def QuicStream_BufferedDataBytes_def)
    moreover have "q \<longrightarrow> alarm_ok w'"
      using i undisturbed_alarm [OF f(3)] False same_alarm_ok [OF tracker_ops_alarm(1), of v]
      by (simp add: tunnel_inv_def kReadSize_def w' alarm_ok_def)
    ultimately show ?thesis using f(2,5) same_stream_inv [OF s] by (simp add: tunnel_inv_def kReadSize_def)
  qed
qed

text \<open>The loop ends before its fuel does: every round that goes on fills a slot.\<close>

lemma fill_rounds_inv:
  "tunnel_inv P \<sigma> k m pre q w \<Longrightarrow> tn_started w \<Longrightarrow> kMaxQueuedChunks - length (tn_pending_to_tcp w) \<le> fuel \<Longrightarrow>
   tunnel_inv P \<sigma> k m pre q (fill_rounds fuel oc w) \<and> tn_started (fill_rounds fuel oc w)"
proof (induction fuel arbitrary: w)
  case 0
  then show ?case by (subst (1 2) fill_rounds.simps) simp
next
  case (Suc fuel)
  show ?case
  proof (cases "kMaxQueuedChunks \<le> length (tn_pending_to_tcp w)")
    case False
    obtain data fin v where v: "read_chunk oc w = (data, fin, v)" by (metis prod_cases3)
    note c = read_chunk_inv [OF Suc.prems(1,2) _ v]
    have "tunnel_inv P \<sigma> k m pre q (v\<lparr>tn_quic_receive_done := True\<rparr>)"
      by (rule inv_own [OF c(1)])
        (use False c(1) in \<open>simp_all add: tunnel_inv_def same_stream_def same_alarm_def quic_stream.truncate_def\<close>)
    moreover have "tunnel_inv P \<sigma> k m pre q (fill_rounds fuel oc v) \<and> tn_started (fill_rounds fuel oc v)" if "data \<noteq> []"
      by (rule Suc.IH) (use False c that Suc.prems(3) in auto)
    ultimately show ?thesis using False v c by (subst (1 2) fill_rounds.simps) auto
  qed (use Suc.prems in \<open>subst (1 2) fill_rounds.simps, simp\<close>)
qed

lemma FillQueue_inv:
  assumes "tunnel_inv P \<sigma> k m pre q w" "tn_started w"
  shows "tunnel_inv P \<sigma> k m pre q (QuictunTunnel_FillQueueFromStream oc w)" "tn_started (QuictunTunnel_FillQueueFromStream oc w)"
  using fill_rounds_inv [OF assms, of kMaxQueuedChunks] UpdateIdleClass_inv
  by (auto simp: QuictunTunnel_FillQueueFromStream_def)

end

end
