(* ===== verification/Tunnel_Pump.thy ===== *)
theory Tunnel_Pump
  imports Tunnel_Invariant
begin

text \<open>
  The two pumps of a tunnel keep its invariant: receiving from the socket and writing to
  the stream, and reading the stream and sending to the socket.  Both call back inline,
  so the lemmas are stated for any completion that keeps the invariant and the two
  recursions are closed by induction on the answers of the kernel.
\<close>

definition live_inv :: "'a owner_inv \<Rightarrow> (nat \<Rightarrow> byte) \<Rightarrow> nat \<Rightarrow> nat \<Rightarrow> bytes \<Rightarrow> bool \<Rightarrow> 'a tunnel_scheme \<Rightarrow> bool" where
  "live_inv P \<sigma> k m pre q w \<longleftrightarrow> tunnel_inv P \<sigma> k m pre q w \<and> tn_started w"

lemma UpdateIdleClass_live: "live_inv P \<sigma> k m pre q w \<Longrightarrow> live_inv P \<sigma> k m pre q (QuictunTunnel_UpdateIdleClass w)"
  using UpdateIdleClass_inv [of P \<sigma> k m pre q w] by (simp add: live_inv_def)

section \<open>The socket's fields\<close>

text \<open>Only \<open>socket_ok\<close> reads the state of a receive.\<close>

lemma receive_fields:
  assumes i: "tunnel_inv P \<sigma> k m pre q w"
    and w': "w' = w\<lparr>tn_receive_in_flight := b, sk_receive_max_size := sz, sk_armed_read := a\<rparr>"
    and s: "socket_ok w'"
  shows "tunnel_inv P \<sigma> k m pre q w'"
proof (rule inv_own [OF i])
  have "bytes_ok w' = bytes_ok w" "queue_ok w' = queue_ok w" "tracking_ok w' = tracking_ok w"
    "closing_ok P w' = closing_ok P w" "exact_ok w' = exact_ok w"
    by (simp_all add: w' bytes_ok_def queue_ok_def tracking_ok_def closing_ok_def exact_ok_def)
  then show "tunnel_ok P w'" using i s by (simp add: tunnel_inv_def tunnel_ok_def tunnel_core_def)
qed (simp_all add: w' same_stream_def same_alarm_def quic_stream.truncate_def)

lemma receive_swap:
  "w\<lparr>tn_receive_in_flight := b, sk_receive_max_size := sz\<rparr> = w\<lparr>sk_receive_max_size := sz, tn_receive_in_flight := b\<rparr>"
  by simp

lemma live_parts:
  assumes "live_inv P \<sigma> k m pre q w"
  shows "bytes_ok w" "queue_ok w" "socket_ok w" "tracking_ok w" "closing_ok P w" "exact_ok w" "tunnel_core P w" "tn_started w"
  using inv_parts [of P \<sigma> k m pre q w] assms by (simp_all add: live_inv_def tunnel_core_def)

lemma socket_facts:
  assumes "live_inv P \<sigma> k m pre q w" "\<not> tn_closed w"
  shows "sk_open w" "tn_has_socket w" "tn_send_in_flight w \<longleftrightarrow> sk_send_data w \<noteq> None"
    "sk_send_data w \<noteq> None \<longleftrightarrow> sk_send_remaining w \<noteq> []" "tn_receive_in_flight w \<longleftrightarrow> sk_receive_max_size w \<noteq> None"
    "tn_to_socket w = sk_written w @ sk_send_remaining w"
  using live_parts(3,6,8) [OF assms(1)] assms(2) by (simp_all add: socket_ok_def exact_ok_def)

text \<open>A receive that is answered is no longer in flight.\<close>

lemma receive_answered:
  assumes "live_inv P \<sigma> k m pre q w" "\<not> tn_closed w"
  shows "live_inv P \<sigma> k m pre q (w\<lparr>sk_receive_max_size := None, tn_receive_in_flight := False\<rparr>)"
proof -
  have "tunnel_inv P \<sigma> k m pre q (w\<lparr>tn_receive_in_flight := False, sk_receive_max_size := None, sk_armed_read := sk_armed_read w\<rparr>)"
    by (rule receive_fields [OF _ refl])
      (use assms live_parts(3) [OF assms(1)] in \<open>auto simp: live_inv_def socket_ok_def\<close>)
  then show ?thesis using assms unfolding receive_swap by (simp add: live_inv_def receive_swap)
qed

lemma receive_started:
  assumes "live_inv P \<sigma> k m pre q w" "\<not> tn_closed w"
  shows "live_inv P \<sigma> k m pre q (w\<lparr>tn_receive_in_flight := True, sk_receive_max_size := Some sz\<rparr>)"
proof -
  have "tunnel_inv P \<sigma> k m pre q (w\<lparr>tn_receive_in_flight := True, sk_receive_max_size := Some sz, sk_armed_read := sk_armed_read w\<rparr>)"
    by (rule receive_fields [OF _ refl])
      (use assms live_parts(3) [OF assms(1)] in \<open>auto simp: live_inv_def socket_ok_def\<close>)
  then show ?thesis using assms by (simp add: live_inv_def)
qed

lemma receive_armed:
  assumes "live_inv P \<sigma> k m pre q w"
  shows "live_inv P \<sigma> k m pre q (w\<lparr>sk_armed_read := a\<rparr>)"
proof -
  have "socket_ok (w\<lparr>sk_armed_read := a\<rparr>) = socket_ok w" by (simp add: socket_ok_def)
  then have "tunnel_inv P \<sigma> k m pre q (w\<lparr>tn_receive_in_flight := tn_receive_in_flight w,
      sk_receive_max_size := sk_receive_max_size w, sk_armed_read := a\<rparr>)"
    using assms live_parts(3) [OF assms] by (intro receive_fields [OF _ refl]) (simp_all add: live_inv_def)
  then show ?thesis using assms by (simp add: live_inv_def)
qed

section \<open>Receiving from the socket\<close>

lemma receive_internal_inv:
  assumes i: "live_inv P \<sigma> k m pre q w" and c: "\<not> tn_closed w" and m: "sk_receive_max_size w \<noteq> None"
    and rc: "\<And>d v. a \<noteq> RecvUnavailable \<Longrightarrow> live_inv P \<sigma> k m pre q (v\<lparr>tn_receive_in_flight := False\<rparr>) \<Longrightarrow>
      live_inv P \<sigma> k m pre q (receive_complete d v)"
    and r: "QuictunAcceptedTcpSocket_ReceiveInternal a w = (d, v)"
  shows "live_inv P \<sigma> k m pre q (QuictunAcceptedTcpSocket_FinishOrRearmAsyncReceive receive_complete d v)"
proof -
  have "live_inv P \<sigma> k m pre q (receive_complete d (w\<lparr>sk_receive_max_size := None\<rparr>))" if "a \<noteq> RecvUnavailable" for d
    by (rule rc [OF that]) (use receive_answered [OF i c] in simp)
  then show ?thesis using r m i receive_armed [OF i]
    by (auto simp: QuictunAcceptedTcpSocket_ReceiveInternal_def QuictunAcceptedTcpSocket_FinishOrRearmAsyncReceive_def
        dcheck_def split: recv_result.splits)
qed

lemma receive_async_inv:
  assumes i: "live_inv P \<sigma> k m pre q w" and c: "\<not> tn_closed w" and m: "\<not> tn_receive_in_flight w"
    and rc: "\<And>d v. r \<noteq> RecvUnavailable \<Longrightarrow> live_inv P \<sigma> k m pre q (v\<lparr>tn_receive_in_flight := False\<rparr>) \<Longrightarrow>
      live_inv P \<sigma> k m pre q (receive_complete d v)"
  shows "live_inv P \<sigma> k m pre q (QuictunAcceptedTcpSocket_ReceiveAsync receive_complete kReadSize r (w\<lparr>tn_receive_in_flight := True\<rparr>))"
proof -
  let ?w = "w\<lparr>tn_receive_in_flight := True, sk_receive_max_size := Some kReadSize\<rparr>"
  have "live_inv P \<sigma> k m pre q ?w" by (rule receive_started [OF i c])
  moreover have "dcheck (kReadSize > 0 \<and> sk_open w \<and> sk_receive_max_size w = None) (w\<lparr>tn_receive_in_flight := True\<rparr>) =
      w\<lparr>tn_receive_in_flight := True\<rparr>"
    using socket_facts [OF i c] m by (simp add: dcheck_def kReadSize_def)
  ultimately show ?thesis
    using receive_internal_inv [of P \<sigma> k m pre q ?w r receive_complete] c rc
    by (simp add: QuictunAcceptedTcpSocket_ReceiveAsync_def Let_def split: prod.split)
qed

context tunnel_owner
begin

lemma ReceiveComplete_inv:
  assumes i: "live_inv P \<sigma> k m pre q (w\<lparr>tn_receive_in_flight := False\<rparr>)"
    and br: "\<And>v. live_inv P \<sigma> k m pre q v \<Longrightarrow> live_inv P \<sigma> k m pre q (begin_read v)"
  shows "live_inv P \<sigma> k m pre q (QuictunTunnel_ReceiveComplete oc begin_read data w)"
proof -
  define u where "u = w\<lparr>tn_receive_in_flight := False\<rparr>"
  have u: "tunnel_inv P \<sigma> k m pre q u" "tn_started u" using i by (simp_all add: u_def live_inv_def)
  have "live_inv P \<sigma> k m pre q (QuictunTunnel_MaybeFinalizeClose oc (begin_send_done oc u))"
    using MaybeFinalizeClose_inv [OF begin_send_done_inv(1) [OF u(1)]] begin_send_done_inv(2) [OF u(1)] u(2)
    by (simp add: live_inv_def)
  moreover have "live_inv P \<sigma> k m pre q (QuictunTunnel_Close oc True u)" if "\<not> tn_closed u"
    using close_tunnel_inv [OF u(1) that] u(2) by (simp add: live_inv_def)
  moreover have "live_inv P \<sigma> k m pre q (QuictunTunnel_UpdateIdleClass (let w = QuictunStream_WriteToStream (tn_lost oc) (tn_gone oc) d False
      ((QuictunTunnel_NoteActivity u)\<lparr>tn_from_tcp := tn_from_tcp u @ d\<rparr>) in
      if \<not> QuicStream_HasBufferedData w then begin_read w else w))" for d
  proof -
    let ?n = "QuictunTunnel_NoteActivity u"
    have n: "tunnel_inv P \<sigma> k m pre q ?n" by (rule NoteActivity_inv [OF u])
    have "(QuictunTunnel_NoteActivity u)\<lparr>tn_from_tcp := tn_from_tcp u @ d\<rparr> = ?n\<lparr>tn_from_tcp := tn_from_tcp ?n @ d\<rparr>" by simp
    from write_inv [OF n this, of False]
    have "live_inv P \<sigma> k m pre q (QuictunStream_WriteToStream (tn_lost oc) (tn_gone oc) d False
      ((QuictunTunnel_NoteActivity u)\<lparr>tn_from_tcp := tn_from_tcp u @ d\<rparr>))"
      using u(2) by (simp add: live_inv_def undisturbed_def kept_by_close_def)
    with br show ?thesis by (simp add: UpdateIdleClass_live Let_def)
  qed
  ultimately show ?thesis using i
    unfolding QuictunTunnel_ReceiveComplete_def Let_def u_def [symmetric] by (simp split: recv_result.split)
qed

lemma BeginReadFromTcp_inv: "live_inv P \<sigma> k m pre q w \<Longrightarrow> live_inv P \<sigma> k m pre q (QuictunTunnel_BeginReadFromTcp rs oc w)"
proof (induction rs arbitrary: w)
  case Nil
  then show ?case using receive_async_inv [OF Nil, of RecvUnavailable "\<lambda>_ w. w"]
    by (simp add: begin_read_guard_def)
next
  case (Cons r rs)
  have rc: "live_inv P \<sigma> k m pre q (QuictunTunnel_ReceiveComplete oc (QuictunTunnel_BeginReadFromTcp rs oc) d v)"
    if "live_inv P \<sigma> k m pre q (v\<lparr>tn_receive_in_flight := False\<rparr>)" for d v
    by (rule ReceiveComplete_inv [OF that Cons.IH])
  then show ?case using receive_async_inv [OF Cons.prems _ _ rc] Cons.prems by (simp add: begin_read_guard_def)
qed

end

section \<open>Sending to the socket\<close>

lemma send_fields:
  assumes i: "tunnel_core P w"
    and w': "w' = w\<lparr>sk_send_data := sd, sk_send_remaining := rm, sk_armed_write := a, sk_written := wr, tn_send_in_flight := b\<rparr>"
    and s: "socket_ok w'" "prefix wr (tn_to_socket w)"
  shows "tunnel_core P w'" "same_stream w w'" "same_alarm w w'"
proof -
  have "bytes_ok w \<longrightarrow> bytes_ok w'" using s(2) by (simp add: w' bytes_ok_def)
  moreover have "queue_ok w' = queue_ok w" "tracking_ok w' = tracking_ok w" "closing_ok P w' = closing_ok P w"
    by (simp_all add: w' queue_ok_def tracking_ok_def closing_ok_def)
  ultimately show "tunnel_core P w'" using i s by (simp add: tunnel_core_def)
qed (simp_all add: w' same_stream_def same_alarm_def quic_stream.truncate_def)

text \<open>The three ways a send goes on: part of it was taken, all of it was, or it failed.\<close>

lemma send_partial:
  assumes i: "live_inv P \<sigma> k m pre q w" and c: "\<not> tn_closed w" and d: "drop n (sk_send_remaining w) \<noteq> []"
  shows "live_inv P \<sigma> k m pre q (w\<lparr>sk_written := sk_written w @ take n (sk_send_remaining w),
    sk_send_remaining := drop n (sk_send_remaining w), sk_armed_write := a\<rparr>)" (is "live_inv P \<sigma> k m pre q ?w")
proof -
  note f = socket_facts [OF i c]
  note core = live_parts(7) [OF i] and st = live_parts(8) [OF i] and sock = live_parts(3) [OF i]
  have e: "?w = w\<lparr>sk_send_data := sk_send_data w, sk_send_remaining := drop n (sk_send_remaining w), sk_armed_write := a,
      sk_written := sk_written w @ take n (sk_send_remaining w), tn_send_in_flight := tn_send_in_flight w\<rparr>" by simp
  have "sk_send_remaining w \<noteq> []" using d by auto
  then have s: "socket_ok ?w"
    using sock c d st by (auto simp: socket_ok_def)
  have "prefix (sk_written w @ take n (sk_send_remaining w)) (tn_to_socket w)"
    using f(6) by (simp add: take_is_prefix)
  note sf = send_fields [OF core e s this]
  moreover have "exact_ok ?w" using f(6) by (simp add: exact_ok_def)
  ultimately show ?thesis using i inv_own [OF _ sf(2,3)] by (simp add: live_inv_def tunnel_ok_def)
qed

lemma send_finished:
  assumes i: "live_inv P \<sigma> k m pre q w" and c: "\<not> tn_closed w"
  shows "live_inv P \<sigma> k m pre q (w\<lparr>sk_written := sk_written w @ sk_send_remaining w, sk_send_data := None,
    sk_send_remaining := [], tn_send_in_flight := False\<rparr>)" (is "live_inv P \<sigma> k m pre q ?w")
proof -
  note f = socket_facts [OF i c]
  note core = live_parts(7) [OF i] and st = live_parts(8) [OF i] and sock = live_parts(3) [OF i]
  have e: "?w = w\<lparr>sk_send_data := None, sk_send_remaining := [], sk_armed_write := sk_armed_write w,
      sk_written := sk_written w @ sk_send_remaining w, tn_send_in_flight := False\<rparr>" by simp
  have s: "socket_ok ?w" using sock c st by (auto simp: socket_ok_def)
  note sf = send_fields [OF core e s]
  moreover have "exact_ok ?w" using f(6) by (simp add: exact_ok_def)
  ultimately show ?thesis using i inv_own [OF _ sf(2,3)] f(6) by (simp add: live_inv_def tunnel_ok_def)
qed

lemma send_failed:
  assumes i: "live_inv P \<sigma> k m pre q w" and c: "\<not> tn_closed w"
  shows "tunnel_core P (w\<lparr>sk_send_data := None, sk_send_remaining := [], tn_send_in_flight := False\<rparr>)" "recv_inv \<sigma> k m (w\<lparr>sk_send_data := None, sk_send_remaining := [], tn_send_in_flight := False\<rparr>)" "send_inv pre (w\<lparr>sk_send_data := None, sk_send_remaining := [], tn_send_in_flight := False\<rparr>)"
proof -
  let ?w = "w\<lparr>sk_send_data := None, sk_send_remaining := [], tn_send_in_flight := False\<rparr>"
  note f = socket_facts [OF i c]
  note core = live_parts(7) [OF i] and st = live_parts(8) [OF i] and sock = live_parts(3) [OF i]
  have e: "?w = w\<lparr>sk_send_data := None, sk_send_remaining := [], sk_armed_write := sk_armed_write w,
      sk_written := sk_written w, tn_send_in_flight := False\<rparr>" by simp
  have s: "socket_ok ?w" using sock c st by (auto simp: socket_ok_def)
  note sf = send_fields [OF core e s]
  then show "tunnel_core P ?w" "recv_inv \<sigma> k m ?w" "send_inv pre ?w"
    using i f(6) same_stream_inv [OF sf(2)] by (simp_all add: live_inv_def tunnel_inv_def)
qed

lemma send_internal_inv:
  assumes i: "live_inv P \<sigma> k m pre q w" and c: "\<not> tn_closed w" and m: "sk_send_remaining w \<noteq> []"
    and ok: "\<And>v. a \<noteq> SendUnavailable \<Longrightarrow> live_inv P \<sigma> k m pre q (v\<lparr>tn_send_in_flight := False\<rparr>) \<Longrightarrow>
      live_inv P \<sigma> k m pre q (send_complete SendOk v)"
    and bad: "\<And>v. a \<noteq> SendUnavailable \<Longrightarrow> tunnel_core P (v\<lparr>tn_send_in_flight := False\<rparr>) \<Longrightarrow>
      recv_inv \<sigma> k m (v\<lparr>tn_send_in_flight := False\<rparr>) \<Longrightarrow> send_inv pre (v\<lparr>tn_send_in_flight := False\<rparr>) \<Longrightarrow>
      tn_started v \<Longrightarrow> \<not> tn_closed v \<Longrightarrow> live_inv P \<sigma> k m pre q (send_complete SendFailed v)"
    and r: "QuictunAcceptedTcpSocket_SendInternal a w = (st, v)"
  shows "live_inv P \<sigma> k m pre q (QuictunAcceptedTcpSocket_FinishOrRearmAsyncSend send_complete st v)"
proof (cases a)
  case (Accepted n)
  let ?r = "sk_send_remaining w"
  have v: "v = w\<lparr>sk_written := sk_written w @ take n ?r, sk_send_remaining := drop n ?r\<rparr>" "st = Accepted n"
    using r m socket_facts(1) [OF i c] Accepted
    by (simp_all add: QuictunAcceptedTcpSocket_SendInternal_def dcheck_def)
  show ?thesis
  proof (cases "drop n ?r = []")
    case True
    have "live_inv P \<sigma> k m pre q (send_complete SendOk (w\<lparr>sk_written := sk_written w @ ?r, sk_send_data := None, sk_send_remaining := []\<rparr>))"
      by (rule ok) (use send_finished [OF i c] Accepted in simp_all)
    moreover have "take n ?r = ?r" using True by simp
    ultimately show ?thesis using True unfolding v
      by (simp add: QuictunAcceptedTcpSocket_FinishOrRearmAsyncSend_def Let_def)
  next
    case False
    then show ?thesis
      using send_partial [OF i c False] send_partial [OF i c False, of "sk_armed_write w"] unfolding v
      by (simp add: QuictunAcceptedTcpSocket_FinishOrRearmAsyncSend_def Let_def)
  qed
next
  case SendUnavailable
  then show ?thesis using r m i c socket_facts(1) [OF i c] send_partial [OF i c, of 0 True]
    by (simp add: QuictunAcceptedTcpSocket_SendInternal_def QuictunAcceptedTcpSocket_FinishOrRearmAsyncSend_def dcheck_def Let_def)
next
  case SendError
  have "live_inv P \<sigma> k m pre q (send_complete SendFailed (w\<lparr>sk_send_data := None, sk_send_remaining := []\<rparr>))"
    by (rule bad) (use send_failed [OF i c] i c SendError in \<open>simp_all add: live_inv_def\<close>)
  then show ?thesis using r m socket_facts(1) [OF i c] SendError
    by (simp add: QuictunAcceptedTcpSocket_SendInternal_def QuictunAcceptedTcpSocket_FinishOrRearmAsyncSend_def dcheck_def Let_def)
qed

lemma pop_chunk_inv:
  assumes i: "live_inv P \<sigma> k m pre q w" and c: "\<not> tn_closed w" and f: "\<not> tn_send_in_flight w" and ne: "tn_pending_to_tcp w \<noteq> []"
    and p: "pop_chunk w = (chunk, v)"
  shows "chunk \<noteq> []" "sk_send_data v = None" "\<not> tn_closed v" "sk_open v"
    "live_inv P \<sigma> k m pre q (v\<lparr>sk_send_data := Some chunk, sk_send_remaining := chunk\<rparr>)"
proof -
  obtain rest where pend: "tn_pending_to_tcp w = chunk # rest"
    and v: "v = w\<lparr>tn_pending_to_tcp := rest, tn_send_in_flight := True, tn_to_socket := tn_to_socket w @ chunk\<rparr>"
    using p ne by (cases "tn_pending_to_tcp w") (auto simp: pop_chunk_def Let_def)
  note sf = socket_facts [OF i c]
  note core = live_parts(7) [OF i] and st = live_parts(8) [OF i] and sock = live_parts(3) [OF i]
  show "chunk \<noteq> []" "sk_send_data v = None" "\<not> tn_closed v" "sk_open v"
    using live_parts(2) [OF i] pend sf f c v by (simp_all add: queue_ok_def)
  let ?v = "v\<lparr>sk_send_data := Some chunk, sk_send_remaining := chunk\<rparr>"
  have "bytes_ok w \<longrightarrow> bytes_ok ?v" using pend by (auto simp: v bytes_ok_def)
  moreover have "queue_ok w \<longrightarrow> queue_ok ?v" using pend by (auto simp: v queue_ok_def)
  moreover have "socket_ok ?v" using sock st c \<open>chunk \<noteq> []\<close> by (auto simp: v socket_ok_def)
  moreover have "tracking_ok ?v = tracking_ok w" "closing_ok P ?v = closing_ok P w"
    by (simp_all add: v tracking_ok_def closing_ok_def)
  moreover have "exact_ok ?v" using sf f by (simp add: v exact_ok_def)
  ultimately have "tunnel_ok P ?v" using core by (simp add: tunnel_ok_def tunnel_core_def)
  then show "live_inv P \<sigma> k m pre q ?v" using i inv_own [of P \<sigma> k m pre q w ?v]
    by (simp add: live_inv_def v same_stream_def same_alarm_def quic_stream.truncate_def)
qed

context tunnel_owner
begin

lemma flush_step_inv:
  assumes i: "live_inv P \<sigma> k m pre q w"
    and ok: "\<And>v. a \<noteq> SendUnavailable \<Longrightarrow> live_inv P \<sigma> k m pre q (v\<lparr>tn_send_in_flight := False\<rparr>) \<Longrightarrow>
      live_inv P \<sigma> k m pre q (send_complete SendOk v)"
    and bad: "\<And>v. a \<noteq> SendUnavailable \<Longrightarrow> tunnel_core P (v\<lparr>tn_send_in_flight := False\<rparr>) \<Longrightarrow>
      recv_inv \<sigma> k m (v\<lparr>tn_send_in_flight := False\<rparr>) \<Longrightarrow> send_inv pre (v\<lparr>tn_send_in_flight := False\<rparr>) \<Longrightarrow>
      tn_started v \<Longrightarrow> \<not> tn_closed v \<Longrightarrow> live_inv P \<sigma> k m pre q (send_complete SendFailed v)"
  shows "live_inv P \<sigma> k m pre q (flush_step oc send_complete a w)"
proof -
  consider "flush_guard w" | "\<not> flush_guard w" "tn_pending_to_tcp w = []" | "\<not> flush_guard w" "tn_pending_to_tcp w \<noteq> []" by blast
  then show ?thesis
  proof cases
    case 2
    then show ?thesis using i MaybeCloseAfterQuicFin_inv [of \<sigma> k m pre q w] by (simp add: flush_step_def live_inv_def)
  next
    case 3
    obtain chunk v where v: "pop_chunk w = (chunk, v)" by fastforce
    have g: "\<not> tn_closed w" "\<not> tn_send_in_flight w" using 3(1) by (simp_all add: flush_guard_def)
    let ?v = "v\<lparr>sk_send_data := Some chunk, sk_send_remaining := chunk\<rparr>"
    note p = pop_chunk_inv [OF i g 3(2) v]
    obtain st u where u: "QuictunAcceptedTcpSocket_SendInternal a ?v = (st, u)" by fastforce
    have "live_inv P \<sigma> k m pre q (QuictunAcceptedTcpSocket_FinishOrRearmAsyncSend send_complete st u)"
      by (rule send_internal_inv [OF p(5) _ _ ok bad u]) (use p in simp_all)
    then show ?thesis using 3 v p u UpdateIdleClass_live
      by (simp add: flush_step_def QuictunAcceptedTcpSocket_SendAsync_def dcheck_def Let_def)
  qed (simp add: flush_step_def i)
qed

lemma SendComplete_ok_inv:
  assumes "live_inv P \<sigma> k m pre q (w\<lparr>tn_send_in_flight := False\<rparr>)" "\<And>v. live_inv P \<sigma> k m pre q v \<Longrightarrow> live_inv P \<sigma> k m pre q (flush v)"
  shows "live_inv P \<sigma> k m pre q (QuictunTunnel_SendComplete oc flush SendOk w)"
  using assms FillQueue_inv [of \<sigma> k m pre q "w\<lparr>tn_send_in_flight := False\<rparr>"]
  by (simp add: QuictunTunnel_SendComplete_def live_inv_def Let_def)

lemma SendComplete_failed_inv:
  assumes "tunnel_core P (w\<lparr>tn_send_in_flight := False\<rparr>)" "recv_inv \<sigma> k m (w\<lparr>tn_send_in_flight := False\<rparr>)"
    "send_inv pre (w\<lparr>tn_send_in_flight := False\<rparr>)" "tn_started w" "\<not> tn_closed w"
  shows "live_inv P \<sigma> k m pre q (QuictunTunnel_SendComplete oc flush SendFailed w)"
  using close_inv(1) [OF assms(1-3), where b = True and q = q] close_inv(3) [OF assms(1-3), of True] assms(4,5)
  by (simp add: QuictunTunnel_SendComplete_def live_inv_def kept_by_close_def Let_def)

lemma MaybeFlushQuicToTcp_inv: "live_inv P \<sigma> k m pre q w \<Longrightarrow> live_inv P \<sigma> k m pre q (QuictunTunnel_MaybeFlushQuicToTcp ss oc w)"
proof (induction ss arbitrary: w)
  case Nil
  then show ?case using flush_step_inv [OF Nil, of SendUnavailable "\<lambda>_ w. w"] by simp
next
  case (Cons s ss)
  then show ?case using flush_step_inv [OF Cons.prems SendComplete_ok_inv SendComplete_failed_inv] Cons.IH by simp
qed

end

end
