(* ===== verification/Stream_Owner.thy ===== *)
theory Stream_Owner
  imports Tunnel_Pump
begin

text \<open>
  The contract between a stream and whoever is told that it is gone, with the calls that
  go through it: reading, writing, resetting, frames and acknowledgements.  \<open>stream_owner\<close>
  asks of the owner a relation \<open>C\<close> that holds across calls and that its own handler is in;
  \<open>stream_invariant\<close> adds an invariant that calls keep.  A tunnel is one such owner, the
  connection that authenticates a stream is another.
\<close>

locale stream_owner =
  fixes C :: "'a quic_stream_scheme \<Rightarrow> 'a quic_stream_scheme \<Rightarrow> bool" and gone :: "'a handler"
  assumes C_trans: "C u v \<Longrightarrow> C v w \<Longrightarrow> C u w"
    and C_stream: "stream_only w w' \<Longrightarrow> C w w'"
    and gone_C: "C w (gone w)"
    and gone_keeps_recv: "recv_keeps \<sigma> w (gone w)"
    and gone_keeps_send: "send_keeps w (gone w)"
    and gone_same: "same_send w (gone w)"
begin

lemma C_effects: "stream_effects C gone (connection_lost gone)"
proof -
  have "stream_effects C gone (\<lambda>_ w. w)"
    by unfold_locales (erule (1) C_trans | rule gone_C C_stream | simp add: stream_only_def)+
  then show ?thesis by (rule stream_effects.with_disconnect) (rule C_stream; simp add: stream_only_def)
qed

lemma lost_same: "same_send w (connection_lost gone c w)"
  by (rule connection_lost_send) (rule gone_same)

lemma C_writes: "stream_writes C gone (connection_lost gone)"
  by (rule stream_writes.intro [OF C_effects], unfold_locales)
    (auto simp: gone_same lost_same stream_only_def record_data_def QuicStream_OnStreamDataConsumed_def
      intro!: C_stream)

lemma owner_recv_effects: "stream_effects (recv_keeps \<sigma>) gone (connection_lost gone)"
  by (rule recv_effects_lost) (rule gone_keeps_recv)

lemma owner_recv_writes: "stream_writes (recv_keeps \<sigma>) gone (connection_lost gone)"
  by (rule stream_writes.intro [OF owner_recv_effects], unfold_locales)
    (auto simp: gone_same lost_same record_data_def QuicStream_OnStreamDataConsumed_def intro!: recv_keeps_same)

lemma owner_send_writes: "stream_writes send_keeps gone (connection_lost gone)"
  by (rule send_writes_lost) (rule gone_keeps_send gone_same)+

lemma calls: "stream_writes (\<lambda>w w'. C w w' \<and> recv_keeps \<sigma> w w' \<and> send_keeps w w') gone (connection_lost gone)"
  by (rule stream_writes_conj [OF C_writes stream_writes_conj [OF owner_recv_writes owner_send_writes]])

lemma Read_takes:
  assumes ok: "recv_ok \<sigma> m w" and r: "QuictunStream_Read (connection_lost gone) gone n w = (data, fin, v)" and n: "n > 0"
  obtains b where "C (w\<lparr>sq_buffer := b\<rparr>) v" "send_keeps w v"
    "recv_ok \<sigma> (total_bytes_read (sq_buffer w) + length data) v" "length data \<le> n"
    "data = map \<sigma> [total_bytes_read (sq_buffer w)..<total_bytes_read (sq_buffer w) + length data]"
    "reading_stopped w \<longrightarrow> data = [] \<and> reading_stopped v"
    "\<not> reading_stopped v \<longrightarrow> total_bytes_read (sq_buffer v) = total_bytes_read (sq_buffer w) + length data"
proof -
  obtain b where b: "QuicStreamSequencerBuffer_Readv n [] (sq_buffer w) = Some (QUIC_NO_ERROR, data, b)"
    and len: "length data \<le> n" and okb: "recv_ok \<sigma> m (w\<lparr>sq_buffer := b\<rparr>)"
    and tot: "total_bytes_read b = total_bytes_read (sq_buffer w) + length data"
    and dat: "data = map \<sigma> [total_bytes_read (sq_buffer w)..<total_bytes_read (sq_buffer w) + length data]"
    and stop: "reading_stopped w \<longrightarrow> data = []"
    using Readv_recv [OF ok n] r by (auto simp: QuictunStream_Read_def QuicStreamSequencer_Readv_def Let_def)
  note call = Read_call [OF _ r b]
  have "send_keeps w (w\<lparr>sq_buffer := b\<rparr>)" by (rule send_keeps_same) (simp_all add: same_send_def)
  then have "send_keeps w v" using send_keeps_trans call [OF stream_writes.axioms(1) [OF owner_send_writes]] by blast
  moreover have "recv_ok \<sigma> (total_bytes_read b) (w\<lparr>sq_buffer := b\<rparr>)" using okb by (simp add: recv_ok_def)
  then have "recv_ok \<sigma> (total_bytes_read b) v" "reading_stopped w \<longrightarrow> reading_stopped v"
    "\<not> reading_stopped v \<longrightarrow> total_bytes_read (sq_buffer v) = total_bytes_read b"
    using call [OF owner_recv_effects [of \<sigma>]] by (auto simp: recv_keeps_def reading_stopped_def)
  ultimately show ?thesis using that [OF call [OF C_effects]] len dat stop tot by simp
qed

end

section \<open>An invariant of the owner\<close>

text \<open>\<open>I m\<close> is the invariant with the position \<open>m\<close> that was read before.\<close>

locale stream_invariant = stream_owner C gone
  for C :: "'a quic_stream_scheme \<Rightarrow> 'a quic_stream_scheme \<Rightarrow> bool" and gone :: "'a handler" +
  fixes I :: "nat \<Rightarrow> 'a quic_stream_scheme \<Rightarrow> bool" and \<sigma> :: "nat \<Rightarrow> byte" and avail :: "'a handler" and can_write :: "'a handler"
  assumes I_call: "I m w \<Longrightarrow> C w w' \<Longrightarrow> recv_keeps \<sigma> w w' \<Longrightarrow> send_keeps w w' \<Longrightarrow> I m w'"
    and I_recv: "I m w \<Longrightarrow> recv_ok \<sigma> m w"
    and I_send: "I m w \<Longrightarrow> separated_list (pending_retransmissions (st_send w))"
    and I_bound: "I m w \<Longrightarrow> n \<le> total_bytes_read (sq_buffer w) \<Longrightarrow> I n w"
    and I_avail: "I m w \<Longrightarrow> I m (avail w)"
    and I_can_write: "I m w \<Longrightarrow> I m (can_write w)"
begin

lemma I_stream: "stream_only w w' \<Longrightarrow> recv_keeps \<sigma> w w' \<Longrightarrow> send_keeps w w' \<Longrightarrow> I m w \<longrightarrow> I m w'"
  using I_call C_stream by blast

lemma I_writes: "stream_writes (\<lambda>w w'. I m w \<longrightarrow> I m w') gone (connection_lost gone)"
  by (rule stream_writes_mono [OF calls [of \<sigma>]]) (use I_call in blast)+

lemma I_effects: "stream_effects (\<lambda>w w'. I m w \<longrightarrow> I m w') gone (connection_lost gone)"
  by (rule stream_writes.axioms(1) [OF I_writes])

lemma I_receives: "stream_receives (\<lambda>w w'. I m w \<longrightarrow> I m w') gone (connection_lost gone) avail"
proof (rule stream_receives.intro [OF I_effects], unfold_locales)
  show "I m w \<longrightarrow> I m (avail w)" for w using I_avail by blast
qed (rule I_stream [OF _ recv_keeps_same send_keeps_same]; simp add: stream_only_def same_send_def)+

lemma I_sends: "stream_sends (\<lambda>w w'. I m w \<longrightarrow> I m w') gone (connection_lost gone) can_write"
proof (rule stream_sends.intro [OF I_writes], unfold_locales)
  fix w :: "'a quic_stream_scheme" and off len n and f b :: bool
  show "I m w \<longrightarrow> I m (can_write w)" using I_can_write by blast
  have rec: "stream_only w (record_data off n f w)" "recv_keeps \<sigma> w (record_data off n f w)" for off n f
    by (auto simp: record_data_def stream_only_def intro!: recv_keeps_same)
  show "I m w \<longrightarrow> I m (record_data off n f w)"
    if "pending_retransmissions (st_send w) \<noteq> []" "NextPendingRetransmission (st_send w) = (off, len)" "n \<le> len"
      "f \<Longrightarrow> st_fin_lost w \<and> off + n = stream_bytes_written (st_send w)"
    by (rule I_stream [OF rec send_keeps_record_again [OF that]])
  show "I m w \<longrightarrow> I m (record_data (stream_bytes_written (st_send w)) 0 f w)" if "f \<Longrightarrow> st_fin_lost w"
    by (rule I_stream [OF rec send_keeps_record_fin [OF that]])
  show "I m w \<longrightarrow> I m (w\<lparr>st_send := SendBuffer_OnStreamDataRetransmitted off len (st_send w)\<rparr>)"
    by (rule I_stream [OF _ recv_keeps_same send_keeps_retransmitted]) (simp_all add: stream_only_def)
  have fin: "send_keeps w (w\<lparr>st_fin_outstanding := False, st_fin_lost := False\<rparr>)"
    "send_keeps w (w\<lparr>st_data_recvd_notified := True\<rparr>)"
    "(b \<Longrightarrow> st_fin_outstanding w \<or> st_fin_lost w) \<Longrightarrow> send_keeps w (w\<lparr>st_fin_lost := b\<rparr>)"
    by (auto simp: send_keeps_defs send_ok_def QuicStream_BufferedDataBytes_def)
  show "I m w \<longrightarrow> I m (w\<lparr>st_fin_outstanding := False, st_fin_lost := False\<rparr>)"
    by (rule I_stream [OF _ recv_keeps_same fin(1)]) (simp_all add: stream_only_def)
  show "I m w \<longrightarrow> I m (w\<lparr>st_fin_lost := b\<rparr>)" if "b \<Longrightarrow> st_fin_outstanding w \<or> st_fin_lost w"
    by (rule I_stream [OF _ recv_keeps_same fin(3) [OF that]]) (simp_all add: stream_only_def)
  show "I m w \<longrightarrow> I m (w\<lparr>st_data_recvd_notified := True\<rparr>)"
    by (rule I_stream [OF _ recv_keeps_same fin(2)]) (simp_all add: stream_only_def)
qed

lemma I_frame:
  assumes i: "I m w" and c: "cn_connected w" and f: "frame_of \<sigma> off data"
  shows "I m (QuicStream_OnStreamFrame (connection_lost gone) gone avail off data fin w)"
proof -
  let ?m = "max m (total_bytes_read (sq_buffer w))"
  let ?R = "\<lambda>w w'. I ?m w \<longrightarrow> I ?m w'"
  note loc = I_receives [of ?m]
  have lt: "off + length data < 2 ^ 64" if "off + length data \<le> kMaxStreamLength"
    using that by (simp add: kMaxStreamLength_def)
  have iw: "I ?m w" by (rule I_bound [OF i]) (use I_recv [OF i] in \<open>simp add: recv_ok_def\<close>)
  have taken: "stream_receives.taken ?R (connection_lost gone) off data v"
    if "off + length data \<le> kMaxStreamLength" "data \<noteq> []" and late: "\<not> st_read_side_closed v \<and> cn_connected v \<or>
      (I ?m v \<longrightarrow> off + length data \<le> total_bytes_read (sq_buffer v))" for v
  proof (cases "I ?m v")
    case True
    show ?thesis
    proof (rule stream_receives.frame_taken [OF loc I_recv [OF True] f that(2) lt [OF that(1)]])
      show "\<not> st_read_side_closed v \<or> off + length data \<le> total_bytes_read (sq_buffer v)" using late True by blast
      show "?R v (v\<lparr>sq_buffer := b\<rparr>)" if "recv_keeps \<sigma> v (v\<lparr>sq_buffer := b\<rparr>)" for b
        by (rule I_stream [OF _ that send_keeps_same]) (simp_all add: stream_only_def same_send_def)
      show "?R v (connection_lost gone err (v\<lparr>sq_buffer := b\<rparr>))"
        if bad: "\<not> st_read_side_closed v" "\<not> off + length data \<le> total_bytes_read (sq_buffer v)"
          "QuicStreamSequencerBuffer_ReleaseWholeBuffer b = QuicStreamSequencerBuffer_ReleaseWholeBuffer (sq_buffer v)" for err b
      proof -
        have "cn_connected v" using that True bad(2) late by blast
        then have "connection_lost gone err (v\<lparr>sq_buffer := b\<rparr>) = connection_lost gone err v"
          using bad by (simp add: connection_lost_buffer)
        then show ?thesis using stream_effects.R_lost [OF I_effects] by simp
      qed
    qed
  next
    case False
    then show ?thesis by (simp add: stream_receives.taken_def [OF loc] Let_def split: option.split)
  qed
  have "?R w (QuicStream_OnStreamFrame (connection_lost gone) gone avail off data fin w)"
  proof (rule stream_receives.R_OnStreamFrame [OF loc])
    fix v assume s: "off + length data \<le> kMaxStreamLength" "data \<noteq> []"
    show "stream_receives.taken ?R (connection_lost gone) off data v"
      if "cn_connected v = cn_connected w" "\<not> st_read_side_closed v"
      by (rule taken [OF s]) (use that c in simp)
    show "stream_receives.taken ?R (connection_lost gone) off data v"
      if "?R w v" "off + length data \<le> total_bytes_read (sq_buffer w)"
      by (rule taken [OF s]) (use that iw I_recv [of ?m v] in \<open>auto simp: recv_ok_def\<close>)
  qed
  then have j: "I ?m (QuicStream_OnStreamFrame (connection_lost gone) gone avail off data fin w)" using iw by simp
  show ?thesis by (rule I_bound [OF j]) (use I_recv [OF j] in \<open>simp add: recv_ok_def\<close>)
qed

lemma I_stream_events:
  assumes i: "I m w"
  shows "I m (QuicStream_OnStopSending (connection_lost gone) gone err w)"
    "I m (QuicStream_OnStreamReset (connection_lost gone) gone err off w)"
    "I m (QuicStream_OnWindowUpdateFrame n w)"
    "I m (w\<lparr>cn_flow := snd (QuicFlowController_UpdateSendWindowOffset n (cn_flow w))\<rparr>)"
    "I m (connection_lost gone code w)" "I m (w\<lparr>cn_outcomes := outs\<rparr>)"
    "I m (QuicStream_Reset (connection_lost gone) gone err w)"
  using i stream_receives.R_OnStopSending [OF I_receives [of m], of w err]
    stream_receives.R_OnStreamReset [OF I_receives [of m], of w err off]
    stream_receives.R_OnWindowUpdateFrame [OF I_receives [of m], of w n]
    stream_effects.R_session_flow [OF I_effects [of m], of w]
    stream_effects.R_lost [OF I_effects [of m], of w code]
    stream_effects.R_outcomes [OF I_effects [of m], of w outs]
    stream_effects.R_Reset [OF I_effects [of m], of w err]
  by blast+

lemma I_packet_events:
  assumes i: "I m w"
  shows "I m (QuicStream_OnCanWrite (connection_lost gone) gone can_write w)"
    "off + len \<le> stream_bytes_written (st_send w) \<Longrightarrow>
      I m (snd (QuicStream_OnStreamFrameAcked (connection_lost gone) off len fin w))"
    "off + len \<le> stream_bytes_written (st_send w) \<Longrightarrow> I m (QuicStream_OnStreamFrameLost off len fin w)"
proof -
  note loc = I_sends [of m]
  from stream_sends.R_OnCanWrite [OF loc I_send [OF i]]
  show "I m (QuicStream_OnCanWrite (connection_lost gone) gone can_write w)" using i by blast
  assume r: "off + len \<le> stream_bytes_written (st_send w)"
  have buf: "I m w \<longrightarrow> I m (w\<lparr>st_send := sb\<rparr>)" if "send_keeps w (w\<lparr>st_send := sb\<rparr>)" for sb
    by (rule I_stream [OF _ recv_keeps_same that]) (simp_all add: stream_only_def)
  have "I m w \<longrightarrow> I m (snd (QuicStream_OnStreamFrameAcked (connection_lost gone) off len fin w))"
    by (rule stream_sends.R_OnStreamFrameAcked [OF loc]) (rule buf [OF send_keeps_acked [OF _ r]])
  then show "I m (snd (QuicStream_OnStreamFrameAcked (connection_lost gone) off len fin w))" using i by blast
  have "I m w \<longrightarrow> I m (QuicStream_OnStreamFrameLost off len fin w)"
    by (rule stream_sends.R_OnStreamFrameLost [OF loc]) (rule buf [OF send_keeps_lost [OF r]])
  then show "I m (QuicStream_OnStreamFrameLost off len fin w)" using i by blast
qed

end

end
