(* ===== verification/Tunnel_Events.thy ===== *)
theory Tunnel_Events
  imports Stream_Owner
begin

text \<open>
  A tunnel as a state machine: what the owner, the peer, the kernel, the packet layer and
  the clock can do to it, one event at a time, and the states it can reach.

  \<open>tunnel_step oc e w\<close> runs the handler of the event \<open>e\<close> with everything it calls.
  \<open>event_ok \<sigma> e w\<close> is what the environment keeps to: frames carry bytes of the peer's
  stream \<open>\<sigma>\<close> and arrive while the connection is open, acknowledgements and losses are of
  data that was sent, a socket that is closed reports nothing, an alarm fires when it is
  due, the clock does not go back, and the owner starts a tunnel once, with an open socket.
\<close>

datatype tunnel_event =
    Clock QuicTime
  | AttachSocket
  | StartTunnel bytes "recv_result list" "send_result list"
  | TargetConnected "recv_result list" "send_result list"
  | TargetFailed
  | PeerFrame nat bytes bool "send_result list"
  | PeerStopSending QuicRstStreamErrorCode
  | PeerReset QuicRstStreamErrorCode nat
  | PeerMaxStreamData nat
  | PeerMaxData nat
  | WriteReady "recv_result list"
  | PacketAcked nat nat bool
  | PacketLost nat nat bool
  | ConnectionGone QuicErrorCode
  | SocketReady bool bool recv_result send_result "recv_result list" "send_result list"
  | FlushAlarm
  | IdleSweep
  | NextWrites "write_outcome list"
  | OtherTunnelActive tunnel_id bool
  | OtherTunnelClosed tunnel_id

definition data_available :: "send_result list \<Rightarrow> 'a tn_handler \<Rightarrow> 'a tn_handler" where
  "data_available ss oc = QuictunStream_OnDataAvailable (QuictunTunnel_OnStreamDataAvailable ss oc)"

definition can_write_more :: "recv_result list \<Rightarrow> 'a tn_handler \<Rightarrow> 'a tn_handler" where
  "can_write_more rs oc = QuictunStream_OnCanWriteNewData (QuictunTunnel_OnStreamCanWriteMore rs oc)"

fun tunnel_step :: "'a tn_handler \<Rightarrow> tunnel_event \<Rightarrow> 'a tn_handler" where
  "tunnel_step oc (Clock t) w = w\<lparr>cn_now := t\<rparr>"
| "tunnel_step oc AttachSocket w = QuictunTunnel_SetSocket (QuictunAcceptedTcpSocket_new w)"
| "tunnel_step oc (StartTunnel seed rs ss) w = QuictunTunnel_Start rs ss oc seed w"
| "tunnel_step oc (TargetConnected rs ss) w = QuictunTunnel_ConnectComplete rs ss oc True w"
| "tunnel_step oc TargetFailed w = QuictunTunnel_ConnectComplete [] [] oc False (w\<lparr>sk_open := False\<rparr>)"
| "tunnel_step oc (PeerFrame off data fin ss) w =
     QuicStream_OnStreamFrame (tn_lost oc) (tn_gone oc) (data_available ss oc) off data fin w"
| "tunnel_step oc (PeerStopSending err) w = QuicStream_OnStopSending (tn_lost oc) (tn_gone oc) err w"
| "tunnel_step oc (PeerReset err off) w = QuicStream_OnStreamReset (tn_lost oc) (tn_gone oc) err off w"
| "tunnel_step oc (PeerMaxStreamData n) w = QuicStream_OnWindowUpdateFrame n w"
| "tunnel_step oc (PeerMaxData n) w =
     w\<lparr>cn_flow := snd (QuicFlowController_UpdateSendWindowOffset n (cn_flow w))\<rparr>"
| "tunnel_step oc (WriteReady rs) w = QuicStream_OnCanWrite (tn_lost oc) (tn_gone oc) (can_write_more rs oc) w"
| "tunnel_step oc (PacketAcked off len fin) w = snd (QuicStream_OnStreamFrameAcked (tn_lost oc) off len fin w)"
| "tunnel_step oc (PacketLost off len fin) w = QuicStream_OnStreamFrameLost off len fin w"
| "tunnel_step oc (ConnectionGone code) w = tn_lost oc code w"
| "tunnel_step oc (SocketReady readable writable r s rs ss) w =
     QuictunAcceptedTcpSocket_OnSocketEvent
       (QuictunTunnel_ReceiveComplete oc (QuictunTunnel_BeginReadFromTcp rs oc))
       (QuictunTunnel_SendComplete oc (QuictunTunnel_MaybeFlushQuicToTcp ss oc)) readable writable r s w"
| "tunnel_step oc FlushAlarm w = QuictunTunnel_OnFlushCloseAlarm oc w"
| "tunnel_step oc IdleSweep w = QuictunTunnel_Close oc True w"
| "tunnel_step oc (NextWrites outs) w = w\<lparr>cn_outcomes := outs\<rparr>"
| "tunnel_step oc (OtherTunnelActive i stalled) w =
     w\<lparr>tk_tracker := QuictunIdleTracker_Touch i stalled (tk_tracker w), tk_activity := (tk_activity w)(i := cn_now w)\<rparr>"
| "tunnel_step oc (OtherTunnelClosed i) w = w\<lparr>tk_tracker := QuictunIdleTracker_Remove i (tk_tracker w)\<rparr>"

definition can_start :: "'a tunnel_scheme \<Rightarrow> bool" where
  "can_start w \<longleftrightarrow> \<not> tn_started w \<and> \<not> tn_closed w \<and> tn_has_socket w \<and> sk_open w"

fun event_ok :: "(nat \<Rightarrow> byte) \<Rightarrow> tunnel_event \<Rightarrow> 'a tunnel_scheme \<Rightarrow> bool" where
  "event_ok \<sigma> (Clock t) w \<longleftrightarrow> cn_now w \<le> t"
| "event_ok \<sigma> AttachSocket w \<longleftrightarrow>
     \<not> tn_has_socket w \<and> \<not> tn_closed w \<and> \<not> tn_started w \<and> \<not> tn_socket_disconnected w"
| "event_ok \<sigma> (StartTunnel seed rs ss) w \<longleftrightarrow> can_start w \<and> seed = tn_pending_seed_data w"
| "event_ok \<sigma> (TargetConnected rs ss) w \<longleftrightarrow> can_start w"
| "event_ok \<sigma> TargetFailed w \<longleftrightarrow> can_start w"
| "event_ok \<sigma> (PeerFrame off data fin ss) w \<longleftrightarrow> cn_connected w \<and> frame_of \<sigma> off data"
| "event_ok \<sigma> (PacketAcked off len fin) w \<longleftrightarrow> off + len \<le> stream_bytes_written (st_send w)"
| "event_ok \<sigma> (PacketLost off len fin) w \<longleftrightarrow> off + len \<le> stream_bytes_written (st_send w)"
| "event_ok \<sigma> (SocketReady readable writable r s rs ss) w \<longleftrightarrow> tn_started w \<and> sk_open w"
| "event_ok \<sigma> FlushAlarm w \<longleftrightarrow> (case tn_flush_close_alarm w of None \<Rightarrow> False | Some t \<Rightarrow> t \<le> cn_now w)"
| "event_ok \<sigma> IdleSweep w \<longleftrightarrow> is_linked (tn_id w) (tk_tracker w)"
| "event_ok \<sigma> (OtherTunnelActive i stalled) w \<longleftrightarrow> i \<noteq> tn_id w"
| "event_ok \<sigma> (OtherTunnelClosed i) w \<longleftrightarrow> i \<noteq> tn_id w"
| "event_ok \<sigma> _ w \<longleftrightarrow> True"

inductive tunnel_reach :: "'a tn_handler \<Rightarrow> (nat \<Rightarrow> byte) \<Rightarrow> 'a tunnel_scheme \<Rightarrow> 'a tunnel_scheme \<Rightarrow> bool"
  for oc \<sigma> w0 where
  start: "tunnel_reach oc \<sigma> w0 w0"
| step: "tunnel_reach oc \<sigma> w0 w \<Longrightarrow> event_ok \<sigma> e w \<Longrightarrow> tunnel_reach oc \<sigma> w0 (tunnel_step oc e w)"

text \<open>The same as a function, which checks every event of a list before it runs it.\<close>

fun run_events :: "'a tn_handler \<Rightarrow> (nat \<Rightarrow> byte) \<Rightarrow> tunnel_event list \<Rightarrow> 'a tunnel_scheme \<Rightarrow> 'a tunnel_scheme option" where
  "run_events oc \<sigma> [] w = Some w"
| "run_events oc \<sigma> (e # es) w = (if event_ok \<sigma> e w then run_events oc \<sigma> es (tunnel_step oc e w) else None)"

lemma run_events_reach:
  "run_events oc \<sigma> es w = Some w' \<Longrightarrow> tunnel_reach oc \<sigma> w0 w \<Longrightarrow> tunnel_reach oc \<sigma> w0 w'"
  by (induction es arbitrary: w) (auto split: if_splits intro: tunnel_reach.step)

section \<open>Events of the stream\<close>

lemma unstarted_facts:
  assumes "tunnel_inv P \<sigma> k m pre q w" "\<not> tn_started w" "\<not> tn_closed w"
  shows "tn_pending_to_tcp w = []" "tn_seed w = []" "tn_read w = []" "tn_to_socket w = []" "sk_written w = []"
    "sk_send_remaining w = []" "sk_send_data w = None" "sk_receive_max_size w = None"
    "\<not> tn_send_in_flight w" "\<not> tn_receive_in_flight w"
proof -
  show p: "tn_pending_to_tcp w = []" "\<not> tn_send_in_flight w" "\<not> tn_receive_in_flight w"
    and s: "sk_send_remaining w = []" "sk_send_data w = None" "sk_receive_max_size w = None"
    using inv_parts(3) [OF assms(1)] assms(2,3) by (auto simp: socket_ok_def)
  show b: "tn_seed w = []" "tn_read w = []" using inv_parts(1) [OF assms(1)] assms(2) by (simp_all add: bytes_ok_def)
  show t: "tn_to_socket w = []" using inv_parts(1) [OF assms(1)] p b by (simp add: bytes_ok_def)
  show "sk_written w = []" using inv_parts(1) [OF assms(1)] t by (simp add: bytes_ok_def)
qed

context tunnel_owner
begin

lemma data_available_inv: "tunnel_inv P \<sigma> k m pre q w \<Longrightarrow> tunnel_inv P \<sigma> k m pre q (data_available ss oc w)"
  using FillQueue_inv [of \<sigma> k m pre q w] MaybeFlushQuicToTcp_inv [of \<sigma> k m pre q "QuictunTunnel_FillQueueFromStream oc w" ss]
  by (simp add: data_available_def QuictunStream_OnDataAvailable_def QuictunTunnel_OnStreamDataAvailable_def live_inv_def)

lemma can_write_more_inv: "tunnel_inv P \<sigma> k m pre q w \<Longrightarrow> tunnel_inv P \<sigma> k m pre q (can_write_more rs oc w)"
  using MaybeFinalizeClose_inv(1) [of \<sigma> k m pre w q] inv_any [of \<sigma> k m pre q w False] UpdateIdleClass_inv [of P \<sigma> k m pre q w]
    BeginReadFromTcp_inv [of \<sigma> k m pre q "QuictunTunnel_UpdateIdleClass w" rs]
  by (simp add: can_write_more_def QuictunStream_OnCanWriteNewData_def QuictunTunnel_OnStreamCanWriteMore_def
      live_inv_def Let_def)

end

text \<open>A tunnel is an owner of its stream, and its invariant is one that calls keep.\<close>

sublocale tunnel_owner \<subseteq> own: stream_owner "safe_call P" "tn_gone oc"
  by unfold_locales (erule (1) safe_call_trans, erule stream_only_safe, rule gone_safe, rule gone_recv, rule gone_send, rule gone_send)

sublocale tunnel_owner \<subseteq> own_inv: stream_invariant "safe_call P" "tn_gone oc" "\<lambda>m. tunnel_inv P \<sigma> k m pre q" \<sigma>
    "data_available ss oc" "can_write_more rs oc" for \<sigma> k pre q ss rs
proof unfold_locales
  fix m n and w w' :: "'a tunnel_scheme"
  show "tunnel_inv P \<sigma> k m pre q w'"
    if "tunnel_inv P \<sigma> k m pre q w" "safe_call P w w'" "recv_keeps \<sigma> w w'" "send_keeps w w'"
    using inv_call(1) [OF that] .
  show "recv_ok \<sigma> m w" if "tunnel_inv P \<sigma> k m pre q w" using that by (simp add: tunnel_inv_def recv_inv_def recv_ok_def)
  show "separated_list (pending_retransmissions (st_send w))" if "tunnel_inv P \<sigma> k m pre q w"
    using that by (auto simp: tunnel_inv_def send_inv_def send_ok_def sb_ok_def wf_simps)
  show "tunnel_inv P \<sigma> k n pre q w" if "tunnel_inv P \<sigma> k m pre q w" "n \<le> total_bytes_read (sq_buffer w)"
    using that by (simp add: tunnel_inv_def recv_inv_def recv_ok_def)
qed (rule data_available_inv can_write_more_inv, assumption)+

context tunnel_owner
begin

lemma frame_inv:
  "tunnel_inv P \<sigma> k m pre q w \<Longrightarrow> cn_connected w \<Longrightarrow> frame_of \<sigma> off data \<Longrightarrow>
   tunnel_inv P \<sigma> k m pre q (tunnel_step oc (PeerFrame off data fin ss) w)"
  unfolding tunnel_step.simps tn_lost_def by (rule own_inv.I_frame)

lemma stream_event_inv:
  assumes i: "tunnel_inv P \<sigma> k m pre q w"
  shows "tunnel_inv P \<sigma> k m pre q (tunnel_step oc (PeerStopSending err) w)"
    "tunnel_inv P \<sigma> k m pre q (tunnel_step oc (PeerReset err off) w)"
    "tunnel_inv P \<sigma> k m pre q (tunnel_step oc (PeerMaxStreamData n) w)"
    "tunnel_inv P \<sigma> k m pre q (tunnel_step oc (PeerMaxData n) w)"
    "tunnel_inv P \<sigma> k m pre q (tunnel_step oc (ConnectionGone code) w)"
    "tunnel_inv P \<sigma> k m pre q (tunnel_step oc (NextWrites outs) w)"
  unfolding tunnel_step.simps tn_lost_def by (rule own_inv.I_stream_events [OF i])+

lemma packet_event_inv:
  assumes i: "tunnel_inv P \<sigma> k m pre q w"
  shows "tunnel_inv P \<sigma> k m pre q (tunnel_step oc (WriteReady rs) w)"
    "off + len \<le> stream_bytes_written (st_send w) \<Longrightarrow> tunnel_inv P \<sigma> k m pre q (tunnel_step oc (PacketAcked off len fin) w)"
    "off + len \<le> stream_bytes_written (st_send w) \<Longrightarrow> tunnel_inv P \<sigma> k m pre q (tunnel_step oc (PacketLost off len fin) w)"
  unfolding tunnel_step.simps tn_lost_def by (rule own_inv.I_packet_events [OF i], assumption?)+

section \<open>Events of the socket, the owner and the clock\<close>

lemma socket_event_inv:
  assumes i: "tunnel_inv P \<sigma> k m pre q w" and st: "tn_started w"
  shows "tunnel_inv P \<sigma> k m pre q (tunnel_step oc (SocketReady readable writable r s rs ss) w)"
proof -
  let ?rc = "QuictunTunnel_ReceiveComplete oc (QuictunTunnel_BeginReadFromTcp rs oc)"
  let ?sc = "QuictunTunnel_SendComplete oc (QuictunTunnel_MaybeFlushQuicToTcp ss oc)"
  have closed: "sk_receive_max_size v = None \<and> sk_send_remaining v = []" if "live_inv P \<sigma> k m pre q v" "tn_closed v" for v
    using that inv_parts(3) [of P \<sigma> k m pre q v] by (simp add: live_inv_def socket_ok_def)
  define w1 where "w1 = (if sk_receive_max_size w \<noteq> None \<and> readable
      then case QuictunAcceptedTcpSocket_ReceiveInternal r w of (data, w) \<Rightarrow>
        QuictunAcceptedTcpSocket_FinishOrRearmAsyncReceive ?rc data w
      else w)"
  have w: "live_inv P \<sigma> k m pre q w" using i st by (simp add: live_inv_def)
  have w1: "live_inv P \<sigma> k m pre q w1"
  proof (cases "sk_receive_max_size w \<noteq> None \<and> readable")
    case True
    obtain d v where v: "QuictunAcceptedTcpSocket_ReceiveInternal r w = (d, v)" by fastforce
    have "live_inv P \<sigma> k m pre q (QuictunAcceptedTcpSocket_FinishOrRearmAsyncReceive ?rc d v)"
      by (rule receive_internal_inv [OF w _ _ ReceiveComplete_inv v]) (use True closed [OF w] BeginReadFromTcp_inv in auto)
    then show ?thesis using True v by (simp add: w1_def)
  qed (auto simp: w1_def w)
  obtain st u where u: "QuictunAcceptedTcpSocket_SendInternal s w1 = (st, u)" by fastforce
  have "live_inv P \<sigma> k m pre q (QuictunAcceptedTcpSocket_FinishOrRearmAsyncSend ?sc st u)" if "sk_send_remaining w1 \<noteq> []"
    by (rule send_internal_inv [OF w1 _ that SendComplete_ok_inv SendComplete_failed_inv u])
      (use closed [OF w1] that MaybeFlushQuicToTcp_inv in auto)
  with w1 have "live_inv P \<sigma> k m pre q (tunnel_step oc (SocketReady readable writable r s rs ss) w)"
    unfolding tunnel_step.simps QuictunAcceptedTcpSocket_OnSocketEvent_def Let_def w1_def [symmetric] u prod.case by simp
  then show ?thesis by (simp add: live_inv_def)
qed

lemma start_inv:
  assumes i: "tunnel_inv P \<sigma> k m pre q w" and c: "can_start w" and seed: "seed = tn_pending_seed_data w"
  shows "tunnel_inv P \<sigma> k m pre q (QuictunTunnel_Start rs ss oc seed w)"
proof -
  define v where "v = w\<lparr>tn_started := True, tn_pending_to_tcp := (if seed \<noteq> [] then [seed] else []), tn_seed := seed\<rparr>"
  have ns: "\<not> tn_started w" "\<not> tn_closed w" using c by (simp_all add: can_start_def)
  note p = unstarted_facts [OF i ns] and parts = inv_parts [OF i]
  have v_eq: "v = (let w = w\<lparr>tn_started := True\<rparr> in
      if seed \<noteq> [] then w\<lparr>tn_pending_to_tcp := tn_pending_to_tcp w @ [seed], tn_seed := tn_seed w @ seed\<rparr> else w)"
    using p by (cases w) (simp add: v_def)
  let ?n = "QuictunTunnel_NoteActivity v"
  have t: "tracker_ok (tk_activity w) (cn_now w) (tk_tracker w)" using parts by (simp add: tracking_ok_def)
  have track: "tracking_ok ?n"
    using tracker_ok_Touch [OF t order_refl, of "tn_id w"] tracker_class_Touch [OF t, of "tn_id w"] c
    by (simp add: v_def QuictunTunnel_NoteActivity_def tracking_ok_def can_start_def Let_def)
  note defs = v_def QuictunTunnel_NoteActivity_def Let_def
  have "bytes_ok ?n" using p seed by (simp add: defs bytes_ok_def)
  moreover have "queue_ok ?n" by (simp add: defs queue_ok_def kMaxQueuedChunks_def)
  moreover have "socket_ok ?n" using parts(3) p c by (simp add: defs socket_ok_def can_start_def)
  moreover have "closing_ok P ?n" using parts(5) ns by (simp add: defs closing_ok_def)
  moreover have "exact_ok ?n" using p by (simp add: defs exact_ok_def)
  ultimately have "tunnel_ok P ?n" using track by (simp add: tunnel_okI)
  moreover have "same_stream w ?n"
    using NoteActivity_same_stream [of v] p(3) by (simp add: v_def same_stream_def quic_stream.truncate_def)
  moreover have "same_alarm w ?n" using tracker_ops_alarm(1) [of v] by (simp add: v_def same_alarm_def)
  ultimately have "live_inv P \<sigma> k m pre q ?n" using inv_own [OF i] by (simp add: live_inv_def v_def)
  then have "live_inv P \<sigma> k m pre q (QuictunTunnel_FillQueueFromStream oc ?n)" using FillQueue_inv [of \<sigma> k m pre q ?n]
    by (simp add: live_inv_def)
  then have "live_inv P \<sigma> k m pre q (QuictunTunnel_MaybeFlushQuicToTcp ss oc
      (QuictunTunnel_BeginReadFromTcp rs oc (QuictunTunnel_FillQueueFromStream oc ?n)))"
    by (intro MaybeFlushQuicToTcp_inv BeginReadFromTcp_inv)
  then show ?thesis unfolding QuictunTunnel_Start_def v_eq Let_def by (simp add: live_inv_def)
qed

lemma owner_event_inv:
  assumes i: "tunnel_inv P \<sigma> k m pre q w"
  shows "event_ok \<sigma> AttachSocket w \<Longrightarrow> tunnel_inv P \<sigma> k m pre q (tunnel_step oc AttachSocket w)"
    "event_ok \<sigma> (StartTunnel seed rs ss) w \<Longrightarrow> tunnel_inv P \<sigma> k m pre q (tunnel_step oc (StartTunnel seed rs ss) w)"
    "can_start w \<Longrightarrow> tunnel_inv P \<sigma> k m pre q (tunnel_step oc (TargetConnected rs ss) w)"
    "can_start w \<Longrightarrow> tunnel_inv P \<sigma> k m pre q (tunnel_step oc TargetFailed w)"
proof -
  show "tunnel_inv P \<sigma> k m pre q (tunnel_step oc AttachSocket w)" if "event_ok \<sigma> AttachSocket w"
  proof (rule inv_own [OF i])
    note p = unstarted_facts [OF i] and parts = inv_parts [OF i]
    note defs = QuictunTunnel_SetSocket_def QuictunAcceptedTcpSocket_new_def no_socket_def dcheck_def
    show "tunnel_ok P (tunnel_step oc AttachSocket w)"
      by (rule tunnel_okI) (use parts p that in \<open>simp_all add: defs bytes_ok_def queue_ok_def socket_ok_def
        tracking_ok_def closing_ok_def exact_ok_def\<close>)
  qed (simp_all add: QuictunTunnel_SetSocket_def QuictunAcceptedTcpSocket_new_def no_socket_def dcheck_def
      same_stream_def same_alarm_def quic_stream.truncate_def)
  show "tunnel_inv P \<sigma> k m pre q (tunnel_step oc (StartTunnel seed rs ss) w)" if "event_ok \<sigma> (StartTunnel seed rs ss) w"
    using start_inv [OF i] that by simp
  assume c: "can_start w"
  then show "tunnel_inv P \<sigma> k m pre q (tunnel_step oc (TargetConnected rs ss) w)"
    using start_inv [OF i c refl] by (simp add: QuictunTunnel_ConnectComplete_def can_start_def)
  let ?w = "w\<lparr>sk_open := False, tn_socket_disconnected := True\<rparr>"
  note p = unstarted_facts [OF i] and parts = inv_parts [OF i]
  have "tunnel_ok P ?w"
    by (rule tunnel_okI) (use parts p c in \<open>simp_all add: can_start_def bytes_ok_def queue_ok_def socket_ok_def
      tracking_ok_def closing_ok_def exact_ok_def\<close>)
  then have "tunnel_inv P \<sigma> k m pre q ?w"
    by (rule inv_own [OF i, rotated 2]) (simp_all add: same_stream_def same_alarm_def quic_stream.truncate_def)
  then show "tunnel_inv P \<sigma> k m pre q (tunnel_step oc TargetFailed w)"
    using close_tunnel_inv(1) [of \<sigma> k m pre q ?w q True] c by (simp add: QuictunTunnel_ConnectComplete_def can_start_def)
qed

lemma clock_inv:
  assumes i: "tunnel_inv P \<sigma> k m pre q w" and t: "cn_now w \<le> t"
  shows "tunnel_inv P \<sigma> k m pre q (tunnel_step oc (Clock t) w)"
proof -
  let ?w = "w\<lparr>cn_now := t\<rparr>"
  have "bytes_ok ?w = bytes_ok w" "queue_ok ?w = queue_ok w" "socket_ok ?w = socket_ok w"
    "closing_ok P ?w = closing_ok P w" "exact_ok ?w = exact_ok w" "tracking_ok w \<longrightarrow> tracking_ok ?w"
    using tracker_ok_mono [OF _ t]
    by (simp_all add: bytes_ok_def queue_ok_def socket_ok_def tracking_ok_def closing_ok_def exact_ok_def)
  moreover have "recv_inv \<sigma> k m ?w = recv_inv \<sigma> k m w" "send_inv pre ?w = send_inv pre w"
    by (simp_all add: recv_inv_def recv_ok_def reading_stopped_def send_inv_def send_ok_def send_done_def conn_ok_def
        QuicStream_BufferedDataBytes_def)
  moreover have "alarm_ok ?w = alarm_ok w" by (simp add: alarm_ok_def)
  ultimately show ?thesis using i by (simp add: tunnel_inv_def tunnel_ok_def tunnel_core_def)
qed

lemma tracker_event_inv:
  assumes i: "tunnel_inv P \<sigma> k m pre q w" and j: "j \<noteq> tn_id w"
  shows "tunnel_inv P \<sigma> k m pre q (tunnel_step oc (OtherTunnelActive j stalled) w)"
    "tunnel_inv P \<sigma> k m pre q (tunnel_step oc (OtherTunnelClosed j) w)"
proof -
  have ok: "tunnel_ok P w" using i by (simp add: tunnel_inv_def)
  have tr: "tracking_ok w" using ok by (simp add: tunnel_ok_def tunnel_core_def)
  then have t: "tracker_ok (tk_activity w) (cn_now w) (tk_tracker w)" by (simp add: tracking_ok_def)
  have "tunnel_ok P (tunnel_step oc (OtherTunnelActive j stalled) w)"
    by (rule tracker_update [OF ok, where a = "(tk_activity w)(j := cn_now w)" and s = "tn_stalled w"
          and t = "QuictunIdleTracker_Touch j stalled (tk_tracker w)"])
      (use tr j tracker_ok_Touch [OF t order_refl, of j stalled] tracker_class_Touch [OF t, of j stalled] in
        \<open>simp_all add: tracking_ok_def\<close>)
  then show "tunnel_inv P \<sigma> k m pre q (tunnel_step oc (OtherTunnelActive j stalled) w)"
    by (rule inv_own [OF i, rotated 2]) (simp_all add: same_stream_def same_alarm_def quic_stream.truncate_def)
  have "tunnel_ok P (tunnel_step oc (OtherTunnelClosed j) w)"
    by (rule tracker_update [OF ok, where a = "tk_activity w" and s = "tn_stalled w"
          and t = "QuictunIdleTracker_Remove j (tk_tracker w)"])
      (use tr j tracker_ok_Remove [OF t, of j] in \<open>simp_all add: tracking_ok_def tracker_class_Remove\<close>)
  then show "tunnel_inv P \<sigma> k m pre q (tunnel_step oc (OtherTunnelClosed j) w)"
    by (rule inv_own [OF i, rotated 2]) (simp_all add: same_stream_def same_alarm_def quic_stream.truncate_def)
qed

lemma close_event_inv:
  assumes i: "tunnel_inv P \<sigma> k m pre q w"
  shows "event_ok \<sigma> FlushAlarm w \<Longrightarrow> tunnel_inv P \<sigma> k m pre q (tunnel_step oc FlushAlarm w)"
    "event_ok \<sigma> IdleSweep w \<Longrightarrow> tunnel_inv P \<sigma> k m pre q (tunnel_step oc IdleSweep w)"
proof -
  show "tunnel_inv P \<sigma> k m pre q (tunnel_step oc FlushAlarm w)" if e: "event_ok \<sigma> FlushAlarm w"
  proof -
    have "\<not> tn_closed w" using inv_parts(5) [OF i] e by (auto simp: closing_ok_def)
    then have "tunnel_inv P \<sigma> k m pre False (w\<lparr>tn_flush_close_alarm := None\<rparr>)" by (rule alarm_inv [OF i]) simp
    then show ?thesis using MaybeFinalizeClose_inv(1) by (simp add: QuictunTunnel_OnFlushCloseAlarm_def)
  qed
  show "tunnel_inv P \<sigma> k m pre q (tunnel_step oc IdleSweep w)" if e: "event_ok \<sigma> IdleSweep w"
  proof -
    have "\<not> tn_closed w" using inv_parts(4) [OF i] e by (auto simp: tracking_ok_def is_linked_class)
    then show ?thesis using close_tunnel_inv(1) [OF i] by simp
  qed
qed

theorem step_inv:
  assumes i: "tunnel_inv P \<sigma> k m pre q w" and e: "event_ok \<sigma> e w"
  shows "tunnel_inv P \<sigma> k m pre q (tunnel_step oc e w)"
  using frame_inv [OF i] stream_event_inv [OF i] packet_event_inv [OF i] socket_event_inv [OF i] owner_event_inv [OF i]
    clock_inv [OF i] tracker_event_inv [OF i] close_event_inv [OF i] e
  by (cases e) (simp_all del: tunnel_step.simps)

theorem reach_inv: "tunnel_reach oc \<sigma> w0 w \<Longrightarrow> tunnel_inv P \<sigma> k m pre q w0 \<Longrightarrow> tunnel_inv P \<sigma> k m pre q w"
  by (induction rule: tunnel_reach.induct) (auto intro: step_inv)

end

end
