(* ===== verification/Tunnel_Properties.thy ===== *)
theory Tunnel_Properties
  imports Tunnel_Events "HOL-Library.Code_Target_Nat"
begin

text \<open>
  What holds of a tunnel in every state it can reach.  \<open>w0\<close> is the state in which the
  owner has the tunnel ready, with the stream read up to the offset \<open>k\<close> and \<open>pre\<close> written
  to it; for a tunnel on a new stream this is the state after the two constructors.
  The sample run at the end of the first section is the concrete case the witnesses use.
\<close>

section \<open>A new tunnel\<close>

text \<open>The owner's part: an open connection, a tracker in order that does not know the
  tunnel, and a socket that was not used.\<close>

definition unused_socket :: "'a tcp_socket_scheme \<Rightarrow> bool" where
  "unused_socket w \<longleftrightarrow>
     sk_receive_max_size w = None \<and> sk_send_data w = None \<and> sk_send_remaining w = [] \<and> sk_written w = [] \<and>
     \<not> sk_misuse w"

definition owner_ready :: "tunnel_id \<Rightarrow> 'a tunnel_scheme \<Rightarrow> bool" where
  "owner_ready i w \<longleftrightarrow>
     cn_connected w \<and> tracker_ok (tk_activity w) (cn_now w) (tk_tracker w) \<and> \<not> is_linked i (tk_tracker w) \<and>
     unused_socket w"

definition new_tunnel :: "tunnel_id \<Rightarrow> bool \<Rightarrow> nat \<Rightarrow> nat \<Rightarrow> 'a tn_handler" where
  "new_tunnel i has_socket receive_window send_window w =
     QuictunTunnel_new i has_socket (QuictunStream_new receive_window send_window w)"

lemma new_tunnel_ok:
  assumes "owner_ready i w" "P False [] (tunnel.more w)"
  shows "tunnel_ok P (new_tunnel i s r sw w)"
proof (rule tunnel_okI)
  note defs = new_tunnel_def QuictunTunnel_new_def QuictunStream_new_def QuicStream_new_def QuicStreamSequencer_new_def
  let ?w = "new_tunnel i s r sw w"
  show "bytes_ok ?w" "queue_ok ?w" "socket_ok ?w" "closing_ok P ?w" "exact_ok ?w"
    using assms by (simp_all add: defs owner_ready_def unused_socket_def bytes_ok_def queue_ok_def socket_ok_def
        closing_ok_def exact_ok_def)
  show "tracking_ok ?w"
    using assms is_linked_class [of i "tk_tracker w"] by (simp add: defs owner_ready_def tracking_ok_def)
qed

lemma new_tunnel_inv:
  assumes "owner_ready i w" "P False [] (tunnel.more w)"
  shows "tunnel_inv P \<sigma> 0 0 [] True (new_tunnel i s r sw w)"
proof -
  note defs = new_tunnel_def QuictunTunnel_new_def QuictunStream_new_def QuicStream_new_def QuicStreamSequencer_new_def
  let ?w = "new_tunnel i s r sw w"
  let ?b = "new_seq_buffer kStreamReceiveWindowLimit"
  have "seqbuf_ok ?b"
    by (rule new_seq_buffer_ok)
      (simp add: kStreamReceiveWindowLimit_def kInitialBlockCount_def CalculateBlockCount_def kBlockSizeBytes_def)
  moreover have "held ?b = Map.empty" "total_bytes_read ?b = 0" by (simp_all add: new_seq_buffer_def held_Clear)
  ultimately have b: "holds_stream \<sigma> ?b" "total_bytes_read ?b = 0" "ReadableBytes ?b = 0" using emptied by auto
  then have "recv_inv \<sigma> 0 0 ?w" by (simp add: defs recv_inv_def recv_ok_def)
  moreover have "send_inv [] ?w"
    using assms sb_ok_new by (simp add: defs owner_ready_def send_inv_def conn_ok_def send_ok_def)
  moreover have "alarm_ok ?w" by (simp add: defs alarm_ok_def)
  ultimately show ?thesis using new_tunnel_ok [where P = P, OF assms] by (simp add: tunnel_inv_def)
qed

text \<open>A change of the owner's part only.\<close>

lemma ok_truncate:
  "bytes_ok (tunnel.truncate w) = bytes_ok w" "queue_ok (tunnel.truncate w) = queue_ok w"
  "socket_ok (tunnel.truncate w) = socket_ok w" "tracking_ok (tunnel.truncate w) = tracking_ok w"
  "exact_ok (tunnel.truncate w) = exact_ok w"
  "tn_close_count (tunnel.truncate w) = tn_close_count w" "tn_has_on_closed (tunnel.truncate w) = tn_has_on_closed w"
  "tn_flush_close_alarm (tunnel.truncate w) = tn_flush_close_alarm w" "tn_closed (tunnel.truncate w) = tn_closed w"
  "tn_pending_seed_data (tunnel.truncate w) = tn_pending_seed_data w" "tn_started (tunnel.truncate w) = tn_started w"
  "tn_from_tcp (tunnel.truncate w) = tn_from_tcp w"
  by (simp_all add: bytes_ok_def queue_ok_def socket_ok_def tracking_ok_def exact_ok_def tunnel.truncate_def)

lemma tunnel_ok_owner:
  assumes t: "tunnel.truncate v = tunnel.truncate w" and ok: "tunnel_ok P w"
    and p: "P' (tn_closed w) (tn_pending_seed_data w) (tunnel.more v)"
  shows "tunnel_ok P' v"
proof -
  note same = ok_truncate [of v, unfolded t ok_truncate, symmetric]
  have "closing_ok P' v" using ok p by (simp add: tunnel_ok_def tunnel_core_def closing_ok_def same)
  then show ?thesis using ok by (simp add: tunnel_ok_def tunnel_core_def same)
qed

section \<open>A sample run\<close>

definition sample_session :: tunnel where
  "sample_session =
     \<lparr>cn_connected = True, cn_now = 1000000, cn_rtt = 50000,
      cn_flow = new_flow_controller 65536 65536 131072 True, cn_frames = [], cn_data = [],
      cn_outcomes = [], cn_error = None, cn_write_blocked = False, cn_streams_closed = 0,
      cn_draining = 0, sq_buffer = new_seq_buffer 0, sq_highest_offset = 0, sq_close_offset = 0,
      sq_blocked = False, sq_frames_received = 0, sq_duplicate_frames = 0, sq_ignore_read_data = False,
      sq_level_triggered = False, st_bytes_read = 0, st_error = QUIC_STREAM_NO_ERROR,
      st_connection_error = QUIC_NO_ERROR, st_flow = new_flow_controller 0 0 0 False,
      st_send = new_send_buffer, st_read_side_closed = False, st_write_side_closed = False,
      st_fin_buffered = False, st_fin_sent = False, st_fin_outstanding = False, st_fin_lost = False,
      st_fin_received = False, st_rst_sent = False, st_rst_received = False,
      st_stop_sending_sent = False, st_was_draining = False, st_data_recvd_notified = False,
      st_diverged = False, sk_open = False, sk_edge_triggered = True, sk_receive_max_size = None,
      sk_send_data = None, sk_send_remaining = [], sk_armed_read = False, sk_armed_write = False,
      sk_written = [], sk_misuse = False, tn_id = 0, tn_has_socket = False, tn_has_on_closed = False,
      tn_pending_seed_data = [], tn_pending_to_tcp = [], tn_send_in_flight = False,
      tn_receive_in_flight = False, tn_tcp_receive_done = False, tn_flush_close_alarm = None,
      tn_send_done_time = 0, tn_quic_receive_done = False, tn_closed = False, tn_started = False,
      tn_stalled = False, tn_socket_disconnected = False, tk_tracker = empty_tracker,
      tk_activity = \<lambda>_. 0, tn_seed = [], tn_read = [], tn_to_socket = [], tn_from_tcp = [],
      tn_close_count = 0\<rparr>"

definition sample_tunnel :: tunnel where
  "sample_tunnel = new_tunnel 7 False 65536 65536 sample_session"

definition six_writes :: "write_outcome list" where
  "six_writes = replicate 6 (Wrote 10 True False)"

text \<open>Two frames of the peer arrive out of order, the kernel takes three of the four bytes,
  the target sends three bytes in two reads, and the first packet is acknowledged.\<close>

definition sample_events :: "tunnel_event list" where
  "sample_events =
     [AttachSocket, NextWrites six_writes, StartTunnel [] [Received [9, 8]] [],
      PeerFrame 2 (map sample_stream [2..<4]) False [], PeerFrame 0 (map sample_stream [0..<3]) False [Accepted 3],
      SocketReady True False (Received [7]) SendUnavailable [] [], PacketAcked 0 2 False]"

definition sample_end :: "tunnel option" where
  "sample_end = run_events (\<lambda>w. w) sample_stream sample_events sample_tunnel"

text \<open>The target then ends its side: the tunnel sends its fin and waits for the
  acknowledgement, until three seconds are over.\<close>

definition sample_closing :: "tunnel option" where
  "sample_closing = run_events (\<lambda>w. w) sample_stream
     (sample_events @ [SocketReady True False (Received []) SendUnavailable [] [], Clock 5000000]) sample_tunnel"

lemma sample_end_fields:
  "map_option (\<lambda>w. (sk_written w, tn_read w, tn_pending_to_tcp w, sk_send_remaining w)) sample_end =
     Some (map sample_stream [0..<3], map sample_stream [0..<4], [], [sample_stream 3])"
  "map_option (\<lambda>w. (cn_data w, tn_from_tcp w, tn_closed w)) sample_end =
     Some ([(0, [9, 8], False), (2, [7], False)], [9, 8, 7], False)"
  by code_simp+

lemma sample_closing_fields:
  "map_option (\<lambda>w. (tn_closed w, tn_tcp_receive_done w, tn_send_done_time w, cn_now w)) sample_closing =
     Some (False, True, 1000000, 5000000)"
  by code_simp

lemma sample_owner: "tunnel_owner (\<lambda>w. w) (\<lambda>_ _ _. True)"
  by unfold_locales simp

lemma sample_ready: "owner_ready 7 sample_session"
  by (simp add: owner_ready_def unused_socket_def sample_session_def tracker_ok_empty [of "\<lambda>_. 0" 1000000]
      is_linked_def)
    (simp add: empty_tracker_def)

lemma sample_inv: "tunnel_inv (\<lambda>_ _ _. True) sample_stream 0 0 [] True sample_tunnel"
  unfolding sample_tunnel_def by (rule new_tunnel_inv [OF sample_ready]) simp

lemma sample_reach:
  "sample_end = Some w \<Longrightarrow> tunnel_reach (\<lambda>w. w) sample_stream sample_tunnel w"
  "sample_closing = Some w \<Longrightarrow> tunnel_reach (\<lambda>w. w) sample_stream sample_tunnel w"
  unfolding sample_end_def sample_closing_def by (erule run_events_reach, rule tunnel_reach.start)+

lemma sample_ends:
  obtains w where "sample_end = Some w" "tunnel_reach (\<lambda>w. w) sample_stream sample_tunnel w"
    "\<not> tn_closed w" "sk_written w = map sample_stream [0..<3]" "tn_from_tcp w = [9, 8, 7]"
    "cn_data w = [(0, [9, 8], False), (2, [7], False)]"
proof -
  obtain w where w: "sample_end = Some w" using sample_end_fields by (cases sample_end) simp_all
  show ?thesis by (rule that [OF w sample_reach(1) [OF w]]) (use sample_end_fields [unfolded w] in simp_all)
qed

lemma sample_closes:
  obtains w where "sample_closing = Some w" "tunnel_reach (\<lambda>w. w) sample_stream sample_tunnel w"
    "\<not> tn_closed w" "tn_tcp_receive_done w" "tn_send_done_time w + kMaxFlushCloseWait \<le> cn_now w"
  using sample_closing_fields sample_reach
  by (cases sample_closing) (auto simp: kMaxFlushCloseWait_def)

section \<open>Every step keeps the invariant\<close>

text \<open>C37. The invariant of a tunnel is an invariant: the two constructors establish it on a new stream,
  and every event, the whole handler with everything that runs inside it, keeps it.\<close>

theorem tunnel_invariant_inductive:
  assumes "tunnel_owner oc P"
  shows "(owner_ready i v \<and> P False [] (tunnel.more v) \<longrightarrow> tunnel_inv P \<sigma> 0 0 [] True (new_tunnel i s r sw v)) \<and>
    (event_ok \<sigma> e w \<and> tunnel_inv P \<sigma> k m pre True w \<longrightarrow> tunnel_inv P \<sigma> k m pre True (tunnel_step oc e w))"
  using tunnel_owner.step_inv [OF assms] new_tunnel_inv [of i v P] by blast

theorem tunnel_invariant_inductive_witness:
  "tunnel_inv (\<lambda>_ _ _. True) sample_stream 0 0 [] True sample_tunnel \<and>
   tunnel_inv (\<lambda>_ _ _. True) sample_stream 0 0 [] True (tunnel_step (\<lambda>w. w) AttachSocket sample_tunnel)"
proof -
  have e: "event_ok sample_stream AttachSocket sample_tunnel"
    by (simp add: sample_tunnel_def new_tunnel_def QuictunTunnel_new_def)
  show ?thesis
    using tunnel_invariant_inductive [OF sample_owner, where i = 7 and v = sample_session and s = False
        and r = 65536 and sw = 65536 and e = AttachSocket and w = sample_tunnel and k = 0 and m = 0 and pre = "[]"
        and \<sigma> = sample_stream] sample_ready e
    by (simp add: sample_tunnel_def)
qed

section \<open>The bytes\<close>

text \<open>C3. What the kernel has taken for the TCP connection is always a prefix of the seed followed by
  the peer's stream from the offset where the tunnel took it over: nothing is lost in the middle,
  repeated, reordered or invented, whatever order and overlap the peer's frames have and however the
  kernel splits the writes.  As long as the tunnel is open nothing is missing either: what the kernel
  has not taken yet is in the send in flight or in the queue, in order.\<close>

theorem tunnel_delivers_stream:
  assumes "tunnel_owner oc P" "tunnel_inv P \<sigma> k 0 pre True w0" "tunnel_reach oc \<sigma> w0 w"
  shows "prefix (sk_written w) (tn_seed w @ map \<sigma> [k ..< k + length (tn_read w)]) \<and>
     (\<not> tn_closed w \<longrightarrow> sk_written w @ sk_send_remaining w @ concat (tn_pending_to_tcp w) =
        tn_seed w @ map \<sigma> [k ..< k + length (tn_read w)])"
proof -
  have i: "tunnel_inv P \<sigma> k 0 pre True w" using tunnel_owner.reach_inv [OF assms(1,3,2)] .
  have "tn_read w = map \<sigma> [k ..< k + length (tn_read w)]" using i by (simp add: tunnel_inv_def recv_inv_def)
  moreover have "prefix (tn_to_socket w) (tn_seed w @ tn_read w)"
    using inv_parts(1) [OF i] by (metis bytes_ok_def prefixI)
  ultimately show ?thesis
    using inv_parts(1,6) [OF i] by (auto simp: bytes_ok_def exact_ok_def intro: prefix_order.trans)
qed

theorem tunnel_delivers_stream_witness:
  "\<exists>w. sample_end = Some w \<and> tunnel_reach (\<lambda>w. w) sample_stream sample_tunnel w \<and>
     sk_written w = map sample_stream [0..<3] \<and>
     sk_written w @ sk_send_remaining w @ concat (tn_pending_to_tcp w) =
       tn_seed w @ map sample_stream [0 ..< 0 + length (tn_read w)]"
proof -
  obtain w where w: "sample_end = Some w" "tunnel_reach (\<lambda>w. w) sample_stream sample_tunnel w" "\<not> tn_closed w"
    "sk_written w = map sample_stream [0..<3]" by (rule sample_ends)
  from tunnel_delivers_stream [OF sample_owner sample_inv w(2)] w(3) show ?thesis by (intro exI [of _ w]) (simp add: w(1,2,4))
qed

text \<open>C4. Every stream frame the tunnel's stream hands to the packet layer, first transmissions and
  retransmissions alike, carries at its offset the bytes the owner wrote first, followed by what the
  TCP connection delivered, and a frame with the fin ends exactly where that data ends.  As long as the
  stream takes data, all of what the TCP connection delivered is part of it and no fin was sent.\<close>

theorem tunnel_sends_stream:
  assumes "tunnel_owner oc P" "tunnel_inv P \<sigma> k 0 pre True w0" "tunnel_reach oc \<sigma> w0 w"
  shows "\<exists>n \<le> length (tn_from_tcp w).
     list_all (carries (pre @ take n (tn_from_tcp w))) (cn_data w) \<and>
     (\<not> st_fin_buffered w \<and> \<not> st_write_side_closed w \<longrightarrow>
        n = length (tn_from_tcp w) \<and> \<not> list_ex (\<lambda>(off, d, fin). fin) (cn_data w))"
proof -
  have "tunnel_inv P \<sigma> k 0 pre True w" using tunnel_owner.reach_inv [OF assms(1,3,2)] .
  then have "send_inv pre w" by (simp add: tunnel_inv_def)
  then show ?thesis unfolding send_inv_def send_ok_def send_done_def by blast
qed

theorem tunnel_sends_stream_witness:
  "\<exists>w. sample_end = Some w \<and> tunnel_reach (\<lambda>w. w) sample_stream sample_tunnel w \<and> tn_from_tcp w = [9, 8, 7] \<and>
     (\<exists>n \<le> length (tn_from_tcp w).
       list_all (carries ([] @ take n (tn_from_tcp w))) [(0, [9, 8], False), (2, [7], False)])"
proof -
  obtain w where w: "sample_end = Some w" "tunnel_reach (\<lambda>w. w) sample_stream sample_tunnel w"
    "tn_from_tcp w = [9, 8, 7]" "cn_data w = [(0, [9, 8], False), (2, [7], False)]" by (rule sample_ends)
  from tunnel_sends_stream [OF sample_owner sample_inv w(2)] show ?thesis
    unfolding w(4) by (intro exI [of _ w]) (use w(1,2,3) in blast)
qed

section \<open>The socket, the close and the tracker\<close>

text \<open>C5. No check of the socket or of the tunnel ever fails: a second receive or send is never started
  while one is pending, an empty send is never started, a closed descriptor is never closed again, and
  the socket is given to the tunnel once.  While the tunnel is open its flags agree with what is pending
  at the socket; once it is closed nothing is pending and the descriptor is closed.\<close>

theorem tunnel_socket_discipline:
  assumes "tunnel_owner oc P" "tunnel_inv P \<sigma> k 0 pre True w0" "tunnel_reach oc \<sigma> w0 w"
  shows "\<not> sk_misuse w \<and>
     (\<not> tn_closed w \<longrightarrow> (tn_send_in_flight w \<longleftrightarrow> sk_send_data w \<noteq> None) \<and>
        (tn_receive_in_flight w \<longleftrightarrow> sk_receive_max_size w \<noteq> None)) \<and>
     (tn_closed w \<longrightarrow> sk_send_data w = None \<and> sk_receive_max_size w = None \<and> (tn_has_socket w \<longrightarrow> \<not> sk_open w))"
  using inv_parts(3) [OF tunnel_owner.reach_inv [OF assms(1,3,2)]] by (auto simp: socket_ok_def)

theorem tunnel_socket_discipline_witness:
  "\<exists>w. sample_end = Some w \<and> tunnel_reach (\<lambda>w. w) sample_stream sample_tunnel w \<and> \<not> sk_misuse w"
proof -
  obtain w where w: "sample_end = Some w" "tunnel_reach (\<lambda>w. w) sample_stream sample_tunnel w" by (rule sample_ends)
  from tunnel_socket_discipline [OF sample_owner sample_inv w(2)] w show ?thesis by auto
qed

text \<open>C6. A tunnel closes at most once, however its handlers are nested: the owner's callback runs exactly
  once, with the close, the flush alarm is cancelled with it, and the idle tracker holds exactly the
  tunnels that are started and not closed, each in the class the tunnel recorded last.\<close>

theorem tunnel_closes_once:
  assumes "tunnel_owner oc P" "tunnel_inv P \<sigma> k 0 pre True w0" "tunnel_reach oc \<sigma> w0 w"
  shows "tn_close_count w = (if tn_closed w then 1 else 0) \<and> (tn_has_on_closed w \<longleftrightarrow> \<not> tn_closed w) \<and>
     (tn_closed w \<longrightarrow> tn_flush_close_alarm w = None) \<and>
     tracker_class (tk_tracker w) (tn_id w) = (if tn_started w \<and> \<not> tn_closed w then Some (tn_stalled w) else None)"
  using inv_parts(4,5) [OF tunnel_owner.reach_inv [OF assms(1,3,2)]] by (simp add: closing_ok_def tracking_ok_def)

theorem tunnel_closes_once_witness:
  "\<exists>w. sample_closing = Some w \<and> tunnel_reach (\<lambda>w. w) sample_stream sample_tunnel w \<and> tn_close_count w = 0"
proof -
  obtain w where w: "sample_closing = Some w" "tunnel_reach (\<lambda>w. w) sample_stream sample_tunnel w" "\<not> tn_closed w"
    by (rule sample_closes)
  from tunnel_closes_once [OF sample_owner sample_inv w(2)] w show ?thesis by auto
qed

section \<open>Bounds\<close>

text \<open>C21. The queue from the stream to the TCP connection never holds more than \<open>kMaxQueuedChunks\<close> chunks,
  none of them empty and none larger than a read or the seed, so a slow target costs at most that much
  memory per tunnel.\<close>

theorem tunnel_queue_bounded:
  assumes "tunnel_owner oc P" "tunnel_inv P \<sigma> k 0 pre True w0" "tunnel_reach oc \<sigma> w0 w"
  shows "length (tn_pending_to_tcp w) \<le> kMaxQueuedChunks \<and>
     length (concat (tn_pending_to_tcp w)) \<le> kMaxQueuedChunks * max kReadSize (length (tn_seed w))"
proof -
  have q: "queue_ok w" using inv_parts(2) [OF tunnel_owner.reach_inv [OF assms(1,3,2)]] .
  let ?b = "max kReadSize (length (tn_seed w))"
  have "length (concat cs) \<le> length cs * b" if "\<forall>c \<in> set cs. length c \<le> b" for cs :: "bytes list" and b
    using that by (induction cs) auto
  then have "length (concat (tn_pending_to_tcp w)) \<le> length (tn_pending_to_tcp w) * ?b"
    using q by (simp add: queue_ok_def)
  also have "\<dots> \<le> kMaxQueuedChunks * ?b" using q by (simp add: queue_ok_def)
  finally show ?thesis using q by (simp add: queue_ok_def)
qed

theorem tunnel_queue_bounded_witness:
  "\<exists>w. sample_end = Some w \<and> tunnel_reach (\<lambda>w. w) sample_stream sample_tunnel w \<and>
     length (tn_pending_to_tcp w) \<le> 4"
proof -
  obtain w where w: "sample_end = Some w" "tunnel_reach (\<lambda>w. w) sample_stream sample_tunnel w" by (rule sample_ends)
  from tunnel_queue_bounded [OF sample_owner sample_inv w(2)] w show ?thesis by (auto simp: kMaxQueuedChunks_def)
qed

text \<open>C22. Every loop of a handler ends: the reads of the tunnel and of the stream, the writes of buffered
  data and the retransmissions never run out of the rounds they are given, whatever was received and
  whatever the packet layer takes of each write.\<close>

theorem tunnel_handlers_terminate:
  assumes "tunnel_owner oc P" "tunnel_inv P \<sigma> k 0 pre True w0" "tunnel_reach oc \<sigma> w0 w"
  shows "\<not> st_diverged w"
  using tunnel_owner.reach_inv [OF assms(1,3,2)] by (simp add: tunnel_inv_def recv_inv_def recv_ok_def)

theorem tunnel_handlers_terminate_witness:
  "\<exists>w. sample_end = Some w \<and> tunnel_reach (\<lambda>w. w) sample_stream sample_tunnel w \<and> \<not> st_diverged w"
proof -
  obtain w where w: "sample_end = Some w" "tunnel_reach (\<lambda>w. w) sample_stream sample_tunnel w" by (rule sample_ends)
  from tunnel_handlers_terminate [OF sample_owner sample_inv w(2)] w show ?thesis by auto
qed

section \<open>The end of a tunnel\<close>

text \<open>C7. A tunnel whose TCP side has ended does not linger: until it closes its alarm is set, for three
  seconds after that end at the latest, and an alarm that fires then closes it even if data or
  acknowledgements are outstanding.\<close>

theorem tunnel_closes_in_time:
  assumes o: "tunnel_owner oc P" and r: "tunnel_inv P \<sigma> k 0 pre True w0" "tunnel_reach oc \<sigma> w0 w"
    and d: "tn_tcp_receive_done w" "\<not> tn_closed w"
  shows "(\<exists>t \<le> tn_send_done_time w + kMaxFlushCloseWait. tn_flush_close_alarm w = Some t) \<and>
     (tn_send_done_time w + kMaxFlushCloseWait \<le> cn_now w \<longrightarrow>
        event_ok \<sigma> FlushAlarm w \<and> tn_closed (tunnel_step oc FlushAlarm w))"
proof -
  let ?w = "w\<lparr>tn_flush_close_alarm := None\<rparr>"
  have i: "tunnel_inv P \<sigma> k 0 pre True w" using tunnel_owner.reach_inv [OF o r(2,1)] .
  then have a: "\<exists>t \<le> tn_send_done_time w + kMaxFlushCloseWait. tn_flush_close_alarm w = Some t"
    using d by (auto simp: tunnel_inv_def alarm_ok_def)
  have "tunnel_core P ?w" using tunnel_owner.alarm_inv [OF o i d(2), of False None] by (simp add: tunnel_inv_def tunnel_ok_def)
  then have "tn_closed (QuictunTunnel_Close oc b ?w)" for b using tunnel_owner.close_ok(2) [OF o, of ?w] d(2) by simp
  then have "tn_closed (tunnel_step oc FlushAlarm w)" if "tn_send_done_time w + kMaxFlushCloseWait \<le> cn_now w"
    using that d by (simp add: QuictunTunnel_OnFlushCloseAlarm_def QuictunTunnel_MaybeFinalizeClose_def)
  then show ?thesis using a by (auto split: option.split)
qed

theorem tunnel_closes_in_time_witness:
  "\<exists>w. sample_closing = Some w \<and> tunnel_reach (\<lambda>w. w) sample_stream sample_tunnel w \<and> \<not> tn_closed w \<and>
     tn_tcp_receive_done w \<and> tn_closed (tunnel_step (\<lambda>w. w) FlushAlarm w)"
proof -
  obtain w where w: "sample_closing = Some w" "tunnel_reach (\<lambda>w. w) sample_stream sample_tunnel w" "\<not> tn_closed w"
    "tn_tcp_receive_done w" "tn_send_done_time w + kMaxFlushCloseWait \<le> cn_now w" by (rule sample_closes)
  from tunnel_closes_in_time [OF sample_owner sample_inv w(2,4,3)] w show ?thesis by auto
qed

end
