(* ===== verification/Ip_Address.thy ===== *)
theory Ip_Address
  imports Prelude
begin

text \<open>
  \<open>QuicheIpAddress\<close> and \<open>QuicheSocketAddress\<close> (\<open>quiche_ip_address.cc\<close>,
  \<open>quiche_socket_address.cc\<close>), which quictun uses as \<open>QuicIpAddress\<close> and
  \<open>QuicSocketAddress\<close>.  The union of the class is the list of the bytes its family uses;
  \<open>ip_ok\<close> says that there are four or sixteen of them, or none.
\<close>

datatype IpAddressFamily = IP_V4 | IP_V6 | IP_UNSPEC

record ip_address =
  ip_family :: IpAddressFamily
  ip_bytes :: bytes

record socket_address =
  sa_host :: ip_address
  sa_port :: "16 word"

fun family_size :: "IpAddressFamily \<Rightarrow> nat" where
  "family_size IP_V4 = 4"
| "family_size IP_V6 = 16"
| "family_size IP_UNSPEC = 0"

definition ip_ok :: "ip_address \<Rightarrow> bool" where
  "ip_ok a \<longleftrightarrow> length (ip_bytes a) = family_size (ip_family a)"

section \<open>Operations\<close>

definition QuicheIpAddress_new :: ip_address where
  "QuicheIpAddress_new = \<lparr>ip_family = IP_UNSPEC, ip_bytes = []\<rparr>"

definition QuicheIpAddress_Loopback4 :: ip_address where
  "QuicheIpAddress_Loopback4 = \<lparr>ip_family = IP_V4, ip_bytes = [127, 0, 0, 1]\<rparr>"

definition QuicheIpAddress_Loopback6 :: ip_address where
  "QuicheIpAddress_Loopback6 = \<lparr>ip_family = IP_V6, ip_bytes = replicate 15 0 @ [1]\<rparr>"

definition QuicheIpAddress_Any4 :: ip_address where
  "QuicheIpAddress_Any4 = \<lparr>ip_family = IP_V4, ip_bytes = replicate 4 0\<rparr>"

definition QuicheIpAddress_Any6 :: ip_address where
  "QuicheIpAddress_Any6 = \<lparr>ip_family = IP_V6, ip_bytes = replicate 16 0\<rparr>"

definition QuicheIpAddress_eq :: "ip_address \<Rightarrow> ip_address \<Rightarrow> bool" where
  "QuicheIpAddress_eq lhs rhs =
     (if ip_family lhs \<noteq> ip_family rhs then False
      else case ip_family lhs of
             IP_V4 \<Rightarrow> take 4 (ip_bytes lhs) = take 4 (ip_bytes rhs)
           | IP_V6 \<Rightarrow> take 16 (ip_bytes lhs) = take 16 (ip_bytes rhs)
           | IP_UNSPEC \<Rightarrow> True)"

definition QuicheIpAddress_IsInitialized :: "ip_address \<Rightarrow> bool" where
  "QuicheIpAddress_IsInitialized a \<longleftrightarrow> ip_family a \<noteq> IP_UNSPEC"

definition QuicheIpAddress_IsIPv4 :: "ip_address \<Rightarrow> bool" where
  "QuicheIpAddress_IsIPv4 a \<longleftrightarrow> ip_family a = IP_V4"

definition QuicheIpAddress_IsIPv6 :: "ip_address \<Rightarrow> bool" where
  "QuicheIpAddress_IsIPv6 a \<longleftrightarrow> ip_family a = IP_V6"

definition QuicheIpAddress_ToPackedString :: "ip_address \<Rightarrow> bytes" where
  "QuicheIpAddress_ToPackedString a =
     (case ip_family a of IP_V4 \<Rightarrow> take 4 (ip_bytes a) | IP_V6 \<Rightarrow> take 16 (ip_bytes a) | IP_UNSPEC \<Rightarrow> [])"

definition kMappedAddressPrefix :: bytes where
  "kMappedAddressPrefix = replicate 10 0 @ [0xff, 0xff]"

definition QuicheIpAddress_Normalized :: "ip_address \<Rightarrow> ip_address" where
  "QuicheIpAddress_Normalized a =
     (if \<not> QuicheIpAddress_IsIPv6 a then a
      else if take 12 (ip_bytes a) \<noteq> kMappedAddressPrefix then a
      else \<lparr>ip_family = IP_V4, ip_bytes = take 4 (drop 12 (ip_bytes a))\<rparr>)"

definition QuicheIpAddress_DualStacked :: "ip_address \<Rightarrow> ip_address" where
  "QuicheIpAddress_DualStacked a =
     (if \<not> QuicheIpAddress_IsIPv4 a then a
      else \<lparr>ip_family = IP_V6, ip_bytes = kMappedAddressPrefix @ take 4 (ip_bytes a)\<rparr>)"

definition QuicheIpAddress_FromPackedString :: "bytes \<Rightarrow> ip_address option" where
  "QuicheIpAddress_FromPackedString d =
     (if length d = 4 then Some \<lparr>ip_family = IP_V4, ip_bytes = d\<rparr>
      else if length d = 16 then Some \<lparr>ip_family = IP_V6, ip_bytes = d\<rparr>
      else None)"

definition QuicheSocketAddress_Normalized :: "socket_address \<Rightarrow> socket_address" where
  "QuicheSocketAddress_Normalized a = a\<lparr>sa_host := QuicheIpAddress_Normalized (sa_host a)\<rparr>"

definition QuicheSocketAddress_eq :: "socket_address \<Rightarrow> socket_address \<Rightarrow> bool" where
  "QuicheSocketAddress_eq lhs rhs \<longleftrightarrow> QuicheIpAddress_eq (sa_host lhs) (sa_host rhs) \<and> sa_port lhs = sa_port rhs"

definition QuicheSocketAddress_IsInitialized :: "socket_address \<Rightarrow> bool" where
  "QuicheSocketAddress_IsInitialized a = QuicheIpAddress_IsInitialized (sa_host a)"

lemmas ip_defs = QuicheIpAddress_eq_def QuicheIpAddress_IsInitialized_def QuicheIpAddress_IsIPv4_def
  QuicheIpAddress_IsIPv6_def QuicheIpAddress_ToPackedString_def QuicheIpAddress_Normalized_def
  QuicheIpAddress_DualStacked_def QuicheIpAddress_FromPackedString_def

section \<open>Well-formed addresses\<close>

lemma ip_ok_cases:
  assumes "ip_ok a"
  obtains (v4) d where "a = \<lparr>ip_family = IP_V4, ip_bytes = d\<rparr>" "length d = 4"
    | (v6) d where "a = \<lparr>ip_family = IP_V6, ip_bytes = d\<rparr>" "length d = 16"
    | (unspec) "a = QuicheIpAddress_new"
  using assms by (cases a; cases "ip_family a") (auto simp: ip_ok_def QuicheIpAddress_new_def)

lemma length_mapped_prefix [simp]: "length kMappedAddressPrefix = 12"
  by (simp add: kMappedAddressPrefix_def)

lemma ip_ok_ops [wf_intros]:
  "ip_ok QuicheIpAddress_new" "ip_ok QuicheIpAddress_Loopback4" "ip_ok QuicheIpAddress_Loopback6"
  "ip_ok QuicheIpAddress_Any4" "ip_ok QuicheIpAddress_Any6"
  "ip_ok a \<Longrightarrow> ip_ok (QuicheIpAddress_Normalized a)" "ip_ok a \<Longrightarrow> ip_ok (QuicheIpAddress_DualStacked a)"
  "QuicheIpAddress_FromPackedString d = Some a \<Longrightarrow> ip_ok a"
  by (auto simp: ip_ok_def ip_defs QuicheIpAddress_new_def QuicheIpAddress_Loopback4_def QuicheIpAddress_Loopback6_def
      QuicheIpAddress_Any4_def QuicheIpAddress_Any6_def split: if_splits)

lemma eq_iff [wf_simps]: "ip_ok a \<Longrightarrow> ip_ok b \<Longrightarrow> QuicheIpAddress_eq a b \<longleftrightarrow> a = b"
  by (erule ip_ok_cases; erule ip_ok_cases) (auto simp: QuicheIpAddress_eq_def QuicheIpAddress_new_def)

lemma packed_length: "ip_ok a \<Longrightarrow> length (QuicheIpAddress_ToPackedString a) = family_size (ip_family a)"
  by (erule ip_ok_cases) (auto simp: ip_defs QuicheIpAddress_new_def)

lemma FromPackedString_ToPackedString:
  "ip_ok a \<Longrightarrow> QuicheIpAddress_IsInitialized a \<Longrightarrow>
   QuicheIpAddress_FromPackedString (QuicheIpAddress_ToPackedString a) = Some a"
  by (erule ip_ok_cases) (auto simp: ip_defs QuicheIpAddress_new_def)

lemma ToPackedString_FromPackedString:
  "QuicheIpAddress_FromPackedString d = Some a \<Longrightarrow>
   QuicheIpAddress_ToPackedString a = d \<and> ip_ok a \<and> QuicheIpAddress_IsInitialized a"
  by (auto simp: ip_defs ip_ok_def split: if_splits)

lemma Normalized_DualStacked: "ip_ok a \<Longrightarrow> QuicheIpAddress_IsIPv4 a \<Longrightarrow> QuicheIpAddress_Normalized (QuicheIpAddress_DualStacked a) = a"
  by (erule ip_ok_cases) (auto simp: ip_defs QuicheIpAddress_new_def)

lemma Normalized_idem: "QuicheIpAddress_Normalized (QuicheIpAddress_Normalized a) = QuicheIpAddress_Normalized a"
  by (auto simp: ip_defs)

lemma DualStacked_Normalized: "ip_ok a \<Longrightarrow> QuicheIpAddress_DualStacked (QuicheIpAddress_Normalized a) = QuicheIpAddress_DualStacked a"
  by (erule ip_ok_cases) (auto simp: ip_defs QuicheIpAddress_new_def, metis append_take_drop_id)

lemma Normalized_DualStacked_any: "ip_ok a \<Longrightarrow> QuicheIpAddress_Normalized (QuicheIpAddress_DualStacked a) = QuicheIpAddress_Normalized a"
  by (erule ip_ok_cases) (auto simp: ip_defs QuicheIpAddress_new_def)

lemma Normalized_eq_iff:
  assumes "ip_ok a" "ip_ok b"
  shows "QuicheIpAddress_Normalized a = QuicheIpAddress_Normalized b \<longleftrightarrow>
    QuicheIpAddress_DualStacked a = QuicheIpAddress_DualStacked b"
  using DualStacked_Normalized [OF assms(1)] DualStacked_Normalized [OF assms(2)]
    Normalized_DualStacked_any [OF assms(1)] Normalized_DualStacked_any [OF assms(2)] by metis

end
