(* ===== verification/Preamble.thy ===== *)
theory Preamble
  imports Ip_Address "HOL-Library.Sublist"
begin

text \<open>
  The start of every stream: the client writes the length of the key, the key and, in
  transparent mode, the destination (\<open>QuictunClientConnection::StartTunnel\<close>); the server
  reads it back (\<open>ParseQuictunTransparentHeader\<close> and the body of the loop of
  \<open>QuictunServerConnection::OnStreamDataAvailable\<close>).

  \<open>check_preamble\<close> is what the server decides on the bytes it has read so far.  It
  accepts exactly the client's encoding for its own key, it does not depend on how
  the bytes were split, and a key that does not fit the length field is never accepted.
\<close>

section \<open>The client\<close>

type_synonym QuicStreamId = nat

definition transparent_header :: "socket_address \<Rightarrow> bytes" where
  "transparent_header dest =
     (let is_ipv6 = (ip_family (sa_host dest) = IP_V6)
      in (if is_ipv6 then 4 else 1) # QuicheIpAddress_ToPackedString (sa_host dest) @ be16 (unat (sa_port dest)))"

definition client_preamble :: "bytes \<Rightarrow> socket_address option \<Rightarrow> bytes" where
  "client_preamble psk dest =
     be16 (length psk) @ psk @ (case dest of None \<Rightarrow> [] | Some d \<Rightarrow> transparent_header d)"

section \<open>The server\<close>

datatype parsed_transparent_header = kIncomplete | kInvalid | kComplete nat socket_address

definition ParseQuictunTransparentHeader :: "bytes \<Rightarrow> parsed_transparent_header" where
  "ParseQuictunTransparentHeader buf =
     (if buf = [] then kIncomplete
      else let atyp = unat (buf ! 0)
           in case (if atyp = 1 then Some 4 else if atyp = 4 then Some (16 :: nat) else None) of
                None \<Rightarrow> kInvalid
              | Some addr_len \<Rightarrow>
                  let header_length = 1 + addr_len + 2
                  in if length buf < header_length then kIncomplete
                     else case QuicheIpAddress_FromPackedString (take addr_len (drop 1 buf)) of
                            None \<Rightarrow> kInvalid
                          | Some ip \<Rightarrow>
                              let port = word_of_nat (rd16 (buf ! (1 + addr_len)) (buf ! (1 + addr_len + 1)))
                              in kComplete header_length \<lparr>sa_host = ip, sa_port = port\<rparr>)"

datatype auth_decision =
    AuthPending
  | AuthReject
  | AuthAccept "socket_address option" bytes

definition check_preamble :: "bytes \<Rightarrow> bool \<Rightarrow> bytes \<Rightarrow> auth_decision" where
  "check_preamble expected_psk transparent buf =
     (if length buf \<ge> 2
      then let key_length = rd16 (buf ! 0) (buf ! 1)
           in if length buf \<ge> 2 + key_length
              then let received_key = take key_length (drop 2 buf);
                       offset = 2 + key_length
                   in if received_key \<noteq> expected_psk then AuthReject
                      else if transparent
                      then case ParseQuictunTransparentHeader (drop offset buf) of
                             kInvalid \<Rightarrow> AuthReject
                           | kIncomplete \<Rightarrow> AuthPending
                           | kComplete header_length dest \<Rightarrow> AuthAccept (Some dest) (drop (offset + header_length) buf)
                      else AuthAccept None (drop offset buf)
              else AuthPending
      else AuthPending)"

section \<open>Headers\<close>

definition dest_ok :: "socket_address \<Rightarrow> bool" where
  "dest_ok d \<longleftrightarrow> ip_ok (sa_host d) \<and> QuicheIpAddress_IsInitialized (sa_host d)"

lemma port_be16: "word_of_nat (rd16 (be16 (unat p) ! 0) (be16 (unat p) ! Suc 0)) = (p :: 16 word)"
  using rd16_be16 [of "unat p"] unsigned_less [of p, where 'a = nat] by simp

lemma be16_port: "be16 (unat (word_of_nat (rd16 hi lo) :: 16 word)) = [hi, lo]"
proof -
  have "unat (word_of_nat (rd16 hi lo) :: 16 word) = rd16 hi lo"
    using rd16_less [of hi lo] by (simp add: unat_of_nat)
  moreover have "rd16 hi lo div 256 = unat hi" "rd16 hi lo mod 256 = unat lo"
    using unat_byte_less [of lo] by (simp_all add: rd16_def)
  ultimately show ?thesis
    by (auto simp: be16_def word_unat_eq_iff unat_byte_of_nat unat_byte_less)
qed

lemma be16_rd16: "be16 (rd16 hi lo) = [hi, lo]"
  using be16_port [of hi lo] rd16_less [of hi lo] by (simp add: unat_of_nat)

lemma parse_header:
  assumes "dest_ok d"
  shows "ParseQuictunTransparentHeader (transparent_header d @ rest) = kComplete (length (transparent_header d)) d"
proof -
  obtain h p where d: "d = \<lparr>sa_host = h, sa_port = p\<rparr>" by (cases d)
  let ?k = "QuicheIpAddress_ToPackedString h"
  have h: "ip_ok h" "QuicheIpAddress_IsInitialized h" using assms by (simp_all add: dest_ok_def d)
  note k = packed_length [OF h(1)] and unpack = FromPackedString_ToPackedString [OF h]
  from h show ?thesis
    using k unpack port_be16 [of p]
    by (cases h rule: ip_ok_cases)
      (auto simp: ParseQuictunTransparentHeader_def transparent_header_def d Let_def nth_append
        QuicheIpAddress_IsInitialized_def QuicheIpAddress_new_def)
qed

lemma split_header:
  fixes buf :: bytes
  assumes "1 + n + 2 \<le> length buf"
  shows "buf = buf ! 0 # take n (drop 1 buf) @ [buf ! (1 + n), buf ! (1 + n + 1)] @ drop (1 + n + 2) buf"
proof -
  have "buf = take 1 buf @ take n (drop 1 buf) @ drop (1 + n) buf"
    by (metis append_take_drop_id drop_drop add.commute)
  moreover have "take 1 buf = [buf ! 0]" using assms by (cases buf) simp_all
  moreover have "drop (1 + n) buf = [buf ! (1 + n), buf ! (1 + n + 1)] @ drop (1 + n + 2) buf"
    using assms by (simp add: Cons_nth_drop_Suc)
  ultimately show ?thesis by simp
qed

lemma header_parsed:
  assumes "ParseQuictunTransparentHeader buf = kComplete n d"
  shows "dest_ok d" "buf = transparent_header d @ drop n buf" "n = length (transparent_header d)"
proof -
  from assms obtain k ip where k: "(unat (buf ! 0) = 1 \<and> k = 4) \<or> (unat (buf ! 0) = 4 \<and> k = 16)"
    and len: "1 + k + 2 \<le> length buf" and n: "n = 1 + k + 2"
    and ip: "QuicheIpAddress_FromPackedString (take k (drop 1 buf)) = Some ip"
    and d: "d = \<lparr>sa_host = ip, sa_port = word_of_nat (rd16 (buf ! (1 + k)) (buf ! (1 + k + 1)))\<rparr>"
    by (auto simp: ParseQuictunTransparentHeader_def Let_def not_less split: if_splits option.splits)
  have a: "ip_ok ip" "QuicheIpAddress_IsInitialized ip" "QuicheIpAddress_ToPackedString ip = take k (drop 1 buf)"
    using ToPackedString_FromPackedString [OF ip] by auto
  have "length (take k (drop 1 buf)) = k" using len by simp
  then have "ip_family ip = (if k = 4 then IP_V4 else IP_V6)"
    using k ip by (auto simp: QuicheIpAddress_FromPackedString_def)
  then have h0: "(if ip_family ip = IP_V6 then 4 else 1) = buf ! 0" using k by (auto simp: word_unat_eq_iff)
  have h: "transparent_header d = buf ! 0 # take k (drop 1 buf) @ [buf ! (1 + k), buf ! (1 + k + 1)]"
    using a(3) be16_port h0 by (simp add: transparent_header_def d Let_def)
  show "dest_ok d" using a by (simp add: dest_ok_def d)
  show "n = length (transparent_header d)" using len by (simp add: h n)
  show "buf = transparent_header d @ drop n buf" using split_header [OF len] by (simp add: h n)
qed

lemma parse_extend:
  "ParseQuictunTransparentHeader buf = kInvalid \<Longrightarrow> ParseQuictunTransparentHeader (buf @ x) = kInvalid"
  "ParseQuictunTransparentHeader buf = kComplete n d \<Longrightarrow> ParseQuictunTransparentHeader (buf @ x) = kComplete n d"
proof -
  show "ParseQuictunTransparentHeader (buf @ x) = kInvalid" if "ParseQuictunTransparentHeader buf = kInvalid"
    using that by (auto simp: ParseQuictunTransparentHeader_def Let_def nth_append split: if_splits option.splits)
  show "ParseQuictunTransparentHeader (buf @ x) = kComplete n d" if p: "ParseQuictunTransparentHeader buf = kComplete n d"
    using parse_header [OF header_parsed(1) [OF p], of "drop n buf @ x"] header_parsed(2,3) [OF p]
    by (metis append_assoc)
qed

section \<open>The decision\<close>

definition key_ok :: "bytes \<Rightarrow> bool \<Rightarrow> socket_address option \<Rightarrow> bool" where
  "key_ok psk transparent dest \<longleftrightarrow>
     length psk < 65536 \<and> (case dest of None \<Rightarrow> \<not> transparent | Some d \<Rightarrow> transparent \<and> dest_ok d)"

lemma check_client_preamble:
  assumes "key_ok psk transparent dest"
  shows "check_preamble psk transparent (client_preamble psk dest @ payload) = AuthAccept dest payload"
proof -
  have k: "rd16 (be16 (length psk) ! 0) (be16 (length psk) ! Suc 0) = length psk"
    using assms rd16_be16 [of "length psk"] by (simp add: key_ok_def)
  have d: "drop (2 + n) (be16 x @ ys) = drop n ys" for n x and ys :: bytes by simp
  show ?thesis
    using assms k parse_header
    by (cases dest) (auto simp: check_preamble_def client_preamble_def key_ok_def nth_append Let_def)
qed

lemma check_accepts:
  assumes "check_preamble psk transparent buf = AuthAccept dest payload"
  shows "key_ok psk transparent dest" "buf = client_preamble psk dest @ payload"
proof -
  let ?n = "rd16 (buf ! 0) (buf ! 1)"
  have len: "2 + ?n \<le> length buf" and key: "take ?n (drop 2 buf) = psk"
    using assms by (auto simp: check_preamble_def Let_def split: if_splits)
  have n: "length psk = ?n" using key len by auto
  have two: "take 2 buf = be16 (length psk)"
    using len by (cases buf; cases "tl buf") (auto simp: n be16_rd16)
  have buf: "buf = be16 (length psk) @ psk @ drop (2 + ?n) buf"
    using two key by (metis append_take_drop_id drop_drop add.commute)
  have psk: "length psk < 65536" by (simp add: n rd16_less)
  show "key_ok psk transparent dest" "buf = client_preamble psk dest @ payload"
  proof (atomize (full), cases transparent)
    case True
    then obtain h d where h: "ParseQuictunTransparentHeader (drop (2 + ?n) buf) = kComplete h d" and
      dest: "dest = Some d" "payload = drop (2 + ?n + h) buf"
      using assms len key by (auto simp: check_preamble_def Let_def split: parsed_transparent_header.splits)
    have "drop (2 + ?n) buf = transparent_header d @ payload"
      using header_parsed(2) [OF h] dest(2) by (simp add: add.commute)
    then show "key_ok psk transparent dest \<and> buf = client_preamble psk dest @ payload"
      using header_parsed(1) [OF h] buf True psk dest(1) by (simp add: key_ok_def client_preamble_def)
  next
    case False
    then show "key_ok psk transparent dest \<and> buf = client_preamble psk dest @ payload"
      using assms len key psk buf by (auto simp: check_preamble_def Let_def key_ok_def client_preamble_def)
  qed
qed

lemma check_extend:
  "check_preamble psk t buf = AuthAccept dest payload \<Longrightarrow> check_preamble psk t (buf @ x) = AuthAccept dest (payload @ x)"
  "check_preamble psk t buf = AuthReject \<Longrightarrow> check_preamble psk t (buf @ x) = AuthReject"
proof -
  show "check_preamble psk t (buf @ x) = AuthAccept dest (payload @ x)" if c: "check_preamble psk t buf = AuthAccept dest payload"
    using check_client_preamble [OF check_accepts(1) [OF c], of "payload @ x"] check_accepts(2) [OF c] by simp
  show "check_preamble psk t (buf @ x) = AuthReject" if "check_preamble psk t buf = AuthReject"
    using that parse_extend
    by (auto simp: check_preamble_def Let_def nth_append split: if_splits parsed_transparent_header.splits)
qed

lemma check_before:
  assumes "key_ok psk t dest" "strict_prefix buf (client_preamble psk dest)"
  shows "check_preamble psk t buf = AuthPending"
proof (cases "check_preamble psk t buf")
  case AuthReject
  with check_extend(2) check_client_preamble [OF assms(1), of "[]"] show ?thesis
    using assms(2) by (metis append_Nil2 auth_decision.distinct(5) prefix_def strict_prefix_def)
next
  case (AuthAccept d x)
  obtain y where y: "client_preamble psk dest = buf @ y" "y \<noteq> []" using assms(2) by (auto simp: strict_prefix_def prefix_def)
  have "AuthAccept d (x @ y) = AuthAccept dest []"
    using check_extend(1) [OF AuthAccept, of y] check_client_preamble [OF assms(1), of "[]"] y(1) by simp
  then show ?thesis using y(2) by simp
qed

section \<open>Properties\<close>

text \<open>C19. Client and server agree on the start of a stream: the server accepts a buffer, with a destination
  and a payload, exactly when it is the client's preamble for the server's own key, with that destination
  in transparent mode and none otherwise, followed by that payload.  So what a client sends is read back
  as it was written, and only a peer that sends the key gets a tunnel.\<close>

theorem preamble_round_trip:
  "check_preamble psk transparent buf = AuthAccept dest payload \<longleftrightarrow>
     key_ok psk transparent dest \<and> buf = client_preamble psk dest @ payload"
  using check_client_preamble check_accepts by blast



text \<open>C36. A key of 65536 bytes or more does not fit the length field of the preamble: the client's length wraps
  around, and the server with the very same key rejects every such stream, whatever follows.\<close>

theorem long_key_rejected:
  assumes "65536 \<le> length psk"
  shows "check_preamble psk transparent (client_preamble psk dest @ payload) = AuthReject"
proof -
  let ?b = "client_preamble psk dest @ payload"
  have k: "rd16 (?b ! 0) (?b ! 1) = length psk mod 65536"
    using rd16_be16 [of "length psk"] by (simp add: client_preamble_def nth_append)
  have "rd16 (?b ! 0) (?b ! 1) < length psk" unfolding k by (rule less_le_trans [OF mod_less_divisor assms]) simp
  then have "length (take (rd16 (?b ! 0) (?b ! 1)) (drop 2 ?b)) < length psk" by (simp only: length_take min_less_iff_disj simp_thms)
  then have "take (rd16 (?b ! 0) (?b ! 1)) (drop 2 ?b) \<noteq> psk" by (metis less_irrefl)
  moreover have "2 + rd16 (?b ! 0) (?b ! 1) \<le> length ?b" unfolding k by (simp add: client_preamble_def trans_le_add1)
  ultimately show ?thesis by (simp add: check_preamble_def Let_def)
qed

theorem long_key_rejected_witness:
  "65536 \<le> length (replicate 65540 (7 :: byte)) \<and>
   check_preamble (replicate 65540 7) False (client_preamble (replicate 65540 7) None @ [1]) = AuthReject"
  using long_key_rejected [of "replicate 65540 7" False None "[1]"] by simp

end
