(* ===== verification/Server_Connection.thy ===== *)
theory Server_Connection
  imports Tunnel_Properties Preamble
begin

text \<open>
  \<open>QuictunServerConnection\<close> (\<open>quictun_server_connection.cc\<close>) with the part of
  \<open>QuictunSessionBase\<close> that routes the events of a stream to its delegate, and the dial-out
  of \<open>EventLoopConnectingClientSocket\<close>.

  The state extends the one of a tunnel: the tunnel, stream and socket are those of the
  stream \<open>sc_id\<close>, and the maps of the connection are over all streams.  The other streams
  take part through the operations of the connection that are named with an identifier.
  \<open>tn_id\<close> is the identity of the tunnel that the stream has or will get.  Of a socket that no
  tunnel owns only the call of \<open>Disconnect\<close> is recorded, in \<open>tg_socket_disconnected\<close>.
  \<open>sc_dangling\<close> records that \<open>OnStreamDataAvailable\<close> used its reference into
  \<open>key_read_buffers_\<close> after the entry was erased.  \<open>sc_accepted\<close> and \<open>sc_consumed\<close> are
  auxiliary: the decision of the authentication, and how many bytes it read.
\<close>

datatype stream_delegate = ToConnection | ToTunnel

record stream_target =
  tg_address :: "socket_address option"
  tg_tunnel :: tunnel_id
  tg_socket_disconnected :: bool

record server_connection = tunnel +
  sc_id :: QuicStreamId
  sc_delegates :: "QuicStreamId \<rightharpoonup> stream_delegate"
  sc_target_address :: "socket_address option"
  sc_transparent :: bool
  sc_expected_psk :: bytes
  sc_key_read_buffers :: "QuicStreamId \<rightharpoonup> bytes"
  sc_stream_targets :: "QuicStreamId \<rightharpoonup> stream_target"
  sc_closed_stream_targets :: "stream_target list"
  sc_stream_garbage_alarm :: "QuicTime option"
  sc_has_on_closed :: bool
  sc_closed :: bool
  sc_close_calls :: nat
  sc_connecting :: bool
  sc_dangling :: bool
  sc_accepted :: "socket_address option option"
  sc_consumed :: nat

type_synonym 'a sc_handler = "'a server_connection_scheme \<Rightarrow> 'a server_connection_scheme"

datatype connect_result = ConnectOk | ConnectPending | ConnectFailed

definition QUIC_BAD_APPLICATION_PAYLOAD :: QuicRstStreamErrorCode where
  "QUIC_BAD_APPLICATION_PAYLOAD = Other_QuicRstStreamErrorCode 3"

section \<open>Targets\<close>

definition DisconnectStreamTarget :: "stream_target \<Rightarrow> stream_target" where
  "DisconnectStreamTarget t =
     (if tg_address t \<noteq> None \<and> \<not> tg_socket_disconnected t then t\<lparr>tg_socket_disconnected := True\<rparr> else t)"

definition ClearStreamDelegate :: "QuicStreamId \<Rightarrow> 'a sc_handler" where
  "ClearStreamDelegate i w = w\<lparr>sc_delegates := (sc_delegates w)(i := None)\<rparr>"

definition SetStreamDelegate :: "QuicStreamId \<Rightarrow> stream_delegate \<Rightarrow> 'a sc_handler" where
  "SetStreamDelegate i d w = w\<lparr>sc_delegates := (sc_delegates w)(i \<mapsto> d)\<rparr>"

text \<open>The callback the connection gives to the tunnel of the stream \<open>i\<close>.\<close>

definition tunnel_closed_callback :: "bool \<Rightarrow> QuicStreamId \<Rightarrow> 'a sc_handler" where
  "tunnel_closed_callback has_socket i w =
     (case sc_stream_targets w i of
        None \<Rightarrow> w
      | Some t \<Rightarrow>
          let t = (if \<not> has_socket then DisconnectStreamTarget t else t\<lparr>tg_socket_disconnected := True\<rparr>);
              w = ClearStreamDelegate i w;
              w = w\<lparr>sc_closed_stream_targets := sc_closed_stream_targets w @ [t],
                    sc_stream_targets := (sc_stream_targets w)(i := None)\<rparr>
          in if sc_stream_garbage_alarm w = None then w\<lparr>sc_stream_garbage_alarm := Some (cn_now w)\<rparr> else w)"

definition server_on_closed :: "'a sc_handler" where
  "server_on_closed w = tunnel_closed_callback (tn_has_socket w) (sc_id w) w"

section \<open>Events of a stream\<close>

definition QuictunServerConnection_OnStreamGone :: "QuicStreamId \<Rightarrow> 'a sc_handler" where
  "QuictunServerConnection_OnStreamGone i w = w\<lparr>sc_key_read_buffers := (sc_key_read_buffers w)(i := None)\<rparr>"

definition QuictunSessionBase_OnStreamGone :: "'a sc_handler" where
  "QuictunSessionBase_OnStreamGone w =
     (case sc_delegates w (sc_id w) of
        None \<Rightarrow> w
      | Some d \<Rightarrow>
          let w = ClearStreamDelegate (sc_id w) w
          in case d of
               ToConnection \<Rightarrow> QuictunServerConnection_OnStreamGone (sc_id w) w
             | ToTunnel \<Rightarrow> QuictunTunnel_OnStreamGone server_on_closed w)"

abbreviation sc_gone :: "'a sc_handler" where
  "sc_gone \<equiv> QuictunSessionBase_OnStreamGone"

abbreviation sc_lost :: "QuicErrorCode \<Rightarrow> 'a sc_handler" where
  "sc_lost \<equiv> connection_lost sc_gone"

section \<open>The dial-out\<close>

definition EventLoopConnectingClientSocket_DoInitialConnect :: "connect_result \<Rightarrow> 'a sc_handler" where
  "EventLoopConnectingClientSocket_DoInitialConnect r w =
     (case r of
        ConnectOk \<Rightarrow> w\<lparr>sc_connecting := False\<rparr>
      | ConnectPending \<Rightarrow> w\<lparr>sc_connecting := True\<rparr>
      | ConnectFailed \<Rightarrow> w\<lparr>sk_open := False, sc_connecting := False\<rparr>)"

definition EventLoopConnectingClientSocket_FinishOrRearmAsyncConnect ::
    "(bool \<Rightarrow> 'a sc_handler) \<Rightarrow> connect_result \<Rightarrow> 'a sc_handler" where
  "EventLoopConnectingClientSocket_FinishOrRearmAsyncConnect connect_complete r w =
     (if r = ConnectPending then if \<not> sk_edge_triggered w then w\<lparr>sk_armed_write := True\<rparr> else w
      else connect_complete (r = ConnectOk) w)"

text \<open>\<open>opened\<close> is whether a descriptor could be created.\<close>

definition EventLoopConnectingClientSocket_ConnectAsync ::
    "(bool \<Rightarrow> 'a sc_handler) \<Rightarrow> bool \<Rightarrow> connect_result \<Rightarrow> 'a sc_handler" where
  "EventLoopConnectingClientSocket_ConnectAsync connect_complete opened r w =
     (if \<not> opened then connect_complete False w
      else EventLoopConnectingClientSocket_FinishOrRearmAsyncConnect connect_complete r
             (EventLoopConnectingClientSocket_DoInitialConnect r (w\<lparr>sk_open := True\<rparr>)))"

text \<open>The result is known once the descriptor is writable: the pending error of the socket, and what
  peeking at one byte gives.\<close>

definition EventLoopConnectingClientSocket_GetConnectResult ::
    "bool \<Rightarrow> connect_result \<Rightarrow> 'a server_connection_scheme \<Rightarrow> connect_result \<times> 'a server_connection_scheme" where
  "EventLoopConnectingClientSocket_GetConnectResult no_error peek w =
     (if \<not> no_error then (ConnectFailed, w\<lparr>sk_open := False, sc_connecting := False\<rparr>)
      else if peek \<noteq> ConnectFailed then (ConnectOk, w\<lparr>sc_connecting := False\<rparr>)
      else (ConnectFailed, w\<lparr>sk_open := False, sc_connecting := False\<rparr>))"

record target_answers =
  ta_no_error :: bool
  ta_peek :: connect_result
  ta_receive :: recv_result
  ta_send :: send_result
  ta_recv :: "recv_result list"
  ta_sends :: "send_result list"

definition EventLoopConnectingClientSocket_OnSocketEvent :: "bool \<Rightarrow> bool \<Rightarrow> target_answers \<Rightarrow> 'a sc_handler" where
  "EventLoopConnectingClientSocket_OnSocketEvent readable writable a w =
     (if sc_connecting w \<and> writable
      then case EventLoopConnectingClientSocket_GetConnectResult (ta_no_error a) (ta_peek a) w of (r, w) \<Rightarrow>
             EventLoopConnectingClientSocket_FinishOrRearmAsyncConnect
               (QuictunTunnel_ConnectComplete (ta_recv a) (ta_sends a) server_on_closed) r w
      else QuictunAcceptedTcpSocket_OnSocketEvent
             (QuictunTunnel_ReceiveComplete server_on_closed (QuictunTunnel_BeginReadFromTcp (ta_recv a) server_on_closed))
             (QuictunTunnel_SendComplete server_on_closed (QuictunTunnel_MaybeFlushQuicToTcp (ta_sends a) server_on_closed))
             readable writable (ta_receive a) (ta_send a) w)"

section \<open>Authentication\<close>

text \<open>What the environment answers during one call: whether a descriptor could be created, what
  the connect gives, and what the kernel answers if the tunnel starts at once.\<close>

record dial =
  dl_opened :: bool
  dl_connect :: connect_result
  dl_recv :: "recv_result list"
  dl_send :: "send_result list"

text \<open>\<open>prepare_target\<close> is \<open>StartTunnelForStream\<close> up to the dial-out.\<close>

definition prepare_target :: "bytes \<Rightarrow> socket_address option \<Rightarrow> 'a sc_handler" where
  "prepare_target leftover dest w =
     (let i = sc_id w;
          w = QuictunTunnel_new (tn_id w) False w;
          w = QuictunTunnel_SetPendingSeedData leftover w;
          w = dcheck (sc_transparent w = (dest \<noteq> None)) w;
          w = dcheck (sc_transparent w = (sc_target_address w = None)) w;
          connect_to = (if sc_transparent w then dest else sc_target_address w);
          w = QuictunTunnel_SetSocket ((no_socket w)\<lparr>sk_written := []\<rparr>);
          w = w\<lparr>sc_stream_targets := (sc_stream_targets w)(i \<mapsto>
                 \<lparr>tg_address = connect_to, tg_tunnel = tn_id w, tg_socket_disconnected = False\<rparr>)\<rparr>
      in SetStreamDelegate i ToTunnel w)"

definition StartTunnelForStream :: "dial \<Rightarrow> bytes \<Rightarrow> socket_address option \<Rightarrow> 'a sc_handler" where
  "StartTunnelForStream dl leftover dest w =
     EventLoopConnectingClientSocket_ConnectAsync
       (QuictunTunnel_ConnectComplete (dl_recv dl) (dl_send dl) server_on_closed) (dl_opened dl) (dl_connect dl)
       (prepare_target leftover dest w)"

definition erase_key_read_buffer :: "'a sc_handler" where
  "erase_key_read_buffer w = w\<lparr>sc_key_read_buffers := (sc_key_read_buffers w)(sc_id w := None)\<rparr>"

text \<open>One round of the loop, with what follows the loop when it is left; the second component says
  whether the loop goes round again.  \<open>auth_decide\<close> is what the outcome of
  the check of the buffer leads to.\<close>

fun auth_decide ::
    "dial \<Rightarrow> bytes \<Rightarrow> bool \<Rightarrow> auth_decision \<Rightarrow> 'a server_connection_scheme \<Rightarrow> 'a server_connection_scheme \<times> bool" where
  "auth_decide dl data fin AuthReject w =
     (erase_key_read_buffer (QuicStream_Reset sc_lost sc_gone QUIC_BAD_APPLICATION_PAYLOAD w), False)"
| "auth_decide dl data fin (AuthAccept dest leftover) w =
     (StartTunnelForStream dl leftover dest ((erase_key_read_buffer w)\<lparr>sc_accepted := Some dest\<rparr>), False)"
| "auth_decide dl data fin AuthPending w =
     (if data = [] then (if fin then erase_key_read_buffer w else w, False) else (w, True))"

definition auth_round :: "dial \<Rightarrow> 'a server_connection_scheme \<Rightarrow> 'a server_connection_scheme \<times> bool" where
  "auth_round dl w =
     (case QuictunStream_Read sc_lost sc_gone 512 w of (data, fin, w) \<Rightarrow>
        let w = w\<lparr>sc_consumed := sc_consumed w + length data\<rparr>
        in case sc_key_read_buffers w (sc_id w) of
          None \<Rightarrow> (w\<lparr>sc_dangling := True\<rparr>, False)
        | Some buf \<Rightarrow>
            auth_decide dl data fin (check_preamble (sc_expected_psk w) (sc_transparent w) (buf @ data))
              (w\<lparr>sc_key_read_buffers := (sc_key_read_buffers w)(sc_id w \<mapsto> buf @ data)\<rparr>))"

fun auth_rounds :: "nat \<Rightarrow> dial \<Rightarrow> 'a sc_handler" where
  "auth_rounds 0 dl w = diverge w"
| "auth_rounds (Suc fuel) dl w = (case auth_round dl w of (w, again) \<Rightarrow> if again then auth_rounds fuel dl w else w)"

declare auth_rounds.simps [simp del]

text \<open>The server is undecided only as long as the buffer is shorter than the longest preamble, so this
  many rounds are enough.\<close>

definition max_preamble :: nat where
  "max_preamble = 2 + 65535 + 19"

text \<open>A stream is in \<open>streams()\<close> until both its sides are closed.\<close>

definition stream_live :: "'a quic_stream_scheme \<Rightarrow> bool" where
  "stream_live w \<longleftrightarrow> \<not> (st_read_side_closed w \<and> st_write_side_closed w)"

definition QuictunServerConnection_OnStreamDataAvailable :: "dial \<Rightarrow> 'a sc_handler" where
  "QuictunServerConnection_OnStreamDataAvailable dl w =
     (if sc_key_read_buffers w (sc_id w) = None \<or> sc_closed w then w
      else if \<not> stream_live w then w
      else auth_rounds max_preamble dl w)"

definition QuictunServerConnection_OnNewStream :: "dial \<Rightarrow> 'a sc_handler" where
  "QuictunServerConnection_OnNewStream dl w =
     (if sc_closed w then w
      else QuictunServerConnection_OnStreamDataAvailable dl
             (SetStreamDelegate (sc_id w) ToConnection
               (w\<lparr>sc_key_read_buffers := (sc_key_read_buffers w)(sc_id w \<mapsto> [])\<rparr>)))"

definition QuictunSessionBase_CreateIncomingStream :: "nat \<Rightarrow> nat \<Rightarrow> dial \<Rightarrow> 'a sc_handler" where
  "QuictunSessionBase_CreateIncomingStream receive_window send_window dl w =
     QuictunServerConnection_OnNewStream dl (QuictunStream_new receive_window send_window w)"

definition QuictunSessionBase_OnStreamDataAvailable :: "dial \<Rightarrow> 'a sc_handler" where
  "QuictunSessionBase_OnStreamDataAvailable dl w =
     (case sc_delegates w (sc_id w) of
        None \<Rightarrow> w
      | Some ToConnection \<Rightarrow> QuictunServerConnection_OnStreamDataAvailable dl w
      | Some ToTunnel \<Rightarrow> QuictunTunnel_OnStreamDataAvailable (dl_send dl) server_on_closed w)"

definition QuictunSessionBase_OnStreamCanWriteMore :: "recv_result list \<Rightarrow> 'a sc_handler" where
  "QuictunSessionBase_OnStreamCanWriteMore rs w =
     (case sc_delegates w (sc_id w) of
        None \<Rightarrow> w
      | Some ToConnection \<Rightarrow> w
      | Some ToTunnel \<Rightarrow> QuictunTunnel_OnStreamCanWriteMore rs server_on_closed w)"

section \<open>Closing the connection\<close>

definition CollectStreamGarbage :: "'a sc_handler" where
  "CollectStreamGarbage w = w\<lparr>sc_closed_stream_targets := [], sc_stream_garbage_alarm := None\<rparr>"

text \<open>The tunnel of the stream in the state closes in full; the tunnels of the other streams are
  known by what their close does here, which is the callback.\<close>

definition close_tunnel_of :: "QuicStreamId \<Rightarrow> 'a sc_handler" where
  "close_tunnel_of i w =
     (if sc_stream_targets w i = None then w
      else if i = sc_id w then if tn_closed w then w else QuictunTunnel_Close server_on_closed False w
      else tunnel_closed_callback True i w)"

definition QuictunServerConnection_Close :: "QuicStreamId list \<Rightarrow> 'a sc_handler" where
  "QuictunServerConnection_Close ids w =
     (if sc_closed w then w
      else let w = w\<lparr>sc_closed := True\<rparr>;
               w = sc_lost QUIC_NO_ERROR w;
               w = fold close_tunnel_of ids w;
               w = w\<lparr>sc_stream_targets := Map.empty, sc_key_read_buffers := Map.empty,
                     sc_stream_garbage_alarm := None\<rparr>
           in if sc_has_on_closed w then w\<lparr>sc_has_on_closed := False, sc_close_calls := sc_close_calls w + 1\<rparr> else w)"

definition QuictunServerConnection_OnConnectionClosed :: "QuicStreamId list \<Rightarrow> 'a sc_handler" where
  "QuictunServerConnection_OnConnectionClosed ids w = QuictunServerConnection_Close ids w"

end
