(* ===== verification/Server_Safety.thy ===== *)
theory Server_Safety
  imports Server_Connection
begin

text \<open>
  What a server connection keeps of a stream, from its creation over the authentication to
  the end of its tunnel.  \<open>\<sigma>\<close> is the peer's stream.  As long as the stream is not
  authenticated the buffer holds its first bytes and the tunnel of the state is blank; from
  then on the preamble and the seed of the tunnel are those first bytes.
\<close>

section \<open>The invariant\<close>

definition unread :: "(nat \<Rightarrow> byte) \<Rightarrow> 'a server_connection_scheme \<Rightarrow> bool" where
  "unread \<sigma> w \<longleftrightarrow>
     (case sc_key_read_buffers w (sc_id w) of
        None \<Rightarrow> True
      | Some buf \<Rightarrow> sc_accepted w = None \<and> buf = map \<sigma> [0..<sc_consumed w])"

definition routed :: "(nat \<Rightarrow> byte) \<Rightarrow> bool \<Rightarrow> bytes \<Rightarrow> 'a server_connection_scheme \<Rightarrow> bool" where
  "routed \<sigma> closed seed w \<longleftrightarrow>
     (case sc_accepted w of
        None \<Rightarrow> sc_stream_targets w (sc_id w) = None \<and> sc_delegates w (sc_id w) \<noteq> Some ToTunnel
      | Some dest \<Rightarrow>
          key_ok (sc_expected_psk w) (sc_transparent w) dest \<and>
          client_preamble (sc_expected_psk w) dest @ seed = map \<sigma> [0..<sc_consumed w] \<and>
          (sc_stream_targets w (sc_id w) = None \<longleftrightarrow> closed) \<and>
          (\<forall>t. sc_stream_targets w (sc_id w) = Some t \<longrightarrow> tg_address t = (if sc_transparent w then dest else sc_target_address w)) \<and>
          sc_delegates w (sc_id w) \<noteq> Some ToConnection \<and> (sc_delegates w (sc_id w) = Some ToTunnel \<longrightarrow> \<not> closed))"

definition owner_ok :: "(nat \<Rightarrow> byte) \<Rightarrow> bool \<Rightarrow> bytes \<Rightarrow> 'a server_connection_scheme \<Rightarrow> bool" where
  "owner_ok \<sigma> closed seed w \<longleftrightarrow>
     unread \<sigma> w \<and> routed \<sigma> closed seed w \<and> sc_transparent w = (sc_target_address w = None)"

text \<open>What no event of the stream changes: the configuration, the entries of the other streams, and the
  callback of the connection's owner.\<close>

definition sc_static :: "'a server_connection_scheme \<Rightarrow> _" where
  "sc_static w = (sc_id w, sc_expected_psk w, sc_transparent w, sc_target_address w)"

definition sc_others :: "'a server_connection_scheme \<Rightarrow> _" where
  "sc_others w = ((sc_delegates w)(sc_id w := None), (sc_key_read_buffers w)(sc_id w := None), (sc_stream_targets w)(sc_id w := None))"

definition sc_kept :: "'a server_connection_scheme \<Rightarrow> _" where
  "sc_kept w = (sc_static w, sc_others w, sc_has_on_closed w, sc_close_calls w)"

definition sc_config :: "'a server_connection_scheme \<Rightarrow> _" where
  "sc_config w = (sc_kept w, sc_accepted w, sc_consumed w, sc_closed w)"

lemmas sc_config_defs = sc_config_def sc_kept_def sc_others_def sc_static_def

definition server_owner where
  "server_owner \<sigma> cfg closed seed x \<longleftrightarrow>
     owner_ok \<sigma> closed seed (tunnel.extend undefined x) \<and> sc_config (tunnel.extend undefined x) = cfg"

lemma extend_fields:
  fixes w :: "'a server_connection_scheme"
  shows "sc_id (tunnel.extend u (tunnel.more w)) = sc_id w" "sc_delegates (tunnel.extend u (tunnel.more w)) = sc_delegates w"
    "sc_target_address (tunnel.extend u (tunnel.more w)) = sc_target_address w"
    "sc_transparent (tunnel.extend u (tunnel.more w)) = sc_transparent w"
    "sc_expected_psk (tunnel.extend u (tunnel.more w)) = sc_expected_psk w"
    "sc_key_read_buffers (tunnel.extend u (tunnel.more w)) = sc_key_read_buffers w"
    "sc_stream_targets (tunnel.extend u (tunnel.more w)) = sc_stream_targets w"
    "sc_accepted (tunnel.extend u (tunnel.more w)) = sc_accepted w"
    "sc_consumed (tunnel.extend u (tunnel.more w)) = sc_consumed w"
    "sc_closed (tunnel.extend u (tunnel.more w)) = sc_closed w"
    "sc_has_on_closed (tunnel.extend u (tunnel.more w)) = sc_has_on_closed w"
    "sc_close_calls (tunnel.extend u (tunnel.more w)) = sc_close_calls w"
  by (cases w; simp add: tunnel.extend_def)+

lemma server_owner_iff:
  "server_owner \<sigma> cfg closed seed (tunnel.more w) \<longleftrightarrow> owner_ok \<sigma> closed seed w \<and> sc_config w = cfg"
  unfolding server_owner_def owner_ok_def unread_def routed_def sc_config_defs extend_fields by (rule refl)

section \<open>The callback of the tunnel\<close>

lemma server_on_closed_truncate: "tunnel.truncate (server_on_closed w) = tunnel.truncate w"
  by (simp add: server_on_closed_def tunnel_closed_callback_def ClearStreamDelegate_def tunnel.truncate_def Let_def
      split: option.split)

lemma server_on_closed_ok:
  assumes "owner_ok \<sigma> False seed w"
  shows "owner_ok \<sigma> True seed (server_on_closed w)" "sc_config (server_on_closed w) = sc_config w"
proof -
  have f: "sc_id (server_on_closed w) = sc_id w" "sc_expected_psk (server_on_closed w) = sc_expected_psk w"
    "sc_transparent (server_on_closed w) = sc_transparent w" "sc_target_address (server_on_closed w) = sc_target_address w"
    "sc_accepted (server_on_closed w) = sc_accepted w" "sc_consumed (server_on_closed w) = sc_consumed w"
    "sc_closed (server_on_closed w) = sc_closed w" "sc_key_read_buffers (server_on_closed w) = sc_key_read_buffers w"
    "sc_stream_targets (server_on_closed w) (sc_id w) = None"
    "sc_delegates (server_on_closed w) (sc_id w) = (if sc_stream_targets w (sc_id w) = None then sc_delegates w (sc_id w) else None)"
    by (auto simp: server_on_closed_def tunnel_closed_callback_def ClearStreamDelegate_def Let_def split: option.split)
  show "sc_config (server_on_closed w) = sc_config w"
    by (auto simp: sc_config_defs server_on_closed_def tunnel_closed_callback_def ClearStreamDelegate_def Let_def fun_upd_idem_iff
        split: option.split)
  show "owner_ok \<sigma> True seed (server_on_closed w)"
    using assms by (auto simp: owner_ok_def unread_def routed_def f split: option.splits)
qed

interpretation srv: tunnel_owner server_on_closed "server_owner \<sigma> cfg" for \<sigma> cfg
  by unfold_locales (auto simp: server_on_closed_truncate server_owner_iff server_on_closed_ok)

section \<open>Calls\<close>

definition sc_ok :: "(nat \<Rightarrow> byte) \<Rightarrow> 'a server_connection_scheme \<Rightarrow> bool" where
  "sc_ok \<sigma> w \<longleftrightarrow>
     tunnel_ok (server_owner \<sigma> (sc_config w)) w \<and> (sc_accepted w = None \<longrightarrow> \<not> tn_started w \<and> \<not> tn_closed w \<and> tn_from_tcp w = [])"

definition tunnel_part :: "'a tunnel_scheme \<Rightarrow> _" where
  "tunnel_part w = quic_stream.more (tunnel.truncate w)"

definition sc_frame :: "'a server_connection_scheme \<Rightarrow> 'a server_connection_scheme \<Rightarrow> bool" where
  "sc_frame w w' \<longleftrightarrow>
     kept_by_close w w' \<and> sc_config w' = sc_config w \<and> (tn_closed w \<longrightarrow> tn_closed w') \<and>
     (tn_closed w \<or> \<not> tn_closed w' \<longrightarrow> tunnel_part w' = tunnel_part w) \<and>
     (sc_key_read_buffers w' (sc_id w) = sc_key_read_buffers w (sc_id w) \<or> sc_key_read_buffers w' (sc_id w) = None)"

definition sc_call :: "(nat \<Rightarrow> byte) \<Rightarrow> 'a server_connection_scheme \<Rightarrow> 'a server_connection_scheme \<Rightarrow> bool" where
  "sc_call \<sigma> w w' \<longleftrightarrow> (sc_ok \<sigma> w \<longrightarrow> sc_ok \<sigma> w' \<and> sc_frame w w')"

lemma tunnel_part_more: "quic_stream.more w' = quic_stream.more w \<Longrightarrow> tunnel_part w' = tunnel_part w"
proof -
  assume m: "quic_stream.more w' = quic_stream.more w"
  then have "sk_armed_read w' = sk_armed_read w" "sk_armed_write w' = sk_armed_write w" by (cases w; cases w'; simp)+
  then show ?thesis unfolding tunnel_part_def tunnel.truncate_def by (simp add: same_more [OF m])
qed

lemma same_tunnel_part:
  assumes "tunnel_part w' = tunnel_part w"
  shows "tn_closed w' = tn_closed w" "tn_flush_close_alarm w' = tn_flush_close_alarm w"
    "tn_tcp_receive_done w' = tn_tcp_receive_done w" "tn_send_done_time w' = tn_send_done_time w"
    "tn_started w' = tn_started w" "tn_has_socket w' = tn_has_socket w" "sk_open w' = sk_open w"
  using same_more [OF assms [unfolded tunnel_part_def]] by (simp_all add: tunnel.truncate_def)

lemma sc_frame_trans: "sc_frame u v \<Longrightarrow> sc_frame v w \<Longrightarrow> sc_frame u w"
proof -
  assume a: "sc_frame u v" "sc_frame v w"
  have "sc_id v = sc_id u" using a(1) by (simp add: sc_frame_def sc_config_defs)
  moreover have "kept_by_close u w" using a by (simp add: sc_frame_def kept_by_close_def)
  moreover have "tn_closed u \<longrightarrow> tn_closed w" "sc_config w = sc_config u" using a by (simp_all add: sc_frame_def)
  moreover have "tunnel_part w = tunnel_part u" if "tn_closed u \<or> \<not> tn_closed w" using a that unfolding sc_frame_def by metis
  moreover have "sc_key_read_buffers w (sc_id v) = sc_key_read_buffers v (sc_id v) \<or> sc_key_read_buffers w (sc_id v) = None"
    using a(2) by (simp add: sc_frame_def)
  moreover have "sc_key_read_buffers v (sc_id u) = sc_key_read_buffers u (sc_id u) \<or> sc_key_read_buffers v (sc_id u) = None"
    using a(1) by (simp add: sc_frame_def)
  ultimately show ?thesis unfolding sc_frame_def by metis
qed

lemma sc_ok_owner_ok: "sc_ok \<sigma> w \<Longrightarrow> owner_ok \<sigma> (tn_closed w) (tn_pending_seed_data w) w"
  by (simp add: sc_ok_def tunnel_ok_def tunnel_core_def closing_ok_def server_owner_iff)

lemma sc_ok_owner:
  assumes t: "tunnel.truncate v = tunnel.truncate w" and ok: "sc_ok \<sigma> w"
    and o: "owner_ok \<sigma> (tn_closed w) (tn_pending_seed_data w) w \<Longrightarrow> owner_ok \<sigma> (tn_closed w) (tn_pending_seed_data w) v"
    and a: "sc_accepted v = sc_accepted w"
  shows "sc_ok \<sigma> v"
proof -
  have "tunnel_ok (server_owner \<sigma> (sc_config w)) w" using ok by (simp add: sc_ok_def)
  moreover from this have "owner_ok \<sigma> (tn_closed w) (tn_pending_seed_data w) w"
    by (simp add: tunnel_ok_def tunnel_core_def closing_ok_def server_owner_iff)
  ultimately have "tunnel_ok (server_owner \<sigma> (sc_config v)) v"
    using tunnel_ok_owner [OF t] o by (simp add: server_owner_iff)
  then show ?thesis using ok a ok_truncate(9,11,12) [of v] by (simp add: sc_ok_def t ok_truncate)
qed

lemma same_owner:
  fixes v w :: "'a server_connection_scheme"
  assumes "tunnel.more v = tunnel.more w"
  shows "sc_config v = sc_config w" "sc_key_read_buffers v = sc_key_read_buffers w" "sc_accepted v = sc_accepted w"
    "sc_id v = sc_id w" "sc_expected_psk v = sc_expected_psk w" "sc_transparent v = sc_transparent w" "sc_kept v = sc_kept w"
    "sc_consumed v = sc_consumed w"
  using assms by (cases v; cases w; simp add: sc_config_defs)+

lemma sc_call_stream:
  assumes "stream_only w w'"
  shows "sc_call \<sigma> w w'"
proof -
  have m: "quic_stream.more w' = quic_stream.more w" using assms by (simp add: stream_only_def)
  then have f: "tunnel.more w' = tunnel.more w" "tn_closed w' = tn_closed w" "tn_started w' = tn_started w" "tn_from_tcp w' = tn_from_tcp w"
    using same_more [OF m] by simp_all
  note c = same_owner [OF f(1)]
  have "undisturbed w w'" if "tunnel_ok (server_owner \<sigma> (sc_config w)) w"
    using stream_only_safe [OF assms] that by (simp add: safe_call_def)
  moreover have "tunnel_ok (server_owner \<sigma> (sc_config w)) w'" if "tunnel_ok (server_owner \<sigma> (sc_config w)) w"
    using stream_only_safe [OF assms] that by (simp add: safe_call_def)
  ultimately show ?thesis using tunnel_part_more [OF m] f c
    by (auto simp: sc_call_def sc_ok_def sc_frame_def undisturbed_def)
qed

lemma clear_delegate:
  "tunnel.truncate (ClearStreamDelegate i w) = tunnel.truncate w"
  "sc_config (ClearStreamDelegate (sc_id w) w) = sc_config w"
  "sc_accepted (ClearStreamDelegate i w) = sc_accepted w" "sc_id (ClearStreamDelegate i w) = sc_id w"
  "sc_key_read_buffers (ClearStreamDelegate i w) = sc_key_read_buffers w"
  "owner_ok \<sigma> c seed w \<Longrightarrow> owner_ok \<sigma> c seed (ClearStreamDelegate i w)"
  by (auto simp: ClearStreamDelegate_def tunnel.truncate_def sc_config_defs owner_ok_def unread_def routed_def split: option.splits)

lemma truncate_frame: "tunnel.truncate v = tunnel.truncate w \<Longrightarrow> kept_by_close w v \<and> tunnel_part v = tunnel_part w"
  unfolding tunnel_part_def kept_by_close_def by (simp add: tunnel.truncate_def)

lemma sc_gone_ok:
  assumes ok: "sc_ok \<sigma> w"
  shows "sc_ok \<sigma> (sc_gone w) \<and> sc_frame w (sc_gone w)"
proof (cases "sc_delegates w (sc_id w)")
  case None
  then show ?thesis using ok by (simp add: QuictunSessionBase_OnStreamGone_def sc_frame_def kept_by_close_def)
next
  case (Some d)
  let ?v = "ClearStreamDelegate (sc_id w) w"
  have v: "sc_ok \<sigma> ?v" by (rule sc_ok_owner [OF clear_delegate(1) ok clear_delegate(6) clear_delegate(3)])
  have fv: "sc_frame w ?v"
    using truncate_frame [OF clear_delegate(1) [of "sc_id w" w]] ok_truncate(9) [of ?v] ok_truncate(9) [of w]
    by (simp add: sc_frame_def clear_delegate)
  show ?thesis
  proof (cases d)
    case ToConnection
    let ?u = "QuictunServerConnection_OnStreamGone (sc_id w) ?v"
    have u: "sc_gone w = ?u" using Some ToConnection by (simp add: QuictunSessionBase_OnStreamGone_def clear_delegate Let_def)
    have t: "tunnel.truncate ?u = tunnel.truncate ?v" and c: "sc_config ?u = sc_config ?v" "sc_accepted ?u = sc_accepted ?v"
      by (simp_all add: QuictunServerConnection_OnStreamGone_def ClearStreamDelegate_def tunnel.truncate_def sc_config_defs)
    have "sc_ok \<sigma> ?u"
      by (rule sc_ok_owner [OF t v _ c(2)])
        (auto simp: QuictunServerConnection_OnStreamGone_def owner_ok_def unread_def routed_def clear_delegate split: option.splits)
    moreover have "sc_frame ?v ?u"
      using truncate_frame [OF t] ok_truncate(9) [of ?u] ok_truncate(9) [of ?v] t c
      by (simp add: sc_frame_def QuictunServerConnection_OnStreamGone_def clear_delegate)
    ultimately show ?thesis using u sc_frame_trans [OF fv] by simp
  next
    case ToTunnel
    let ?u = "tn_gone server_on_closed ?v"
    let ?P = "server_owner \<sigma> (sc_config w)"
    have u: "sc_gone w = ?u" using Some ToTunnel by (simp add: QuictunSessionBase_OnStreamGone_def Let_def)
    have acc: "sc_accepted w \<noteq> None"
      using sc_ok_owner_ok [OF ok] Some ToTunnel by (auto simp: owner_ok_def routed_def split: option.splits)
    have s: "safe_call ?P ?v ?u" by (rule srv.gone_safe)
    have "tunnel_ok ?P ?v" using v by (simp add: sc_ok_def clear_delegate)
    then have ok': "tunnel_ok ?P ?u" and un: "undisturbed ?v ?u" using s by (simp_all add: safe_call_def)
    then have c: "sc_config ?u = sc_config w" "owner_ok \<sigma> (tn_closed ?u) (tn_pending_seed_data ?u) ?u"
      by (simp_all add: tunnel_ok_def tunnel_core_def closing_ok_def server_owner_iff)
    then have acc': "sc_accepted ?u \<noteq> None" "sc_id ?u = sc_id w" using acc by (simp_all add: sc_config_defs)
    have "sc_key_read_buffers ?u (sc_id w) = None"
      using c(2) acc' by (auto simp: owner_ok_def unread_def split: option.splits)
    then have "sc_frame ?v ?u"
      using un tunnel_part_more [of ?u ?v] c(1) by (simp add: sc_frame_def undisturbed_def clear_delegate)
    then show ?thesis using u sc_frame_trans [OF fv] ok' c(1) acc'(1) by (auto simp: sc_ok_def)
  qed
qed

lemma sc_gone_recv: "recv_keeps \<sigma> w (sc_gone w)"
proof -
  have k: "recv_keeps \<sigma> w (ClearStreamDelegate i w)" for i by (rule recv_keeps_same) (simp_all add: ClearStreamDelegate_def)
  have g: "recv_keeps \<sigma> v (QuictunServerConnection_OnStreamGone i v)" for i v
    by (rule recv_keeps_same) (simp_all add: QuictunServerConnection_OnStreamGone_def)
  show ?thesis
    using recv_keeps_trans [OF k srv.gone_recv] recv_keeps_trans [OF k g] recv_keeps_refl
    by (auto simp: QuictunSessionBase_OnStreamGone_def Let_def split: option.split stream_delegate.split)
qed

lemma sc_gone_send: "send_keeps w (sc_gone w)" "same_send w (sc_gone w)"
proof -
  have k: "send_keeps w (ClearStreamDelegate i w)" "same_send w (ClearStreamDelegate i w)" for i
    by (rule send_keeps_same; simp add: ClearStreamDelegate_def same_send_def) (simp add: ClearStreamDelegate_def same_send_def)
  have g: "send_keeps v (QuictunServerConnection_OnStreamGone i v)" "same_send v (QuictunServerConnection_OnStreamGone i v)" for i v
    by (rule send_keeps_same; simp add: QuictunServerConnection_OnStreamGone_def same_send_def)
      (simp add: QuictunServerConnection_OnStreamGone_def same_send_def)
  show "send_keeps w (sc_gone w)"
    using send_keeps_trans [OF k(1) srv.gone_send(1)] send_keeps_trans [OF k(1) g(1)] send_keeps_refl
    by (auto simp: QuictunSessionBase_OnStreamGone_def Let_def split: option.split stream_delegate.split)
  show "same_send w (sc_gone w)"
    using quiet_same.R_trans [OF k(2) srv.gone_send(2)] quiet_same.R_trans [OF k(2) g(2)] quiet_same.R_refl
    by (auto simp: QuictunSessionBase_OnStreamGone_def Let_def split: option.split stream_delegate.split)
qed

interpretation sc: stream_owner "sc_call \<sigma>" sc_gone for \<sigma>
proof unfold_locales
  show "sc_call \<sigma> u w" if "sc_call \<sigma> u v" "sc_call \<sigma> v w" for u v w
    using that sc_frame_trans unfolding sc_call_def by blast
  show "sc_call \<sigma> w (sc_gone w)" for w unfolding sc_call_def using sc_gone_ok by blast
qed (rule sc_call_stream sc_gone_recv sc_gone_send, assumption?)+

section \<open>The invariant across calls\<close>

definition server_mid where
  "server_mid \<sigma> st m w \<longleftrightarrow>
     sc_kept w = st \<and> sc_ok \<sigma> w \<and> recv_inv \<sigma> (sc_consumed w) m w \<and> send_inv [] w \<and> alarm_ok w"

definition undecided :: "'a server_connection_scheme \<Rightarrow> bool" where
  "undecided w \<longleftrightarrow>
     (case sc_key_read_buffers w (sc_id w) of
        None \<Rightarrow> True
      | Some buf \<Rightarrow> check_preamble (sc_expected_psk w) (sc_transparent w) buf = AuthPending)"

definition server_inv where
  "server_inv \<sigma> st m w \<longleftrightarrow> server_mid \<sigma> st m w \<and> undecided w"

lemma mid_tunnel: "server_mid \<sigma> st m w \<Longrightarrow> tunnel_inv (server_owner \<sigma> (sc_config w)) \<sigma> (sc_consumed w) m [] True w"
  by (simp add: server_mid_def sc_ok_def tunnel_inv_def)

lemma tunnel_mid:
  assumes t: "tunnel_inv (server_owner \<sigma> cfg) \<sigma> n m [] True w" and c: "cfg = (st, Some dest, n, cl)"
  shows "server_inv \<sigma> st m w" "sc_config w = cfg"
proof -
  have o: "owner_ok \<sigma> (tn_closed w) (tn_pending_seed_data w) w" and cfg: "sc_config w = cfg"
    using inv_parts(5) [OF t] by (simp_all add: closing_ok_def server_owner_iff)
  have n: "sc_consumed w = n" "sc_accepted w = Some dest" "sc_kept w = st" using cfg c by (simp_all add: sc_config_def)
  have "sc_key_read_buffers w (sc_id w) = None" using o n by (auto simp: owner_ok_def unread_def split: option.splits)
  then show "server_inv \<sigma> st m w"
    using t n cfg by (simp add: server_inv_def server_mid_def sc_ok_def tunnel_inv_def undecided_def)
  show "sc_config w = cfg" by (fact cfg)
qed

lemma mid_call:
  assumes i: "server_mid \<sigma> st m w" and c: "sc_call \<sigma> w w'" "recv_keeps \<sigma> w w'" "send_keeps w w'"
  shows "server_mid \<sigma> st m w'" "sc_frame w w'"
proof -
  show f: "sc_frame w w'" using i c(1) by (simp add: server_mid_def sc_call_def)
  have ok: "sc_ok \<sigma> w'" using i c(1) by (simp add: server_mid_def sc_call_def)
  have k: "tn_read w' = tn_read w" "tn_from_tcp w' = tn_from_tcp w" "sc_consumed w' = sc_consumed w" "sc_kept w' = sc_kept w"
    using f by (simp_all add: sc_frame_def kept_by_close_def sc_config_def)
  have "alarm_ok w'"
    using i f same_tunnel_part [of w' w] by (auto simp: server_mid_def sc_frame_def alarm_ok_def)
  then show "server_mid \<sigma> st m w'"
    using i ok k recv_inv_keeps [OF _ c(2), of "sc_consumed w" m] send_inv_keeps [OF _ c(3), of "[]"]
    by (simp add: server_mid_def)
qed

lemma frame_undecided: "sc_frame w w' \<Longrightarrow> undecided w \<Longrightarrow> undecided w'"
  by (auto simp: sc_frame_def sc_config_defs undecided_def split: option.splits)

lemma inv_call_sc:
  assumes "server_inv \<sigma> st m w" "sc_call \<sigma> w w'" "recv_keeps \<sigma> w w'" "send_keeps w w'"
  shows "server_inv \<sigma> st m w'"
  using assms mid_call [of \<sigma> st m w w'] frame_undecided [of w w'] by (simp add: server_inv_def)

text \<open>A change of the connection's part only.\<close>

lemma mid_owner:
  fixes v w :: "'a server_connection_scheme"
  assumes i: "server_mid \<sigma> st m w" and t: "tunnel.truncate v = tunnel.truncate w"
    and o: "owner_ok \<sigma> (tn_closed w) (tn_pending_seed_data w) v" and a: "sc_accepted v = sc_accepted w" "sc_consumed v = sc_consumed w"
    and k: "sc_kept v = st'"
  shows "server_mid \<sigma> st' m v"
proof -
  have "sc_ok \<sigma> v" by (rule sc_ok_owner [OF t _ o a(1)]) (use i in \<open>simp add: server_mid_def\<close>)
  moreover have "same_stream w v"
    using t by (simp add: same_stream_def quic_stream.truncate_def tunnel.truncate_def)
  moreover have "alarm_ok v = alarm_ok w" using t by (simp add: alarm_ok_def tunnel.truncate_def)
  ultimately show ?thesis using i a(2) k same_stream_inv [of w v] by (simp add: server_mid_def)
qed

lemma unaccepted_facts:
  assumes "server_mid \<sigma> st m w" "sc_accepted w = None"
  shows "\<not> tn_started w" "\<not> tn_closed w" "tn_read w = []" "owner_ok \<sigma> False (tn_pending_seed_data w) w" "tn_from_tcp w = []"
  using assms sc_ok_owner_ok [of \<sigma> w] inv_parts(1) [OF mid_tunnel [OF assms(1)]]
  by (auto simp: server_mid_def sc_ok_def bytes_ok_def)

section \<open>Authentication\<close>

text \<open>After a read the bytes are counted; the buffer does not hold them yet.\<close>

lemma read_unaccepted:
  fixes v w x :: "'a server_connection_scheme"
  assumes i: "server_mid \<sigma> st m w" and a: "sc_accepted w = None"
    and r: "QuictunStream_Read sc_lost sc_gone 512 w = (data, fin, v)"
  shows "tunnel.truncate x = tunnel.truncate v \<Longrightarrow> sc_accepted x = None \<Longrightarrow> sc_consumed x = sc_consumed w + length data \<Longrightarrow>
      sc_kept x = sc_kept v \<Longrightarrow> owner_ok \<sigma> False (tn_pending_seed_data w) x \<Longrightarrow> server_mid \<sigma> st m x"
    "sc_frame w v" "owner_ok \<sigma> False (tn_pending_seed_data w) v"
    "buf = map \<sigma> [0..<sc_consumed w] \<Longrightarrow> buf @ data = map \<sigma> [0..<sc_consumed w + length data]"
proof -
  note u = unaccepted_facts [OF i a]
  have rec: "recv_inv \<sigma> (sc_consumed w) m w" using i by (simp add: server_mid_def)
  then have ok: "recv_ok \<sigma> (max m (sc_consumed w)) w" using u by (simp add: recv_inv_def)
  from ok r obtain b where b: "sc_call \<sigma> (w\<lparr>sq_buffer := b\<rparr>) v" "send_keeps w v"
    "recv_ok \<sigma> (total_bytes_read (sq_buffer w) + length data) v"
    "data = map \<sigma> [total_bytes_read (sq_buffer w)..<total_bytes_read (sq_buffer w) + length data]"
    "reading_stopped w \<longrightarrow> data = [] \<and> reading_stopped v"
    "\<not> reading_stopped v \<longrightarrow> total_bytes_read (sq_buffer v) = total_bytes_read (sq_buffer w) + length data"
    by (rule sc.Read_takes) simp_all
  have tot: "\<not> reading_stopped w \<longrightarrow> total_bytes_read (sq_buffer w) = sc_consumed w" using rec u by (simp add: recv_inv_def)
  have "sc_call \<sigma> w (w\<lparr>sq_buffer := b\<rparr>)" by (rule sc_call_stream) (simp add: stream_only_def)
  then have c: "sc_ok \<sigma> v" "sc_frame w v" using sc.C_trans [OF _ b(1)] i by (auto simp: sc_call_def server_mid_def)
  show "sc_frame w v" by (fact c(2))
  have k: "tn_read v = []" "tn_from_tcp v = tn_from_tcp w" "sc_accepted v = None" "tn_pending_seed_data v = tn_pending_seed_data w"
    "sc_kept v = st"
    using c(2) u(3) a i by (simp_all add: sc_frame_def kept_by_close_def sc_config_def server_mid_def)
  have nc: "\<not> tn_closed v" using c(1) k(3) by (simp add: sc_ok_def)
  show "owner_ok \<sigma> False (tn_pending_seed_data w) v" using sc_ok_owner_ok [OF c(1)] nc k(4) by simp
  have d: "data = map \<sigma> [sc_consumed w..<sc_consumed w + length data]" using b(4,5) tot by (cases "reading_stopped w") auto
  show "buf @ data = map \<sigma> [0..<sc_consumed w + length data]" if "buf = map \<sigma> [0..<sc_consumed w]"
    using d that upt_add_eq_append [of 0 "sc_consumed w" "length data"] by (metis le0 map_append)
  have "recv_ok \<sigma> (max m (sc_consumed w + length data)) v"
    using b(3,5) ok tot by (cases "reading_stopped w") (auto simp: recv_ok_def)
  then have rv: "recv_inv \<sigma> (sc_consumed w + length data) m v"
    using b(5,6) tot k(1) by (auto simp: recv_inv_def)
  have sv: "send_inv [] v" using send_inv_keeps [OF _ b(2) k(2)] i by (simp add: server_mid_def)
  have av: "alarm_ok v" using same_tunnel_part [of v w] c(2) nc u(2) i by (auto simp: sc_frame_def alarm_ok_def server_mid_def)
  assume x: "tunnel.truncate x = tunnel.truncate v" "sc_accepted x = None" "sc_consumed x = sc_consumed w + length data"
    "sc_kept x = sc_kept v" "owner_ok \<sigma> False (tn_pending_seed_data w) x"
  have "tunnel_ok (server_owner \<sigma> (sc_config x)) x"
    by (rule tunnel_ok_owner [OF x(1)]) (use c(1) x(5) k nc in \<open>auto simp: sc_ok_def server_owner_iff\<close>)
  moreover have "\<not> tn_started v" "tn_from_tcp v = []" using c(1) k(3) by (simp_all add: sc_ok_def)
  ultimately have "sc_ok \<sigma> x" using nc x(1) ok_truncate(9,11,12) [of x] by (simp add: sc_ok_def ok_truncate)
  moreover have "same_stream v x"
    using x(1) by (simp add: same_stream_def quic_stream.truncate_def tunnel.truncate_def)
  moreover have "alarm_ok x = alarm_ok v" using x(1) by (simp add: alarm_ok_def tunnel.truncate_def)
  ultimately show "server_mid \<sigma> st m x" using rv sv av x(3,4) k(5) same_stream_inv [of v x] by (simp add: server_mid_def)
qed

lemma prepare_target_eq:
  assumes "sc_transparent w = (dest \<noteq> None)" "sc_transparent w = (sc_target_address w = None)"
  shows "prepare_target leftover dest w = w
    \<lparr>sk_open := False, sk_receive_max_size := None, sk_send_data := None, sk_send_remaining := [], sk_armed_read := False,
     sk_armed_write := False, sk_written := [],
     tn_has_socket := True, tn_has_on_closed := True, tn_pending_seed_data := leftover,
     tn_pending_to_tcp := [], tn_send_in_flight := False, tn_receive_in_flight := False,
     tn_tcp_receive_done := False, tn_flush_close_alarm := None, tn_send_done_time := 0,
     tn_quic_receive_done := False, tn_closed := False, tn_started := False, tn_stalled := False,
     tn_socket_disconnected := False, tn_seed := [], tn_read := [], tn_to_socket := [], tn_from_tcp := [],
     tn_close_count := 0,
     sc_stream_targets := (sc_stream_targets w)(sc_id w \<mapsto>
       \<lparr>tg_address = (if sc_transparent w then dest else sc_target_address w), tg_tunnel = tn_id w,
        tg_socket_disconnected = False\<rparr>),
     sc_delegates := (sc_delegates w)(sc_id w \<mapsto> ToTunnel)\<rparr>"
proof -
  have n: "sc_transparent (QuictunTunnel_new i b w) = sc_transparent w"
    "sc_target_address (QuictunTunnel_new i b w) = sc_target_address w"
    "tn_has_socket (QuictunTunnel_new i b w) = b" "tn_id (QuictunTunnel_new i b w) = i"
    "sc_stream_targets (QuictunTunnel_new i b w) = sc_stream_targets w" "sc_delegates (QuictunTunnel_new i b w) = sc_delegates w"
    for i b by (simp_all add: QuictunTunnel_new_def)
  have "prepare_target leftover dest w = (QuictunTunnel_new (tn_id w) False w)
    \<lparr>tn_pending_seed_data := leftover,
     sk_open := False, sk_receive_max_size := None, sk_send_data := None, sk_send_remaining := [], sk_armed_read := False,
     sk_armed_write := False, sk_written := [], tn_has_socket := True,
     sc_stream_targets := (sc_stream_targets w)(sc_id w \<mapsto>
       \<lparr>tg_address = (if sc_transparent w then dest else sc_target_address w), tg_tunnel = tn_id w,
        tg_socket_disconnected = False\<rparr>),
     sc_delegates := (sc_delegates w)(sc_id w \<mapsto> ToTunnel)\<rparr>"
    using assms
    by (simp add: prepare_target_def QuictunTunnel_SetPendingSeedData_def dcheck_def QuictunTunnel_SetSocket_def no_socket_def
        SetStreamDelegate_def Let_def n)
  then show ?thesis unfolding QuictunTunnel_new_def by simp
qed

lemma prepare_target_inv:
  fixes w :: "'a server_connection_scheme"
  assumes i: "server_mid \<sigma> st m w" and a: "sc_accepted w = None" and b: "sc_key_read_buffers w (sc_id w) = None"
    and buf: "map \<sigma> [0..<sc_consumed w] = client_preamble (sc_expected_psk w) dest @ leftover"
    and key: "key_ok (sc_expected_psk w) (sc_transparent w) dest"
  defines "y \<equiv> prepare_target leftover dest (w\<lparr>sc_accepted := Some dest\<rparr>)"
  shows "tunnel_inv (server_owner \<sigma> (sc_config (w\<lparr>sc_accepted := Some dest\<rparr>))) \<sigma> (sc_consumed w) m [] True (y\<lparr>sk_open := s\<rparr>)"
    "can_start (y\<lparr>sk_open := True\<rparr>)" "sk_open y = False"
proof -
  note u = unaccepted_facts [OF i a]
  note p = inv_parts [OF mid_tunnel [OF i]]
  have tr: "sc_transparent w = (dest \<noteq> None)" "sc_transparent w = (sc_target_address w = None)"
    using key u(4) by (auto simp: key_ok_def owner_ok_def split: option.splits)
  have y: "y = prepare_target leftover dest (w\<lparr>sc_accepted := Some dest\<rparr>)" by (simp add: y_def)
  let ?v = "w\<lparr>sc_accepted := Some dest\<rparr>"
  have v: "sc_transparent ?v = (dest \<noteq> None)" "sc_transparent ?v = (sc_target_address ?v = None)" using tr by simp_all
  note defs = y [unfolded prepare_target_eq [OF v]]
  let ?y = "y\<lparr>sk_open := s\<rparr>"
  show "can_start (y\<lparr>sk_open := True\<rparr>)" "sk_open y = False" by (simp_all add: can_start_def defs)
  have o: "owner_ok \<sigma> False leftover y" "sc_config y = sc_config (w\<lparr>sc_accepted := Some dest\<rparr>)"
    using u(4) b buf key tr by (simp_all add: defs owner_ok_def unread_def routed_def sc_config_defs)
  have f: "tn_closed ?y = False" "tn_pending_seed_data ?y = leftover" "tn_close_count ?y = 0" "tn_has_on_closed ?y"
    by (simp_all add: defs)
  have "tunnel_ok (server_owner \<sigma> (sc_config (w\<lparr>sc_accepted := Some dest\<rparr>))) ?y"
  proof (rule tunnel_okI)
    show "closing_ok (server_owner \<sigma> (sc_config (w\<lparr>sc_accepted := Some dest\<rparr>))) ?y"
      using o f by (simp add: closing_ok_def server_owner_iff)
    show "tracking_ok ?y" using p(4) u(1) tr by (simp add: tracking_ok_def defs)
    show "socket_ok ?y" using p(3) tr by (simp add: socket_ok_def defs)
  qed (use tr in \<open>simp_all add: defs bytes_ok_def queue_ok_def exact_ok_def\<close>)
  moreover have "same_stream w ?y" using u(3,5) tr by (simp add: same_stream_def quic_stream.truncate_def defs)
  moreover have "alarm_ok ?y" using tr by (simp add: alarm_ok_def defs)
  ultimately show "tunnel_inv (server_owner \<sigma> (sc_config (w\<lparr>sc_accepted := Some dest\<rparr>))) \<sigma> (sc_consumed w) m [] True ?y"
    using i same_stream_inv [of w ?y] by (simp add: tunnel_inv_def server_mid_def)
qed

lemma connecting_inv:
  fixes w :: "'a server_connection_scheme"
  assumes i: "tunnel_inv (server_owner \<sigma> cfg) \<sigma> k m pre q w"
  shows "tunnel_inv (server_owner \<sigma> cfg) \<sigma> k m pre q (w\<lparr>sc_connecting := c\<rparr>)"
    "tunnel_inv (server_owner \<sigma> cfg) \<sigma> k m pre q (w\<lparr>sk_armed_write := b\<rparr>)"
proof -
  have ok: "tunnel_ok (server_owner \<sigma> cfg) w" using i by (simp add: tunnel_inv_def)
  then have "owner_ok \<sigma> (tn_closed w) (tn_pending_seed_data w) w" "sc_config w = cfg"
    by (simp_all add: tunnel_ok_def tunnel_core_def closing_ok_def server_owner_iff)
  then have "owner_ok \<sigma> (tn_closed w) (tn_pending_seed_data w) (w\<lparr>sc_connecting := c\<rparr>)" "sc_config (w\<lparr>sc_connecting := c\<rparr>) = cfg"
    by (auto simp: owner_ok_def unread_def routed_def sc_config_defs split: option.splits)
  then have "tunnel_ok (server_owner \<sigma> cfg) (w\<lparr>sc_connecting := c\<rparr>)"
    by (intro tunnel_ok_owner [OF _ ok]) (simp_all add: server_owner_iff tunnel.truncate_def)
  then show "tunnel_inv (server_owner \<sigma> cfg) \<sigma> k m pre q (w\<lparr>sc_connecting := c\<rparr>)"
    by (rule inv_own [OF i, rotated 2]) (simp_all add: same_stream_def same_alarm_def quic_stream.truncate_def)
  let ?a = "w\<lparr>sk_armed_write := b\<rparr>"
  have "bytes_ok ?a = bytes_ok w" "queue_ok ?a = queue_ok w" "socket_ok ?a = socket_ok w" "tracking_ok ?a = tracking_ok w"
    "closing_ok (server_owner \<sigma> cfg) ?a = closing_ok (server_owner \<sigma> cfg) w" "exact_ok ?a = exact_ok w"
    by (simp_all add: bytes_ok_def queue_ok_def socket_ok_def tracking_ok_def closing_ok_def exact_ok_def)
  then have "tunnel_ok (server_owner \<sigma> cfg) ?a" using ok by (simp add: tunnel_ok_def tunnel_core_def)
  then show "tunnel_inv (server_owner \<sigma> cfg) \<sigma> k m pre q (w\<lparr>sk_armed_write := b\<rparr>)"
    by (rule inv_own [OF i, rotated 2]) (simp_all add: same_stream_def same_alarm_def quic_stream.truncate_def)
qed

lemma ConnectComplete_failed:
  "QuictunTunnel_ConnectComplete rs ss oc False w = QuictunTunnel_ConnectComplete [] [] oc False w"
  by (cases "tn_closed w") (simp_all add: QuictunTunnel_ConnectComplete_def)

lemma connect_async_inv:
  fixes y :: "'a server_connection_scheme"
  assumes y: "\<And>s. tunnel_inv (server_owner \<sigma> cfg) \<sigma> k m [] True (y\<lparr>sk_open := s\<rparr>)" "can_start (y\<lparr>sk_open := True\<rparr>)"
  shows "tunnel_inv (server_owner \<sigma> cfg) \<sigma> k m [] True
     (EventLoopConnectingClientSocket_ConnectAsync (QuictunTunnel_ConnectComplete rs ss server_on_closed) opened r (y\<lparr>sk_open := False\<rparr>))"
proof -
  let ?I = "tunnel_inv (server_owner \<sigma> cfg) \<sigma> k m [] True" and ?cc = "QuictunTunnel_ConnectComplete rs ss server_on_closed"
  have cs: "can_start (y\<lparr>sk_open := True, sc_connecting := c\<rparr>)" for c using y(2) by (simp add: can_start_def)
  have "?I (tunnel_step server_on_closed TargetFailed (y\<lparr>sk_open := True\<rparr>))" by (rule srv.owner_event_inv(4) [OF y])
  then have f0: "?I (?cc False (y\<lparr>sk_open := False\<rparr>))" by (simp add: ConnectComplete_failed [of rs ss])
  have "?I (tunnel_step server_on_closed TargetFailed (y\<lparr>sk_open := True, sc_connecting := False\<rparr>))"
    by (rule srv.owner_event_inv(4) [OF connecting_inv(1) [OF y(1)] cs])
  moreover have "y\<lparr>sc_connecting := c, sk_open := s\<rparr> = y\<lparr>sk_open := s, sc_connecting := c\<rparr>" for c s by (cases y) simp
  ultimately have f1: "?I (?cc False (y\<lparr>sk_open := False, sc_connecting := False\<rparr>))"
    by (simp add: ConnectComplete_failed [of rs ss])
  have "?I (tunnel_step server_on_closed (TargetConnected rs ss) (y\<lparr>sk_open := True, sc_connecting := False\<rparr>))"
    by (rule srv.owner_event_inv(3) [OF connecting_inv(1) [OF y(1)] cs])
  then have c: "?I (?cc True (y\<lparr>sk_open := True, sc_connecting := False\<rparr>))" by simp
  show ?thesis
    unfolding EventLoopConnectingClientSocket_ConnectAsync_def EventLoopConnectingClientSocket_FinishOrRearmAsyncConnect_def
      EventLoopConnectingClientSocket_DoInitialConnect_def
    using f0 f1 c connecting_inv(1) [OF y(1), of True True] connecting_inv(2) [OF connecting_inv(1) [OF y(1), of True True], of True]
    by (cases r) simp_all
qed

lemma StartTunnel_inv:
  fixes w :: "'a server_connection_scheme"
  assumes i: "server_mid \<sigma> st m w" and a: "sc_accepted w = None" and b: "sc_key_read_buffers w (sc_id w) = None"
    and buf: "map \<sigma> [0..<sc_consumed w] = client_preamble (sc_expected_psk w) dest @ leftover"
    and key: "key_ok (sc_expected_psk w) (sc_transparent w) dest"
  shows "server_inv \<sigma> st m (StartTunnelForStream dl leftover dest (w\<lparr>sc_accepted := Some dest\<rparr>))"
proof -
  note y = prepare_target_inv [OF i a b buf key]
  have c: "sc_config (w\<lparr>sc_accepted := Some dest\<rparr>) =
      (st, Some dest, sc_consumed w, sc_closed w)"
    using i by (simp add: sc_config_defs server_mid_def)
  have "(prepare_target leftover dest (w\<lparr>sc_accepted := Some dest\<rparr>))\<lparr>sk_open := False\<rparr> =
      prepare_target leftover dest (w\<lparr>sc_accepted := Some dest\<rparr>)" using y(3) by simp
  then show ?thesis
    using tunnel_mid(1) [OF connect_async_inv [OF y(1,2)] c, of "dl_recv dl" "dl_send dl" "dl_opened dl" "dl_connect dl"]
    by (simp add: StartTunnelForStream_def)
qed

end
