(* ===== verification/Server_Events.thy ===== *)
theory Server_Events
  imports Server_Safety
begin

text \<open>
  The loop that authenticates a stream, and the server connection as a state machine: its
  stream, socket, packet and clock events, its own close, and what the states it can reach
  keep.
\<close>

section \<open>Events\<close>

text \<open>\<open>OfTunnel\<close> are the alarm, the sweep of idle tunnels, the clock and the other tunnels of the process.
  \<open>OtherStream\<close> is whatever the other streams of the connection do to the maps, each under its own
  identifier, and to the flow control of the session.  \<open>ServerCloses\<close> is the close of the connection by
  its owner, and what follows when the connection is lost; the list are the streams with a target.\<close>

datatype server_event =
    ServerFrame nat bytes bool dial
  | ServerStopSending QuicRstStreamErrorCode
  | ServerReset QuicRstStreamErrorCode nat
  | ServerMaxStreamData nat
  | ServerMaxData nat
  | ServerWriteReady "recv_result list"
  | ServerAcked nat nat bool
  | ServerLost nat nat bool
  | ServerWrites "write_outcome list"
  | ServerGone QuicErrorCode
  | ServerTarget bool bool target_answers
  | OfTunnel tunnel_event
  | OtherStream QuicStreamId "stream_delegate option" "bytes option" "stream_target option" flow_controller
  | GarbageAlarm
  | ServerCloses "QuicStreamId list"

definition server_available :: "dial \<Rightarrow> 'a sc_handler" where
  "server_available dl = QuictunStream_OnDataAvailable (QuictunSessionBase_OnStreamDataAvailable dl)"

definition server_can_write :: "recv_result list \<Rightarrow> 'a sc_handler" where
  "server_can_write rs = QuictunStream_OnCanWriteNewData (QuictunSessionBase_OnStreamCanWriteMore rs)"

fun server_step :: "server_event \<Rightarrow> 'a sc_handler" where
  "server_step (ServerFrame off data fin dl) w = QuicStream_OnStreamFrame sc_lost sc_gone (server_available dl) off data fin w"
| "server_step (ServerStopSending err) w = QuicStream_OnStopSending sc_lost sc_gone err w"
| "server_step (ServerReset err off) w = QuicStream_OnStreamReset sc_lost sc_gone err off w"
| "server_step (ServerMaxStreamData n) w = QuicStream_OnWindowUpdateFrame n w"
| "server_step (ServerMaxData n) w = w\<lparr>cn_flow := snd (QuicFlowController_UpdateSendWindowOffset n (cn_flow w))\<rparr>"
| "server_step (ServerWriteReady rs) w = QuicStream_OnCanWrite sc_lost sc_gone (server_can_write rs) w"
| "server_step (ServerAcked off len fin) w = snd (QuicStream_OnStreamFrameAcked sc_lost off len fin w)"
| "server_step (ServerLost off len fin) w = QuicStream_OnStreamFrameLost off len fin w"
| "server_step (ServerWrites outs) w = w\<lparr>cn_outcomes := outs\<rparr>"
| "server_step (ServerGone code) w = sc_lost code w"
| "server_step (ServerTarget readable writable a) w = EventLoopConnectingClientSocket_OnSocketEvent readable writable a w"
| "server_step (OfTunnel e) w = tunnel_step server_on_closed e w"
| "server_step (OtherStream i d b t fc) w =
     w\<lparr>cn_flow := fc, sc_delegates := (sc_delegates w)(i := d), sc_key_read_buffers := (sc_key_read_buffers w)(i := b),
       sc_stream_targets := (sc_stream_targets w)(i := t)\<rparr>"
| "server_step GarbageAlarm w = CollectStreamGarbage w"
| "server_step (ServerCloses ids) w = QuictunServerConnection_Close ids w"

fun shared_event :: "tunnel_event \<Rightarrow> bool" where
  "shared_event (Clock t) = True"
| "shared_event (OtherTunnelActive i stalled) = True"
| "shared_event (OtherTunnelClosed i) = True"
| "shared_event _ = False"

fun own_event :: "tunnel_event \<Rightarrow> bool" where
  "own_event FlushAlarm = True"
| "own_event IdleSweep = True"
| "own_event _ = False"

text \<open>An event of the descriptor comes while the connect is pending, or once the tunnel is started.\<close>

fun server_event_ok :: "(nat \<Rightarrow> byte) \<Rightarrow> server_event \<Rightarrow> 'a server_connection_scheme \<Rightarrow> bool" where
  "server_event_ok \<sigma> (ServerFrame off data fin dl) w \<longleftrightarrow> cn_connected w \<and> frame_of \<sigma> off data"
| "server_event_ok \<sigma> (ServerAcked off len fin) w \<longleftrightarrow> off + len \<le> stream_bytes_written (st_send w)"
| "server_event_ok \<sigma> (ServerLost off len fin) w \<longleftrightarrow> off + len \<le> stream_bytes_written (st_send w)"
| "server_event_ok \<sigma> (ServerTarget readable writable a) w \<longleftrightarrow>
     sc_accepted w \<noteq> None \<and> (if sc_connecting w then writable \<and> can_start w else tn_started w \<and> sk_open w)"
| "server_event_ok \<sigma> (OfTunnel e) w \<longleftrightarrow>
     (shared_event e \<or> own_event e \<and> sc_accepted w \<noteq> None) \<and> event_ok \<sigma> e w"
| "server_event_ok \<sigma> (OtherStream i d b t fc) w \<longleftrightarrow> i \<noteq> sc_id w"
| "server_event_ok \<sigma> (ServerCloses ids) w \<longleftrightarrow> (sc_stream_targets w (sc_id w) \<noteq> None \<longrightarrow> sc_id w \<in> set ids)"
| "server_event_ok \<sigma> _ w \<longleftrightarrow> True"

inductive server_reach ::
    "(nat \<Rightarrow> byte) \<Rightarrow> 'a server_connection_scheme \<Rightarrow> 'a server_connection_scheme \<Rightarrow> bool" for \<sigma> w0 where
  start: "server_reach \<sigma> w0 w0"
| step: "server_reach \<sigma> w0 w \<Longrightarrow> server_event_ok \<sigma> e w \<Longrightarrow> server_reach \<sigma> w0 (server_step e w)"

section \<open>The loop ends\<close>

lemma header_incomplete: "ParseQuictunTransparentHeader buf = kIncomplete \<Longrightarrow> length buf < 19"
  by (auto simp: ParseQuictunTransparentHeader_def Let_def split: if_splits option.splits)

lemma pending_length: "check_preamble psk t buf = AuthPending \<Longrightarrow> length buf < max_preamble"
proof -
  assume p: "check_preamble psk t buf = AuthPending"
  let ?n = "rd16 (buf ! 0) (buf ! 1)"
  have n: "?n < 65536" by (rule rd16_less)
  show ?thesis
  proof (cases "length buf < 2 + ?n")
    case True
    with n show ?thesis by (simp add: max_preamble_def)
  next
    case False
    then have "ParseQuictunTransparentHeader (drop (2 + ?n) buf) = kIncomplete"
      using p by (auto simp: check_preamble_def Let_def split: if_splits parsed_transparent_header.splits)
    from header_incomplete [OF this] n show ?thesis by (simp add: max_preamble_def)
  qed
qed

lemma erase_mid:
  assumes i: "server_mid \<sigma> st m w"
  shows "server_inv \<sigma> st m (erase_key_read_buffer w)"
proof -
  have "server_mid \<sigma> st m (erase_key_read_buffer w)"
    by (rule mid_owner [OF i]) (use sc_ok_owner_ok [of \<sigma> w] i in
      \<open>auto simp: server_mid_def erase_key_read_buffer_def tunnel.truncate_def owner_ok_def unread_def routed_def sc_config_defs
        split: option.splits\<close>)
  then show ?thesis by (simp add: server_inv_def undecided_def erase_key_read_buffer_def)
qed

lemma auth_decide_inv:
  fixes w :: "'a server_connection_scheme"
  assumes i: "server_mid \<sigma> st m w" and a: "sc_accepted w = None" and b: "sc_key_read_buffers w (sc_id w) = Some buf"
    and buf: "buf = map \<sigma> [0..<sc_consumed w]" and r: "auth_decide dl data fin (check_preamble (sc_expected_psk w) (sc_transparent w) buf) w = (u, again)"
  shows "server_inv \<sigma> st m u" "again \<Longrightarrow> data \<noteq> [] \<and> u = w"
proof -
  let ?r = "QuicStream_Reset sc_lost sc_gone QUIC_BAD_APPLICATION_PAYLOAD w"
  have "sc_call \<sigma> w ?r \<and> recv_keeps \<sigma> w ?r \<and> send_keeps w ?r"
    by (rule stream_effects.R_Reset [OF stream_writes.axioms(1) [OF sc.calls]])
  then have reset: "server_inv \<sigma> st m (erase_key_read_buffer ?r)" using erase_mid mid_call(1) [OF i] by blast
  have start: "server_inv \<sigma> st m (StartTunnelForStream dl leftover dest ((erase_key_read_buffer w)\<lparr>sc_accepted := Some dest\<rparr>))"
    if c: "check_preamble (sc_expected_psk w) (sc_transparent w) buf = AuthAccept dest leftover" for dest leftover
  proof (rule StartTunnel_inv)
    show "server_mid \<sigma> st m (erase_key_read_buffer w)" using erase_mid [OF i] by (simp add: server_inv_def)
  qed (use check_accepts [OF c] a buf in \<open>simp_all add: erase_key_read_buffer_def\<close>)
  have pending: "server_inv \<sigma> st m w" if "check_preamble (sc_expected_psk w) (sc_transparent w) buf = AuthPending"
    using i b that by (simp add: server_inv_def undecided_def)
  show "server_inv \<sigma> st m u" "again \<Longrightarrow> data \<noteq> [] \<and> u = w"
    using r reset start pending erase_mid [OF i] by (cases "check_preamble (sc_expected_psk w) (sc_transparent w) buf"; auto split: if_splits)+
qed

lemma auth_round_inv:
  fixes w :: "'a server_connection_scheme"
  assumes i: "server_mid \<sigma> st m w" and b: "sc_key_read_buffers w (sc_id w) = Some buf" and r: "auth_round dl w = (u, again)"
  shows "server_inv \<sigma> st m u \<and> (again \<longrightarrow> (\<exists>buf'. sc_key_read_buffers u (sc_id u) = Some buf' \<and> length buf < length buf'))"
proof -
  have o: "owner_ok \<sigma> (tn_closed w) (tn_pending_seed_data w) w" using i sc_ok_owner_ok by (auto simp: server_mid_def)
  then have a: "sc_accepted w = None" and buf: "buf = map \<sigma> [0..<sc_consumed w]" using b by (auto simp: owner_ok_def unread_def)
  obtain data fin v where rd: "QuictunStream_Read sc_lost sc_gone 512 w = (data, fin, v)" by (metis prod_cases3)
  note read = read_unaccepted [OF i a rd]
  have f: "sc_accepted v = None" "sc_id v = sc_id w" "sc_consumed v = sc_consumed w"
    "sc_key_read_buffers v (sc_id w) = Some buf \<or> sc_key_read_buffers v (sc_id w) = None"
    using read(2) a b by (auto simp: sc_frame_def sc_config_defs)
  show ?thesis
  proof (cases "sc_key_read_buffers v (sc_id w)")
    case None
    define x where "x = v\<lparr>sc_consumed := sc_consumed v + length data, sc_dangling := True\<rparr>"
    have "server_mid \<sigma> st m x"
      by (rule read(1)) (use read(3) f None in \<open>auto simp: x_def tunnel.truncate_def owner_ok_def unread_def routed_def sc_config_defs\<close>)
    moreover have "u = x" "\<not> again" using r None f by (simp_all add: auth_round_def rd Let_def x_def)
    ultimately show ?thesis using None f by (simp add: server_inv_def undecided_def x_def)
  next
    case (Some buf0)
    define x where "x = v\<lparr>sc_consumed := sc_consumed v + length data,
      sc_key_read_buffers := (sc_key_read_buffers v)(sc_id v \<mapsto> buf @ data)\<rparr>"
    have "sc_kept x = sc_kept v" by (simp add: x_def sc_config_defs)
    moreover have t: "tunnel.truncate x = tunnel.truncate v" "sc_accepted x = None" "sc_consumed x = sc_consumed w + length data"
        "sc_key_read_buffers x (sc_id x) = Some (buf @ data)"
      using f by (simp_all add: x_def tunnel.truncate_def)
    moreover have "owner_ok \<sigma> False (tn_pending_seed_data w) x"
      using read(3) read(4) [OF buf] f(1,3) by (simp add: x_def owner_ok_def unread_def routed_def)
    ultimately have x: "server_mid \<sigma> st m x" using read(1) by blast
    have "sc_key_read_buffers v (sc_id v) = Some buf" using Some f(2,4) by simp
    then have "auth_decide dl data fin (check_preamble (sc_expected_psk x) (sc_transparent x) (buf @ data)) x = (u, again)"
      using r by (simp add: auth_round_def rd x_def)
    note d = auth_decide_inv [OF x t(2,4) read(4) [OF buf, folded t(3)] this]
    have "length buf < length (buf @ data)" if again using d(2) [OF that] by simp
    then show ?thesis using d t(4) by metis
  qed
qed

lemma auth_rounds_inv:
  fixes w :: "'a server_connection_scheme"
  assumes "server_mid \<sigma> st m w" "sc_key_read_buffers w (sc_id w) = Some buf" "max_preamble \<le> fuel + length buf" "0 < fuel"
  shows "server_inv \<sigma> st m (auth_rounds fuel dl w)"
  using assms
proof (induction fuel arbitrary: w buf)
  case (Suc fuel)
  obtain u again where r: "auth_round dl w = (u, again)" by fastforce
  note round = auth_round_inv [OF Suc.prems(1,2) r]
  show ?case
  proof (cases again)
    case True
    with round obtain buf' where b: "sc_key_read_buffers u (sc_id u) = Some buf'" "length buf < length buf'" by blast
    have u: "server_mid \<sigma> st m u" "check_preamble (sc_expected_psk u) (sc_transparent u) buf' = AuthPending"
      using round b by (simp_all add: server_inv_def undecided_def)
    have "server_inv \<sigma> st m (auth_rounds fuel dl u)"
      by (rule Suc.IH [OF u(1) b(1)]) (use Suc.prems(3) b(2) pending_length [OF u(2)] in auto)
    then show ?thesis using r True by (simp add: auth_rounds.simps)
  next
    case False
    then show ?thesis using r round by (simp add: auth_rounds.simps)
  qed
qed simp

section \<open>Every event keeps the invariant\<close>

text \<open>What the tunnel's own lemmas give, once the stream is authenticated.\<close>

lemma accepted_inv:
  fixes w w' :: "'a server_connection_scheme"
  assumes i: "server_inv \<sigma> st m w" and a: "sc_accepted w \<noteq> None"
    and t: "\<And>P. tunnel_owner server_on_closed P \<Longrightarrow> P = server_owner \<sigma> (sc_config w) \<Longrightarrow>
      tunnel_inv P \<sigma> (sc_consumed w) m [] True w \<Longrightarrow> tunnel_inv P \<sigma> (sc_consumed w) m [] True w'"
  shows "server_inv \<sigma> st m w'" "sc_config w' = sc_config w"
proof -
  obtain dest where d: "sc_accepted w = Some dest" using a by blast
  have mid: "server_mid \<sigma> st m w" using i by (simp add: server_inv_def)
  have c: "sc_config w = (st, Some dest, sc_consumed w, sc_closed w)" using d mid by (simp add: sc_config_def server_mid_def)
  have w': "tunnel_inv (server_owner \<sigma> (sc_config w)) \<sigma> (sc_consumed w) m [] True w'"
    by (rule t [OF srv.tunnel_owner_axioms refl mid_tunnel [OF mid]])
  show "server_inv \<sigma> st m w'" "sc_config w' = sc_config w" using tunnel_mid [OF w' c] .
qed

lemma routed_tunnel:
  assumes "server_inv \<sigma> st m w" "sc_delegates w (sc_id w) = Some ToTunnel \<or> sc_stream_targets w (sc_id w) \<noteq> None"
  shows "sc_accepted w \<noteq> None"
  using assms sc_ok_owner_ok [of \<sigma> w]
  by (auto simp: server_inv_def server_mid_def owner_ok_def routed_def split: option.splits)

lemma server_available_inv: "server_inv \<sigma> st m w \<Longrightarrow> server_inv \<sigma> st m (server_available dl w)"
proof -
  assume i: "server_inv \<sigma> st m w"
  then have "server_mid \<sigma> st m w" by (simp add: server_inv_def)
  then have auth: "server_inv \<sigma> st m (auth_rounds max_preamble dl w)" if "sc_key_read_buffers w (sc_id w) \<noteq> None"
    using that auth_rounds_inv [of \<sigma> st m w _ max_preamble dl] by (auto simp: max_preamble_def)
  have tun: "server_inv \<sigma> st m (data_available (dl_send dl) server_on_closed w)" if "sc_delegates w (sc_id w) = Some ToTunnel"
    by (rule accepted_inv(1) [OF i routed_tunnel [OF i]]) (use that tunnel_owner.data_available_inv in auto)
  show ?thesis
    using i auth tun
    by (auto simp: server_available_def QuictunStream_OnDataAvailable_def QuictunSessionBase_OnStreamDataAvailable_def
        QuictunServerConnection_OnStreamDataAvailable_def data_available_def split: option.split stream_delegate.split)
qed

lemma server_can_write_inv: "server_inv \<sigma> st m w \<Longrightarrow> server_inv \<sigma> st m (server_can_write rs w)"
proof -
  assume i: "server_inv \<sigma> st m w"
  have tun: "server_inv \<sigma> st m (can_write_more rs server_on_closed w)" if "sc_delegates w (sc_id w) = Some ToTunnel"
    by (rule accepted_inv(1) [OF i routed_tunnel [OF i]]) (use that tunnel_owner.can_write_more_inv in auto)
  show ?thesis
    using i tun
    by (auto simp: server_can_write_def QuictunStream_OnCanWriteNewData_def QuictunSessionBase_OnStreamCanWriteMore_def
        can_write_more_def split: option.split stream_delegate.split)
qed

interpretation sci: stream_invariant "sc_call \<sigma>" sc_gone "server_inv \<sigma> st" \<sigma> "server_available dl" "server_can_write rs"
  for \<sigma> st dl rs
proof unfold_locales
  fix m n and w w' :: "'a server_connection_scheme"
  show "server_inv \<sigma> st m w'"
    if "server_inv \<sigma> st m w" "sc_call \<sigma> w w'" "recv_keeps \<sigma> w w'" "send_keeps w w'"
    using inv_call_sc [OF that] .
  show "recv_ok \<sigma> m w" if "server_inv \<sigma> st m w"
    using that by (simp add: server_inv_def server_mid_def recv_inv_def recv_ok_def)
  show "separated_list (pending_retransmissions (st_send w))" if "server_inv \<sigma> st m w"
    using that by (auto simp: server_inv_def server_mid_def send_inv_def send_ok_def sb_ok_def wf_simps)
  show "server_inv \<sigma> st n w" if "server_inv \<sigma> st m w" "n \<le> total_bytes_read (sq_buffer w)"
    using that by (simp add: server_inv_def server_mid_def recv_inv_def recv_ok_def)
qed (rule server_available_inv server_can_write_inv, assumption)+

lemma owner_change_inv:
  fixes v w :: "'a server_connection_scheme"
  assumes i: "server_inv \<sigma> st m w" and t: "tunnel.truncate v = tunnel.truncate w"
    and f: "sc_id v = sc_id w" "sc_expected_psk v = sc_expected_psk w" "sc_transparent v = sc_transparent w"
      "sc_target_address v = sc_target_address w" "sc_accepted v = sc_accepted w" "sc_consumed v = sc_consumed w"
      "sc_key_read_buffers v (sc_id w) = sc_key_read_buffers w (sc_id w)"
      "sc_stream_targets v (sc_id w) = sc_stream_targets w (sc_id w)" "sc_delegates v (sc_id w) = sc_delegates w (sc_id w)"
  shows "server_inv \<sigma> (sc_kept v) m v"
proof -
  have "owner_ok \<sigma> (tn_closed w) (tn_pending_seed_data w) w" using i sc_ok_owner_ok by (auto simp: server_inv_def server_mid_def)
  then have "owner_ok \<sigma> (tn_closed w) (tn_pending_seed_data w) v"
    unfolding owner_ok_def unread_def routed_def f by simp
  then have "server_mid \<sigma> (sc_kept v) m v" using i by (intro mid_owner [of \<sigma> st m w, OF _ t]) (simp_all add: server_inv_def f)
  then show ?thesis using i unfolding server_inv_def undecided_def f by simp
qed

lemma target_event_inv:
  fixes w :: "'a server_connection_scheme"
  assumes i: "server_inv \<sigma> st m w" and e: "server_event_ok \<sigma> (ServerTarget readable writable a) w"
  shows "server_inv \<sigma> st m (server_step (ServerTarget readable writable a) w)"
proof (rule accepted_inv(1) [OF i])
  show "sc_accepted w \<noteq> None" using e by simp
  fix P :: "'a server_connection_ext owner_inv"
  assume P: "tunnel_owner server_on_closed P" "P = server_owner \<sigma> (sc_config w)"
    and t: "tunnel_inv P \<sigma> (sc_consumed w) m [] True w"
  let ?I = "tunnel_inv P \<sigma> (sc_consumed w) m [] True"
  show "?I (server_step (ServerTarget readable writable a) w)"
  proof (cases "sc_connecting w")
    case True
    let ?v = "w\<lparr>sc_connecting := False\<rparr>" and ?cc = "QuictunTunnel_ConnectComplete (ta_recv a) (ta_sends a) server_on_closed"
    have c: "?I ?v" using connecting_inv(1) t P(2) by blast
    have cs: "can_start ?v" "writable" using e True by (simp_all add: can_start_def)
    have ok: "?I (?cc True ?v)" using tunnel_owner.owner_event_inv(3) [OF P(1) c cs(1)] by simp
    have eq: "w\<lparr>sk_open := False, sc_connecting := False\<rparr> = ?v\<lparr>sk_open := False\<rparr>" by (cases w) simp
    have "?I (?cc False (w\<lparr>sk_open := False, sc_connecting := False\<rparr>))"
      unfolding eq using tunnel_owner.owner_event_inv(4) [OF P(1) c cs(1)] by (simp add: ConnectComplete_failed [of "ta_recv a"])
    with ok True cs(2) show ?thesis
      by (simp add: EventLoopConnectingClientSocket_OnSocketEvent_def EventLoopConnectingClientSocket_GetConnectResult_def
          EventLoopConnectingClientSocket_FinishOrRearmAsyncConnect_def)
  next
    case False
    then have "tn_started w" using e by simp
    from tunnel_owner.socket_event_inv [OF P(1) t this] False show ?thesis
      by (simp add: EventLoopConnectingClientSocket_OnSocketEvent_def)
  qed
qed

lemma of_tunnel_inv:
  fixes w :: "'a server_connection_scheme"
  assumes i: "server_inv \<sigma> st m w" and e: "server_event_ok \<sigma> (OfTunnel e) w"
  shows "server_inv \<sigma> st m (server_step (OfTunnel e) w)"
proof (cases "sc_accepted w = None")
  case False
  then show ?thesis by (rule accepted_inv(1) [OF i]) (use e tunnel_owner.step_inv in auto)
next
  case True
  let ?w = "tunnel_step server_on_closed e w"
  have sh: "shared_event e" and ok: "event_ok \<sigma> e w" using e True by simp_all
  have mid: "server_mid \<sigma> st m w" using i by (simp add: server_inv_def)
  have f: "tunnel.more ?w = tunnel.more w" "tn_started ?w = tn_started w" "tn_closed ?w = tn_closed w" "tn_from_tcp ?w = tn_from_tcp w"
    using sh by (auto elim: shared_event.elims)
  note g = same_owner [OF f(1)]
  have "undecided ?w = undecided w" unfolding undecided_def g by (rule refl)
  moreover have "tunnel_inv (server_owner \<sigma> (sc_config w)) \<sigma> (sc_consumed w) m [] True ?w" by (rule srv.step_inv [OF mid_tunnel [OF mid] ok])
  ultimately show ?thesis using i True f g by (simp add: server_inv_def server_mid_def sc_ok_def tunnel_inv_def)
qed

lemma close_tunnel_of_inv:
  fixes v w :: "'a server_connection_scheme"
  assumes i: "server_inv \<sigma> st m w" and v_def: "v = close_tunnel_of j w"
  shows "server_inv \<sigma> (sc_kept v) m v \<and> sc_static v = sc_static w \<and> sc_closed v = sc_closed w \<and>
    sc_has_on_closed v = sc_has_on_closed w \<and> sc_close_calls v = sc_close_calls w \<and>
    (j = sc_id w \<or> sc_stream_targets w (sc_id w) = None \<longrightarrow> sc_stream_targets v (sc_id w) = None)"
proof -
  consider (none) "v = w" "sc_stream_targets w j = None" | (own) "j = sc_id w" "sc_stream_targets w (sc_id w) \<noteq> None"
    | (other) "j \<noteq> sc_id w" "v = tunnel_closed_callback True j w"
    using v_def [unfolded close_tunnel_of_def] by (auto split: if_splits)
  then show ?thesis
  proof cases
    case none
    then show ?thesis using i by (auto simp: server_inv_def server_mid_def)
  next
    case own
    have acc: "sc_accepted w \<noteq> None" by (rule routed_tunnel [OF i]) (simp add: own)
    have nc: "\<not> tn_closed w" using i own sc_ok_owner_ok [of \<sigma> w] acc
      by (auto simp: server_inv_def server_mid_def owner_ok_def routed_def)
    have v: "v = QuictunTunnel_Close server_on_closed False w" using own nc by (auto simp: v_def close_tunnel_of_def)
    have c: "server_inv \<sigma> st m v" "sc_config v = sc_config w"
      unfolding v using accepted_inv [OF i acc] tunnel_owner.close_tunnel_inv(1) nc by blast+
    have core: "tunnel_core (server_owner \<sigma> (sc_config w)) w"
      using i by (simp add: server_inv_def server_mid_def sc_ok_def tunnel_ok_def)
    have "tn_closed v" unfolding v by (rule srv.close_ok(2) [OF core nc])
    then have "sc_stream_targets v (sc_id v) = None"
      using c acc sc_ok_owner_ok [of \<sigma> v] by (auto simp: server_inv_def server_mid_def owner_ok_def routed_def sc_config_def)
    then show ?thesis using c by (simp add: sc_config_defs server_inv_def server_mid_def)
  next
    case other
    have "server_inv \<sigma> (sc_kept v) m v"
      by (rule owner_change_inv [OF i]) (use other in \<open>auto simp: tunnel_closed_callback_def ClearStreamDelegate_def Let_def
        tunnel.truncate_def DisconnectStreamTarget_def split: option.split\<close>)
    then show ?thesis
      using other by (auto simp: tunnel_closed_callback_def ClearStreamDelegate_def Let_def sc_static_def split: option.split)
  qed
qed

lemma close_all_inv:
  fixes v w :: "'a server_connection_scheme"
  assumes "server_inv \<sigma> st m w" "v = fold close_tunnel_of ids w"
  shows "server_inv \<sigma> (sc_kept v) m v \<and> sc_static v = sc_static w \<and> sc_closed v = sc_closed w \<and>
    sc_has_on_closed v = sc_has_on_closed w \<and> sc_close_calls v = sc_close_calls w \<and>
    (sc_id w \<in> set ids \<or> sc_stream_targets w (sc_id w) = None \<longrightarrow> sc_stream_targets v (sc_id w) = None)"
  using assms
proof (induction ids arbitrary: st w)
  case Nil
  then show ?case by (simp add: server_inv_def server_mid_def)
next
  case (Cons j ids)
  note one = close_tunnel_of_inv [OF Cons.prems(1) refl, of j]
  then have "sc_id (close_tunnel_of j w) = sc_id w" by (simp add: sc_static_def)
  then show ?case using Cons.IH [OF conjunct1 [OF one]] Cons.prems(2) one by auto
qed

text \<open>Emptying the maps, once the tunnel of the stream is closed.\<close>

lemma clear_maps_inv:
  fixes v w :: "'a server_connection_scheme"
  assumes i: "server_inv \<sigma> st m w" and n: "sc_stream_targets w (sc_id w) = None"
    and v: "v = w\<lparr>sc_stream_targets := Map.empty, sc_key_read_buffers := Map.empty, sc_stream_garbage_alarm := None,
      sc_has_on_closed := b, sc_close_calls := c\<rparr>"
  shows "server_inv \<sigma> (sc_kept v) m v"
proof -
  have f: "sc_id v = sc_id w" "sc_expected_psk v = sc_expected_psk w" "sc_transparent v = sc_transparent w"
    "sc_target_address v = sc_target_address w" "sc_accepted v = sc_accepted w" "sc_consumed v = sc_consumed w"
    "sc_key_read_buffers v (sc_id w) = None" "sc_stream_targets v (sc_id w) = None" "sc_delegates v = sc_delegates w"
    "tunnel.truncate v = tunnel.truncate w"
    by (simp_all add: v tunnel.truncate_def)
  have "owner_ok \<sigma> (tn_closed w) (tn_pending_seed_data w) w" using i sc_ok_owner_ok by (auto simp: server_inv_def server_mid_def)
  then have "owner_ok \<sigma> (tn_closed w) (tn_pending_seed_data w) v"
    unfolding owner_ok_def unread_def routed_def f n by (cases "sc_accepted w"; force)
  moreover have "server_mid \<sigma> st m w" using i by (simp add: server_inv_def)
  ultimately have "server_mid \<sigma> (sc_kept v) m v" using mid_owner f(5,6,10) by blast
  then show ?thesis by (simp add: server_inv_def undecided_def f)
qed

lemma lost_target:
  fixes w :: "'a server_connection_scheme"
  assumes i: "server_inv \<sigma> st m w" and n: "sc_stream_targets w (sc_id w) = None"
  shows "sc_stream_targets (sc_lost code w) (sc_id w) = None"
proof -
  let ?v = "sc_lost code w"
  have v: "server_inv \<sigma> st m ?v" by (rule sci.I_stream_events(5) [OF i])
  have "sc_call \<sigma> w ?v" by (rule stream_effects.R_lost [OF sc.C_effects])
  then have f: "sc_config ?v = sc_config w" "tn_closed w \<longrightarrow> tn_closed ?v"
    using i by (simp_all add: sc_call_def sc_frame_def server_inv_def server_mid_def)
  have "owner_ok \<sigma> (tn_closed w) (tn_pending_seed_data w) w" "owner_ok \<sigma> (tn_closed ?v) (tn_pending_seed_data ?v) ?v"
    using i v sc_ok_owner_ok by (auto simp: server_inv_def server_mid_def)
  then show ?thesis using f n by (auto simp: owner_ok_def routed_def sc_config_defs split: option.splits)
qed

lemma server_close_inv:
  fixes v w :: "'a server_connection_scheme"
  assumes i: "server_inv \<sigma> st m w" and e: "server_event_ok \<sigma> (ServerCloses ids) w" and n: "\<not> sc_closed w"
    and v: "v = QuictunServerConnection_Close ids w"
  shows "server_inv \<sigma> (sc_kept v) m v" "sc_static v = sc_static w" "sc_closed v"
    "sc_stream_targets v = Map.empty" "sc_key_read_buffers v = Map.empty"
    "sc_close_calls v = sc_close_calls w + (if sc_has_on_closed w then 1 else 0)" "\<not> sc_has_on_closed v"
proof -
  let ?w1 = "w\<lparr>sc_closed := True\<rparr>"
  define w2 where "w2 = sc_lost QUIC_NO_ERROR ?w1"
  define w3 where "w3 = fold close_tunnel_of ids w2"
  have k1: "sc_kept ?w1 = st" using i by (simp add: sc_config_defs server_inv_def server_mid_def)
  have i1: "server_inv \<sigma> st m ?w1"
    using owner_change_inv [OF i, of ?w1] by (simp add: tunnel.truncate_def k1)
  have i2: "server_inv \<sigma> st m w2" unfolding w2_def by (rule sci.I_stream_events(5) [OF i1])
  have "sc_call \<sigma> ?w1 w2" unfolding w2_def by (rule stream_effects.R_lost [OF sc.C_effects])
  then have f2: "sc_config w2 = sc_config ?w1"
    using i1 by (simp add: sc_call_def sc_frame_def server_inv_def server_mid_def)
  note w3 = close_all_inv [OF i2 w3_def]
  have "sc_id w2 \<in> set ids \<or> sc_stream_targets w2 (sc_id w2) = None"
    using lost_target [OF i1, of QUIC_NO_ERROR] e f2 by (auto simp: w2_def [symmetric] sc_config_defs)
  then have t: "sc_stream_targets w3 (sc_id w3) = None" using w3 by (simp add: sc_static_def)
  have f3: "sc_static w3 = sc_static w" "sc_closed w3" "sc_has_on_closed w3 = sc_has_on_closed w" "sc_close_calls w3 = sc_close_calls w"
    using w3 f2 by (simp_all add: sc_config_defs)
  have eq: "v = w3\<lparr>sc_stream_targets := Map.empty, sc_key_read_buffers := Map.empty, sc_stream_garbage_alarm := None,
      sc_has_on_closed := False, sc_close_calls := sc_close_calls w + (if sc_has_on_closed w then 1 else 0)\<rparr>"
    using n f3 by (cases w3) (auto simp: v QuictunServerConnection_Close_def w2_def [symmetric] w3_def [symmetric] Let_def)
  show "server_inv \<sigma> (sc_kept v) m v" by (rule clear_maps_inv [OF conjunct1 [OF w3] t eq])
  show "sc_static v = sc_static w" "sc_closed v" "sc_stream_targets v = Map.empty" "sc_key_read_buffers v = Map.empty"
    "sc_close_calls v = sc_close_calls w + (if sc_has_on_closed w then 1 else 0)" "\<not> sc_has_on_closed v"
    using f3 by (simp_all add: eq sc_static_def)
qed

text \<open>Every event of the stream, its target and its tunnel leaves alone what belongs to the other streams.\<close>

fun stream_event :: "server_event \<Rightarrow> bool" where
  "stream_event (OtherStream i d b t fc) = False"
| "stream_event (ServerCloses ids) = False"
| "stream_event _ = True"

lemma garbage_inv: "server_inv \<sigma> st m w \<Longrightarrow> server_inv \<sigma> st m (CollectStreamGarbage w)"
proof -
  assume i: "server_inv \<sigma> st m w"
  then have "sc_kept (CollectStreamGarbage w) = st"
    by (simp add: server_inv_def server_mid_def CollectStreamGarbage_def sc_config_defs)
  then show ?thesis using owner_change_inv [OF i, of "CollectStreamGarbage w"] by (simp add: CollectStreamGarbage_def tunnel.truncate_def)
qed

lemma stream_step_inv:
  assumes i: "server_inv \<sigma> st m w" and e: "server_event_ok \<sigma> e w" and s: "stream_event e"
  shows "server_inv \<sigma> st m (server_step e w)"
  using sci.I_frame [OF i] sci.I_stream_events [OF i] sci.I_packet_events [OF i] target_event_inv [OF i] of_tunnel_inv [OF i]
    garbage_inv [OF i] e s
  by (cases e) simp_all

theorem server_step_inv:
  assumes i: "server_inv \<sigma> st m w" and e: "server_event_ok \<sigma> e w"
  shows "server_inv \<sigma> (sc_kept (server_step e w)) m (server_step e w) \<and> sc_static (server_step e w) = sc_static w"
proof (cases "stream_event e")
  case True
  then have "server_inv \<sigma> st m (server_step e w)" by (rule stream_step_inv [OF i e])
  then show ?thesis using i by (auto simp: server_inv_def server_mid_def sc_kept_def)
next
  case False
  then consider (other) i d b t fc where "e = OtherStream i d b t fc" | (close) ids where "e = ServerCloses ids"
    by (cases e) auto
  then show ?thesis
  proof cases
    case other
    let ?v = "w\<lparr>cn_flow := fc\<rparr>"
    have v: "server_inv \<sigma> st m ?v" using i stream_effects.R_session_flow [OF sci.I_effects] by blast
    have "sc_id ?v \<noteq> i" "server_step e w = ?v\<lparr>sc_delegates := (sc_delegates w)(i := d),
        sc_key_read_buffers := (sc_key_read_buffers w)(i := b), sc_stream_targets := (sc_stream_targets w)(i := t)\<rparr>"
      using e other by auto
    then show ?thesis using owner_change_inv [OF v, of "server_step e w"] by (simp add: tunnel.truncate_def sc_static_def)
  next
    case close
    show ?thesis
    proof (cases "sc_closed w")
      case True
      then show ?thesis using i close by (simp add: QuictunServerConnection_Close_def server_inv_def server_mid_def)
    next
      case False
      have ok: "server_event_ok \<sigma> (ServerCloses ids) w" using e close by simp
      show ?thesis using server_close_inv(1,2) [OF i ok False refl] close by simp
    qed
  qed
qed

theorem server_reach_inv:
  assumes "server_reach \<sigma> w0 w" "server_inv \<sigma> st m w0"
  shows "server_inv \<sigma> (sc_kept w) m w \<and> sc_static w = sc_static w0"
  using assms
proof induction
  case start
  then show ?case by (simp add: server_inv_def server_mid_def)
next
  case (step w e)
  then show ?case using server_step_inv [of \<sigma> "sc_kept w" m w e] by simp
qed

end
