(* ===== verification/Server_Properties.thy ===== *)
theory Server_Properties
  imports Server_Events
begin

text \<open>
  What holds of a stream of a server connection in every state it can reach from its
  creation: who gets a tunnel, where it leads, which bytes go there, and what the
  connection keeps of streams that are not authenticated.
\<close>

section \<open>A new stream\<close>

text \<open>The connection before the stream: open, without an entry for the identifier, and with a target
  address unless the destination comes with the stream.\<close>

definition server_ready :: "'a server_connection_scheme \<Rightarrow> bool" where
  "server_ready w \<longleftrightarrow>
     owner_ready (tn_id w) w \<and> sc_key_read_buffers w (sc_id w) = None \<and> sc_stream_targets w (sc_id w) = None \<and>
     sc_delegates w (sc_id w) = None \<and> sc_accepted w = None \<and> sc_consumed w = 0 \<and>
     sc_transparent w = (sc_target_address w = None)"

text \<open>The tunnel of the state is blank until the stream is authenticated.\<close>

definition incoming_stream :: "nat \<Rightarrow> nat \<Rightarrow> dial \<Rightarrow> 'a sc_handler" where
  "incoming_stream receive_window send_window dl w =
     QuictunSessionBase_CreateIncomingStream receive_window send_window dl (QuictunTunnel_new (tn_id w) False w)"

lemma check_empty: "check_preamble psk t [] = AuthPending"
  by (simp add: check_preamble_def)

lemma blank_stream_inv:
  fixes u w :: "'a server_connection_scheme"
  assumes r: "server_ready w" and u_def: "u = QuictunStream_new rw sw (QuictunTunnel_new (tn_id w) False w)"
  shows "server_mid \<sigma> (sc_kept w) 0 u" "tunnel.more u = tunnel.more w" "\<not> tn_closed u"
proof -
  have u: "u = new_tunnel (tn_id w) False rw sw w"
    by (cases w) (simp add: u_def new_tunnel_def QuictunTunnel_new_def QuictunStream_new_def QuicStream_new_def QuicStreamSequencer_new_def)
  note defs = u_def QuictunTunnel_new_def QuictunStream_new_def QuicStream_new_def QuicStreamSequencer_new_def
  show m: "tunnel.more u = tunnel.more w" and n: "\<not> tn_closed u" by (simp_all add: defs)
  have f: "\<not> tn_started u" "tn_from_tcp u = []" by (simp_all add: defs)
  have "owner_ok \<sigma> False [] w" using r by (simp add: server_ready_def owner_ok_def unread_def routed_def)
  then have "server_owner \<sigma> (sc_config w) False [] (tunnel.more w)" by (simp add: server_owner_iff)
  then have "tunnel_inv (server_owner \<sigma> (sc_config w)) \<sigma> 0 0 [] True u"
    unfolding u using r by (intro new_tunnel_inv) (simp_all add: server_ready_def)
  then show "server_mid \<sigma> (sc_kept w) 0 u"
    using r f n same_owner [OF m] by (simp add: server_mid_def sc_ok_def tunnel_inv_def server_ready_def)
qed

lemma incoming_inv:
  fixes w :: "'a server_connection_scheme"
  assumes r: "server_ready w"
  shows "server_inv \<sigma> (sc_kept w) 0 (incoming_stream rw sw dl w)"
proof -
  define u where "u = QuictunStream_new rw sw (QuictunTunnel_new (tn_id w) False w)"
  note blank = blank_stream_inv(1) [OF r u_def, of \<sigma>] blank_stream_inv(2,3) [OF r u_def]
  note f = same_owner [OF blank(2)]
  define v where "v = SetStreamDelegate (sc_id u) ToConnection (u\<lparr>sc_key_read_buffers := (sc_key_read_buffers u)(sc_id u \<mapsto> [])\<rparr>)"
  have k: "sc_kept v = sc_kept w" using f by (simp add: v_def SetStreamDelegate_def sc_config_defs)
  have v: "sc_accepted v = None" "sc_consumed v = 0" "sc_id v = sc_id u" "sc_key_read_buffers v (sc_id v) = Some []"
    "sc_stream_targets v = sc_stream_targets u" "sc_delegates v (sc_id u) = Some ToConnection"
    "sc_transparent v = sc_transparent u" "sc_target_address v = sc_target_address u" "tunnel.truncate v = tunnel.truncate u"
    using f r by (simp_all add: v_def SetStreamDelegate_def server_ready_def tunnel.truncate_def)
  have "owner_ok \<sigma> (tn_closed u) (tn_pending_seed_data u) u" using blank(1) sc_ok_owner_ok by (auto simp: server_mid_def)
  moreover have acc: "sc_accepted u = None" "sc_consumed u = 0" using f r by (simp_all add: server_ready_def)
  ultimately have "owner_ok \<sigma> (tn_closed u) (tn_pending_seed_data u) v"
    unfolding owner_ok_def unread_def routed_def using v by simp
  then have "server_mid \<sigma> (sc_kept w) 0 v"
    using mid_owner [OF blank(1) v(9)] v(1,2) acc k by simp
  then have "server_inv \<sigma> (sc_kept w) 0 (auth_rounds max_preamble dl v)" "server_inv \<sigma> (sc_kept w) 0 v"
    using auth_rounds_inv [OF _ v(4), of \<sigma> "sc_kept w" 0 max_preamble dl] v(4) check_empty
    by (simp_all add: max_preamble_def server_inv_def undecided_def)
  moreover have "server_inv \<sigma> (sc_kept w) 0 u"
    using blank(1) f r by (simp add: server_inv_def undecided_def server_ready_def)
  ultimately show ?thesis
    by (auto simp: incoming_stream_def QuictunSessionBase_CreateIncomingStream_def QuictunServerConnection_OnNewStream_def
        QuictunServerConnection_OnStreamDataAvailable_def u_def [symmetric] v_def [symmetric])
qed

lemma stream_inv:
  assumes "server_ready v" "server_reach \<sigma> (incoming_stream rw sw dl v) w"
  shows "server_inv \<sigma> (sc_kept w) 0 w" "sc_static w = sc_static v"
proof -
  note i = incoming_inv [OF assms(1), of \<sigma> rw sw dl]
  then have "sc_static (incoming_stream rw sw dl v) = sc_static v"
    by (simp add: server_inv_def server_mid_def sc_kept_def)
  then show "server_inv \<sigma> (sc_kept w) 0 w" "sc_static w = sc_static v" using server_reach_inv [OF assms(2) i] by simp_all
qed

lemma stream_owner_ok:
  assumes "server_ready v" "server_reach \<sigma> (incoming_stream rw sw dl v) w"
  shows "owner_ok \<sigma> (tn_closed w) (tn_pending_seed_data w) w" "sc_id w = sc_id v" "sc_expected_psk w = sc_expected_psk v"
    "sc_transparent w = sc_transparent v" "sc_target_address w = sc_target_address v"
  using stream_inv [OF assms] sc_ok_owner_ok by (auto simp: server_inv_def server_mid_def sc_static_def)

text \<open>The reachability as a function that checks every event of a list before it runs it.\<close>

fun run_server :: "(nat \<Rightarrow> byte) \<Rightarrow> server_event list \<Rightarrow> 'a server_connection_scheme \<Rightarrow> 'a server_connection_scheme option" where
  "run_server \<sigma> [] w = Some w"
| "run_server \<sigma> (e # es) w = (if server_event_ok \<sigma> e w then run_server \<sigma> es (server_step e w) else None)"

lemma run_server_reach:
  "run_server \<sigma> es w = Some w' \<Longrightarrow> server_reach \<sigma> w0 w \<Longrightarrow> server_reach \<sigma> w0 w'"
  by (induction es arbitrary: w) (auto split: if_splits intro: server_reach.step)

section \<open>A sample run\<close>

definition sample_dial :: dial where
  "sample_dial = \<lparr>dl_opened = True, dl_connect = ConnectOk, dl_recv = [], dl_send = [Accepted 2]\<rparr>"

definition sample_server :: server_connection where
  "sample_server = tunnel.extend sample_session
     (server_connection.fields 4 Map.empty (Some \<lparr>sa_host = QuicheIpAddress_Loopback4, sa_port = 80\<rparr>) False [1, 2]
        Map.empty Map.empty [] None True False 0 False False None 0)"

text \<open>The key in two frames, the second one with the first payload bytes, and more payload.\<close>

definition sample_peer :: "nat \<Rightarrow> byte" where
  "sample_peer i = ([0, 2, 1, 2] @ map word_of_nat [10..<30]) ! (i mod 24)"

definition sample_server_end :: "server_connection option" where
  "sample_server_end = run_server sample_peer
     [ServerWrites six_writes, ServerFrame 0 (map sample_peer [0..<3]) False sample_dial,
      ServerFrame 3 (map sample_peer [3..<7]) False sample_dial,
      ServerTarget True True \<lparr>ta_no_error = True, ta_peek = ConnectOk, ta_receive = Received [7, 8], ta_send = Accepted 1,
        ta_recv = [], ta_sends = []\<rparr>]
     (incoming_stream 65536 65536 sample_dial sample_server)"

text \<open>Half of the preamble, then the peer stops our side of the stream and ends its own.\<close>

definition sample_dangling :: "server_connection option" where
  "sample_dangling = run_server sample_peer
     [ServerWrites six_writes, ServerFrame 0 (map sample_peer [0..<3]) False sample_dial,
      ServerStopSending QUIC_STREAM_NO_ERROR, ServerFrame 3 [] True sample_dial]
     (incoming_stream 65536 65536 sample_dial sample_server)"

lemma sample_server_fields:
  "map_option (\<lambda>w. ((sk_written w, tn_from_tcp w, sc_accepted w, sc_consumed w),
      (tn_closed w, cn_data w, sc_stream_targets w 4 = None),
      (sc_closed w, sc_id w, sc_has_on_closed w, sc_close_calls w), sc_accepted (QuictunServerConnection_Close [4] w) = None)) sample_server_end =
     Some (([10, 11, 12], [7, 8], Some None, 7), (False, [(0, [7, 8], False)], False), (False, 4, True, 0), False)"
  by code_simp

lemma sample_dangling_fields: "map_option (\<lambda>w. (sc_dangling w, sc_accepted w)) sample_dangling = Some (True, None)"
  by code_simp

lemma sample_server_ready: "server_ready sample_server"
  by (simp add: server_ready_def sample_server_def) code_simp

lemma sample_server_ends:
  obtains w where "sample_server_end = Some w" "server_reach sample_peer (incoming_stream 65536 65536 sample_dial sample_server) w"
    "sk_written w = [10, 11, 12]" "sc_accepted w = Some None" "\<not> tn_closed w" "cn_data w = [(0, [7, 8], False)]" "tn_from_tcp w = [7, 8]"
    "sc_stream_targets w 4 \<noteq> None" "\<not> sc_closed w" "sc_id w = 4" "sc_has_on_closed w" "sc_close_calls w = 0"
    "sc_accepted (QuictunServerConnection_Close [4] w) \<noteq> None"
proof -
  obtain w where w: "sample_server_end = Some w" using sample_server_fields by (cases sample_server_end) simp_all
  have "server_reach sample_peer (incoming_stream 65536 65536 sample_dial sample_server) w"
    by (rule run_server_reach [OF w [unfolded sample_server_end_def] server_reach.start])
  from that [OF w this] show ?thesis using sample_server_fields [unfolded w] by simp
qed

section \<open>The bytes\<close>

lemma accepted_stream:
  assumes r: "server_ready v" "server_reach \<sigma> (incoming_stream rw sw dl v) w" and a: "sc_accepted w = Some dest"
  shows "key_ok (sc_expected_psk v) (sc_transparent v) dest"
    "tn_started w \<Longrightarrow> client_preamble (sc_expected_psk v) dest @ tn_seed w @ tn_read w = map \<sigma> [0..<sc_consumed w + length (tn_read w)]"
    "client_preamble (sc_expected_psk v) dest @ tn_pending_seed_data w = map \<sigma> [0..<sc_consumed w]"
proof -
  note o = stream_owner_ok [OF r]
  show "key_ok (sc_expected_psk v) (sc_transparent v) dest"
    using o(1) unfolding owner_ok_def routed_def a o(2-) option.case by blast
  show pre: "client_preamble (sc_expected_psk v) dest @ tn_pending_seed_data w = map \<sigma> [0..<sc_consumed w]"
    using o(1) unfolding owner_ok_def routed_def a o(2-) option.case by blast
  have mid: "server_mid \<sigma> (sc_kept w) 0 w" using stream_inv(1) [OF r] by (simp add: server_inv_def)
  have "tn_read w = map \<sigma> [sc_consumed w..<sc_consumed w + length (tn_read w)]"
    using mid by (simp add: server_mid_def recv_inv_def)
  then show "client_preamble (sc_expected_psk v) dest @ tn_seed w @ tn_read w = map \<sigma> [0..<sc_consumed w + length (tn_read w)]" if "tn_started w"
    using inv_parts(1) [OF mid_tunnel [OF mid]] that pre upt_add_eq_append [of 0 "sc_consumed w" "length (tn_read w)"]
    by (metis append_assoc bytes_ok_def le0 map_append)
qed

lemma target_gets:
  assumes "server_ready v" "server_reach \<sigma> (incoming_stream rw sw dl v) w" "sc_accepted w = Some dest"
  shows "key_ok (sc_expected_psk v) (sc_transparent v) dest \<and>
    (\<exists>n. prefix (client_preamble (sc_expected_psk v) dest @ sk_written w) (map \<sigma> [0..<n])) \<and>
    (tn_started w \<and> \<not> tn_closed w \<longrightarrow>
       client_preamble (sc_expected_psk v) dest @ sk_written w @ sk_send_remaining w @ concat (tn_pending_to_tcp w) =
         map \<sigma> [0..<sc_consumed w + length (tn_read w)])"
proof -
  note a = accepted_stream [OF assms]
  have mid: "server_mid \<sigma> (sc_kept w) 0 w" using stream_inv(1) [OF assms(1,2)] by (simp add: server_inv_def)
  note parts = inv_parts [OF mid_tunnel [OF mid]]
  have p: "prefix (sk_written w) (tn_seed w @ tn_read w)"
    using parts(1) by (metis bytes_ok_def prefixI prefix_order.trans)
  have "\<exists>n. prefix (client_preamble (sc_expected_psk v) dest @ sk_written w) (map \<sigma> [0..<n])"
  proof (cases "tn_started w")
    case True
    with a(2) p show ?thesis by (metis same_prefix_prefix)
  next
    case False
    then have "sk_written w = []" using parts(1) p by (auto simp: bytes_ok_def)
    then show ?thesis using a(3) by (metis append_Nil2 prefixI)
  qed
  moreover have "sk_written w @ sk_send_remaining w @ concat (tn_pending_to_tcp w) = tn_seed w @ tn_read w" if "\<not> tn_closed w"
    using that parts(1,6) by (auto simp: bytes_ok_def exact_ok_def)
  ultimately show ?thesis using a(1,2) by auto
qed

text \<open>C10. A target gets exactly the peer's stream without the preamble: whatever was written to it is, after
  the client's preamble for the server's key, a prefix of the stream, and as long as the tunnel is open
  nothing that was read is missing, however the frames split the preamble from the payload.\<close>

theorem server_delivers_payload:
  assumes "server_ready v" "server_reach \<sigma> (incoming_stream rw sw dl v) w" "sc_accepted w = Some dest"
  shows "key_ok (sc_expected_psk v) (sc_transparent v) dest \<and>
    (\<exists>n. prefix (client_preamble (sc_expected_psk v) dest @ sk_written w) (map \<sigma> [0..<n])) \<and>
    (tn_started w \<and> \<not> tn_closed w \<longrightarrow>
       client_preamble (sc_expected_psk v) dest @ sk_written w @ sk_send_remaining w @ concat (tn_pending_to_tcp w) =
         map \<sigma> [0..<sc_consumed w + length (tn_read w)])"
  by (rule target_gets [OF assms])

theorem server_delivers_payload_witness:
  "\<exists>w. sample_server_end = Some w \<and> server_ready sample_server \<and>
     server_reach sample_peer (incoming_stream 65536 65536 sample_dial sample_server) w \<and> sk_written w = [10, 11, 12] \<and>
     (\<exists>n. prefix (client_preamble [1, 2] None @ sk_written w) (map sample_peer [0..<n]))"
proof -
  obtain w where w: "sample_server_end = Some w" "server_reach sample_peer (incoming_stream 65536 65536 sample_dial sample_server) w"
    "sk_written w = [10, 11, 12]" "sc_accepted w = Some None" by (rule sample_server_ends)
  have "sc_expected_psk sample_server = [1, 2]" by (simp add: sample_server_def tunnel.extend_def server_connection.fields_def)
  with server_delivers_payload [OF sample_server_ready w(2,4)]
  have "\<exists>n. prefix (client_preamble [1, 2] None @ sk_written w) (map sample_peer [0..<n])" by simp
  then show ?thesis using w(1,2,3) sample_server_ready by blast
qed

lemma server_sends:
  assumes "server_ready v" "server_reach \<sigma> (incoming_stream rw sw dl v) w"
  shows "(\<exists>n \<le> length (tn_from_tcp w). list_all (carries (take n (tn_from_tcp w))) (cn_data w)) \<and>
    (sc_accepted w = None \<longrightarrow> tn_from_tcp w = [])"
proof -
  have mid: "server_mid \<sigma> (sc_kept w) 0 w" using stream_inv(1) [OF assms] by (simp add: server_inv_def)
  then have "send_inv [] w" "sc_accepted w = None \<longrightarrow> tn_from_tcp w = []" by (auto simp: server_mid_def sc_ok_def)
  then show ?thesis unfolding send_inv_def send_ok_def send_done_def by (metis append_Nil)
qed

text \<open>C18. What the peer gets back on the stream is what the target sent: every frame, first transmission or
  not, carries at its offset the target's bytes, and a fin stands where they end.  A stream that is not
  authenticated gets nothing.\<close>

theorem server_answers_from_target:
  assumes "server_ready v" "server_reach \<sigma> (incoming_stream rw sw dl v) w"
  shows "(\<exists>n \<le> length (tn_from_tcp w). list_all (carries (take n (tn_from_tcp w))) (cn_data w)) \<and>
    (sc_accepted w = None \<longrightarrow> tn_from_tcp w = [])"
  by (rule server_sends [OF assms])

theorem server_answers_from_target_witness:
  "\<exists>w. sample_server_end = Some w \<and> server_ready sample_server \<and> tn_from_tcp w = [7, 8] \<and>
     (\<exists>n \<le> length (tn_from_tcp w). list_all (carries (take n (tn_from_tcp w))) [(0, [7, 8], False)])"
proof -
  obtain w where w: "sample_server_end = Some w" "server_reach sample_peer (incoming_stream 65536 65536 sample_dial sample_server) w"
    "cn_data w = [(0, [7, 8], False)]" "tn_from_tcp w = [7, 8]" by (rule sample_server_ends)
  from server_answers_from_target [OF sample_server_ready w(2)] show ?thesis
    unfolding w(3) using w(1,4) sample_server_ready by blast
qed

section \<open>Authentication\<close>

text \<open>C9. Without the key nothing happens: if no prefix of the peer's stream is the client's preamble for the
  server's key, the server dials no target for the stream, starts no tunnel, writes nothing to a socket
  and sends no data back, whatever the peer sends and whatever else happens.\<close>

theorem server_needs_key:
  assumes "server_ready v" "server_reach \<sigma> (incoming_stream rw sw dl v) w"
    and wrong: "\<forall>dest n. key_ok (sc_expected_psk v) (sc_transparent v) dest \<longrightarrow>
      \<not> prefix (client_preamble (sc_expected_psk v) dest) (map \<sigma> [0..<n])"
  shows "sc_stream_targets w (sc_id v) = None \<and> sc_delegates w (sc_id v) \<noteq> Some ToTunnel \<and> \<not> tn_started w \<and>
    sk_written w = [] \<and> tn_from_tcp w = [] \<and> list_all (\<lambda>(off, d, fin). d = []) (cn_data w)"
proof -
  have a: "sc_accepted w = None"
    using accepted_stream(1,3) [OF assms(1,2)] wrong by (metis not_None_eq prefixI)
  have mid: "server_mid \<sigma> (sc_kept w) 0 w" using stream_inv(1) [OF assms(1,2)] by (simp add: server_inv_def)
  note u = unaccepted_facts [OF mid a]
  have "sk_written w = []" using unstarted_facts(5) [OF mid_tunnel [OF mid] u(1,2)] .
  moreover have "list_all (carries []) (cn_data w)"
    using mid u(5) by (simp add: server_mid_def send_inv_def send_ok_def send_done_def)
  then have "list_all (\<lambda>(off, d, fin). d = []) (cn_data w)" by (auto simp: list_all_iff carries_def)
  ultimately show ?thesis using u stream_owner_ok(2) [OF assms(1,2)] a by (auto simp: owner_ok_def routed_def)
qed

theorem server_needs_key_witness:
  "\<exists>w. run_server (\<lambda>_. 9) [ServerFrame 0 [9, 9, 9] False sample_dial] (incoming_stream 65536 65536 sample_dial sample_server) = Some w \<and>
     sc_stream_targets w 4 = None \<and> \<not> tn_started w"
proof -
  let ?run = "run_server (\<lambda>_. 9) [ServerFrame 0 [9, 9, 9] False sample_dial] (incoming_stream 65536 65536 sample_dial sample_server)"
  have "map_option (\<lambda>_. ()) ?run = Some ()" by code_simp
  then obtain w where w: "?run = Some w" by (cases ?run) simp_all
  have f: "sc_expected_psk sample_server = [1, 2]" "sc_id sample_server = 4"
    by (simp_all add: sample_server_def tunnel.extend_def server_connection.fields_def)
  have "\<not> prefix (client_preamble [1, 2] dest) (map (\<lambda>_. 9) [0..<n])" for dest n
    by (cases n) (auto simp: client_preamble_def be16_def upt_conv_Cons simp del: upt_Suc)
  from server_needs_key [OF sample_server_ready run_server_reach [OF w server_reach.start]] f this w show ?thesis by auto
qed

text \<open>C32. What an unauthenticated peer costs is bounded: the buffer of a stream holds the first bytes of the
  stream, as long as they are not enough to decide, which is fewer than the longest preamble has.\<close>

theorem auth_buffer_bounded:
  assumes "server_ready v" "server_reach \<sigma> (incoming_stream rw sw dl v) w" "sc_key_read_buffers w (sc_id v) = Some buf"
  shows "length buf < max_preamble \<and> buf = map \<sigma> [0..<length buf] \<and> sc_accepted w = None \<and>
    check_preamble (sc_expected_psk v) (sc_transparent v) buf = AuthPending"
proof -
  note o = stream_owner_ok [OF assms(1,2)]
  have b: "sc_key_read_buffers w (sc_id w) = Some buf" using assms(3) o(2) by simp
  then have u: "sc_accepted w = None" "buf = map \<sigma> [0..<sc_consumed w]" using o(1) by (simp_all add: owner_ok_def unread_def)
  have "undecided w" using stream_inv(1) [OF assms(1,2)] by (simp add: server_inv_def)
  then have c: "check_preamble (sc_expected_psk v) (sc_transparent v) buf = AuthPending" using b o by (simp add: undecided_def)
  have "length buf = sc_consumed w" using u(2) by simp
  then show ?thesis using u c pending_length [OF c] by simp
qed

theorem auth_buffer_bounded_witness:
  "\<exists>w. run_server sample_peer [ServerFrame 0 (map sample_peer [0..<3]) False sample_dial]
        (incoming_stream 65536 65536 sample_dial sample_server) = Some w \<and>
     sc_key_read_buffers w 4 = Some [0, 2, 1] \<and> length [0, 2, 1 :: byte] < max_preamble \<and> sc_accepted w = None"
proof -
  let ?run = "run_server sample_peer [ServerFrame 0 (map sample_peer [0..<3]) False sample_dial]
        (incoming_stream 65536 65536 sample_dial sample_server)"
  have "map_option (\<lambda>w. sc_key_read_buffers w 4) ?run = Some (Some [0, 2, 1])" by code_simp
  then obtain w where w: "?run = Some w" "sc_key_read_buffers w 4 = Some [0, 2, 1]" by (cases ?run) simp_all
  have "sc_id sample_server = 4" by (simp add: sample_server_def tunnel.extend_def server_connection.fields_def)
  then have b: "sc_key_read_buffers w (sc_id sample_server) = Some [0, 2, 1]" using w(2) by simp
  from auth_buffer_bounded [OF sample_server_ready run_server_reach [OF w(1) server_reach.start] b] w show ?thesis by blast
qed

section \<open>Routing\<close>

text \<open>C30. The session never routes an event of the stream to a tunnel that is closed: a stream with the tunnel
  as its delegate has an open tunnel among the targets, dialled at the address the mode gives, the one
  from the stream's header or the configured one.  The entry of the target and the tunnel end together,
  and the connection stays the delegate only until the stream is authenticated.\<close>

theorem server_routes_to_open_tunnel:
  assumes "server_ready v" "server_reach \<sigma> (incoming_stream rw sw dl v) w"
  shows "(sc_delegates w (sc_id v) = Some ToTunnel \<longrightarrow> sc_stream_targets w (sc_id v) \<noteq> None \<and> \<not> tn_closed w) \<and>
    (sc_delegates w (sc_id v) = Some ToConnection \<longrightarrow> sc_accepted w = None) \<and>
    (\<forall>t. sc_stream_targets w (sc_id v) = Some t \<longrightarrow> \<not> tn_closed w \<and>
       (\<exists>dest. sc_accepted w = Some dest \<and> tg_address t = (if sc_transparent v then dest else sc_target_address v)))"
proof -
  note o = stream_owner_ok [OF assms(1,2)]
  from o(1) show ?thesis unfolding owner_ok_def routed_def o(2-) by (cases "sc_accepted w") auto
qed

theorem server_routes_to_open_tunnel_witness:
  "\<exists>w t. sample_server_end = Some w \<and> server_ready sample_server \<and> sc_stream_targets w 4 = Some t \<and> \<not> tn_closed w \<and>
     tg_address t = Some \<lparr>sa_host = QuicheIpAddress_Loopback4, sa_port = 80\<rparr>"
proof -
  obtain w where w: "sample_server_end = Some w"
    "server_reach sample_peer (incoming_stream 65536 65536 sample_dial sample_server) w" "\<not> tn_closed w"
    "sc_stream_targets w 4 \<noteq> None" by (rule sample_server_ends)
  obtain t where t: "sc_stream_targets w 4 = Some t" using w(4) by auto
  have f: "sc_id sample_server = 4" "\<not> sc_transparent sample_server"
    "sc_target_address sample_server = Some \<lparr>sa_host = QuicheIpAddress_Loopback4, sa_port = 80\<rparr>"
    by (simp_all add: sample_server_def tunnel.extend_def server_connection.fields_def)
  from server_routes_to_open_tunnel [OF sample_server_ready w(2)] w t f sample_server_ready show ?thesis by auto
qed



section \<open>The end\<close>

text \<open>C33. Closing the connection ends everything it has: the maps are empty, the stream's tunnel is closed if it
  has one, and the owner is called once; a second close does nothing.\<close>

theorem server_close_complete:
  assumes "server_ready v" "server_reach \<sigma> (incoming_stream rw sw dl v) w" "\<not> sc_closed w"
    "sc_stream_targets w (sc_id w) \<noteq> None \<longrightarrow> sc_id w \<in> set ids"
    and c: "c = QuictunServerConnection_Close ids w"
  shows "sc_closed c \<and> sc_stream_targets c = Map.empty \<and> sc_key_read_buffers c = Map.empty \<and>
    (sc_accepted c \<noteq> None \<longrightarrow> tn_closed c) \<and>
    sc_close_calls c = sc_close_calls w + (if sc_has_on_closed w then 1 else 0) \<and> \<not> sc_has_on_closed c \<and>
    QuictunServerConnection_Close ids' c = c"
proof -
  have e: "server_event_ok \<sigma> (ServerCloses ids) w" using assms(4) by simp
  note cl = server_close_inv [OF stream_inv(1) [OF assms(1,2)] e assms(3) c]
  have "owner_ok \<sigma> (tn_closed c) (tn_pending_seed_data c) c" using cl(1) sc_ok_owner_ok by (auto simp: server_inv_def server_mid_def)
  then have "sc_accepted c \<noteq> None \<longrightarrow> tn_closed c" using cl(4) by (auto simp: owner_ok_def routed_def)
  then show ?thesis using cl by (simp add: QuictunServerConnection_Close_def)
qed

theorem server_close_complete_witness:
  "\<exists>w. sample_server_end = Some w \<and> server_ready sample_server \<and>
     tn_closed (QuictunServerConnection_Close [4] w) \<and> sc_close_calls (QuictunServerConnection_Close [4] w) = 1"
proof -
  obtain w where w: "sample_server_end = Some w" "server_reach sample_peer (incoming_stream 65536 65536 sample_dial sample_server) w"
    and f: "\<not> sc_closed w" "sc_id w = 4" "sc_has_on_closed w" "sc_close_calls w = 0"
      "sc_accepted (QuictunServerConnection_Close [4] w) \<noteq> None" by (rule sample_server_ends)
  from server_close_complete [OF sample_server_ready w(2) f(1), of "[4]" "QuictunServerConnection_Close [4] w"] f w(1) sample_server_ready
  show ?thesis by auto
qed



text \<open>C35. The reference into the buffers of unauthenticated streams can be used after its entry is gone: a peer
  without the key sends a part of the preamble, stops our side of the stream and ends its own; the read
  that meets the end closes the stream, which erases the entry inside the read.\<close>

theorem auth_buffer_dangles:
  "\<exists>w. server_reach sample_peer (incoming_stream 65536 65536 sample_dial sample_server) w \<and> sc_dangling w \<and> sc_accepted w = None"
proof -
  obtain w where w: "sample_dangling = Some w" "sc_dangling w" "sc_accepted w = None"
    using sample_dangling_fields by (cases sample_dangling) auto
  then show ?thesis using run_server_reach [OF w(1) [unfolded sample_dangling_def] server_reach.start] by blast
qed

end
