(* ===== verification/Client_Connection.thy ===== *)
theory Client_Connection
  imports Tunnel_Properties Preamble
begin

text \<open>
  \<open>QuictunClientConnection\<close> (\<open>quictun_client_connection.cc\<close>): accepted TCP connections wait
  until a stream can be opened for them, a stream starts with the preamble, and a tunnel
  joins the two.

  As for the server the state extends the one of a tunnel, which is the tunnel, stream and
  socket of the stream \<open>cc_id\<close>; the other streams take part in the maps.  The session tells
  the owner about the loss of the connection from inside the call that lost it;
  \<open>notify_closed\<close> is that call, run when the call into the stream has returned.
  \<open>cc_closed_fds\<close> are the descriptors that were closed, directly or with their socket object;
  \<open>cc_dest\<close> is auxiliary, the destination the preamble of the stream was written with.
\<close>

type_synonym SocketFd = nat

record pending_tcp =
  pt_fd :: SocketFd
  pt_peer :: socket_address
  pt_dest :: "socket_address option"

record stream_tcp =
  sp_fd :: SocketFd
  sp_tunnel :: tunnel_id
  sp_socket_disconnected :: bool

record client_connection = tunnel +
  cc_id :: QuicStreamId
  cc_delegates :: "QuicStreamId \<rightharpoonup> tunnel_id"
  cc_psk :: bytes
  cc_transparent :: bool
  cc_pending_tcps :: "pending_tcp list"
  cc_stream_tcps :: "(QuicStreamId \<times> stream_tcp) list"
  cc_closed_stream_tcps :: "stream_tcp list"
  cc_stream_garbage_alarm :: "QuicTime option"
  cc_has_on_closed :: bool
  cc_closed :: bool
  cc_close_calls :: nat
  cc_closed_fds :: "SocketFd list"
  cc_dest :: "socket_address option"

type_synonym 'a cc_handler = "'a client_connection_scheme \<Rightarrow> 'a client_connection_scheme"

section \<open>The end of a tunnel\<close>

definition erase_tcp :: "QuicStreamId \<Rightarrow> (QuicStreamId \<times> stream_tcp) list \<Rightarrow> (QuicStreamId \<times> stream_tcp) list" where
  "erase_tcp i = filter (\<lambda>(j, _). j \<noteq> i)"

text \<open>The callback the connection gives to the tunnel of the stream \<open>i\<close>.\<close>

definition tcp_closed_callback :: "QuicStreamId \<Rightarrow> 'a cc_handler" where
  "tcp_closed_callback i w =
     (case map_of (cc_stream_tcps w) i of
        None \<Rightarrow> w
      | Some t \<Rightarrow>
          let w = w\<lparr>cc_delegates := (cc_delegates w)(i := None)\<rparr>;
              w = w\<lparr>cc_closed_stream_tcps := cc_closed_stream_tcps w @ [t\<lparr>sp_socket_disconnected := True\<rparr>],
                    cc_stream_tcps := erase_tcp i (cc_stream_tcps w)\<rparr>
          in if cc_stream_garbage_alarm w = None then w\<lparr>cc_stream_garbage_alarm := Some (cn_now w)\<rparr> else w)"

definition client_on_closed :: "'a cc_handler" where
  "client_on_closed w = tcp_closed_callback (cc_id w) w"

text \<open>\<open>QuictunSessionBase::OnStreamGone\<close>; every delegate of a client is a tunnel.\<close>

definition client_OnStreamGone :: "'a cc_handler" where
  "client_OnStreamGone w =
     (case cc_delegates w (cc_id w) of
        None \<Rightarrow> w
      | Some _ \<Rightarrow> QuictunTunnel_OnStreamGone client_on_closed (w\<lparr>cc_delegates := (cc_delegates w)(cc_id w := None)\<rparr>))"

abbreviation cc_gone :: "'a cc_handler" where
  "cc_gone \<equiv> client_OnStreamGone"

abbreviation cc_lost :: "QuicErrorCode \<Rightarrow> 'a cc_handler" where
  "cc_lost \<equiv> connection_lost cc_gone"

section \<open>Closing the connection\<close>

definition close_tcp_of :: "QuicStreamId \<Rightarrow> 'a cc_handler" where
  "close_tcp_of i w =
     (if map_of (cc_stream_tcps w) i = None then w
      else if i = cc_id w then if tn_closed w then w else QuictunTunnel_Close client_on_closed False w
      else tcp_closed_callback i w)"

text \<open>The tunnels are closed in the order of the snapshot.  The entries that are still there are destroyed
  with their sockets.\<close>

definition QuictunClientConnection_Close :: "'a cc_handler" where
  "QuictunClientConnection_Close w =
     (if cc_closed w then w
      else let w = w\<lparr>cc_closed := True\<rparr>;
               w = cc_lost QUIC_NO_ERROR w;
               w = fold close_tcp_of (map fst (cc_stream_tcps w)) w;
               w = w\<lparr>cc_closed_fds := cc_closed_fds w @ map (sp_fd \<circ> snd) (cc_stream_tcps w), cc_stream_tcps := [],
                     cc_stream_garbage_alarm := None\<rparr>;
               w = w\<lparr>cc_closed_fds := cc_closed_fds w @ map pt_fd (cc_pending_tcps w), cc_pending_tcps := []\<rparr>
           in if cc_has_on_closed w then w\<lparr>cc_has_on_closed := False, cc_close_calls := cc_close_calls w + 1\<rparr> else w)"

definition QuictunClientConnection_OnConnectionClosed :: "'a cc_handler" where
  "QuictunClientConnection_OnConnectionClosed w = QuictunClientConnection_Close w"

definition notify_closed :: "'a cc_handler" where
  "notify_closed w = (if cn_connected w then w else QuictunClientConnection_OnConnectionClosed w)"

definition client_CollectStreamGarbage :: "'a cc_handler" where
  "client_CollectStreamGarbage w =
     w\<lparr>cc_closed_fds := cc_closed_fds w @ map sp_fd (cc_closed_stream_tcps w), cc_closed_stream_tcps := [],
       cc_stream_garbage_alarm := None\<rparr>"

section \<open>Starting a tunnel\<close>

text \<open>What the environment answers while a tunnel starts.\<close>

record start_answers =
  sr_recv :: "recv_result list"
  sr_send :: "send_result list"
  sr_receive_window :: nat
  sr_send_window :: nat

definition write_preamble :: "pending_tcp \<Rightarrow> 'a cc_handler" where
  "write_preamble p w =
     (let dest = (if cc_transparent w then pt_dest p else None);
          w = w\<lparr>cc_dest := dest\<rparr>
      in QuictunStream_WriteToStream cc_lost cc_gone (client_preamble (cc_psk w) dest) False w)"

definition join_tunnel :: "start_answers \<Rightarrow> pending_tcp \<Rightarrow> 'a cc_handler" where
  "join_tunnel a p w =
     (let w = QuictunTunnel_new (tn_id w) True (QuictunAcceptedTcpSocket_new w);
          w = w\<lparr>cc_stream_tcps := (cc_id w, \<lparr>sp_fd = pt_fd p, sp_tunnel = tn_id w, sp_socket_disconnected = False\<rparr>) #
                  cc_stream_tcps w,
                cc_delegates := (cc_delegates w)(cc_id w \<mapsto> tn_id w)\<rparr>
      in QuictunTunnel_Start (sr_recv a) (sr_send a) client_on_closed [] w)"

definition StartTunnel_own :: "start_answers \<Rightarrow> pending_tcp \<Rightarrow> 'a cc_handler" where
  "StartTunnel_own a p w =
     (let w = notify_closed (write_preamble p w)
      in if cc_closed w then w\<lparr>cc_closed_fds := cc_closed_fds w @ [pt_fd p]\<rparr> else join_tunnel a p w)"

text \<open>A stream of its own that the state does not hold: only its entry and its delegate are seen here, or
  that its first write lost the connection.\<close>

definition StartTunnel_other :: "QuicStreamId \<Rightarrow> tunnel_id \<Rightarrow> bool \<Rightarrow> pending_tcp \<Rightarrow> 'a cc_handler" where
  "StartTunnel_other i t connected p w =
     (let w = (if connected then w else notify_closed (cc_lost QUIC_INTERNAL_ERROR w))
      in if cc_closed w then w\<lparr>cc_closed_fds := cc_closed_fds w @ [pt_fd p]\<rparr>
         else w\<lparr>cc_stream_tcps := (i, \<lparr>sp_fd = pt_fd p, sp_tunnel = t, sp_socket_disconnected = False\<rparr>) # cc_stream_tcps w,
                cc_delegates := (cc_delegates w)(i \<mapsto> t)\<rparr>)"

text \<open>The streams \<open>OpenOutgoingStream\<close> returns, one after the other, until it returns none.\<close>

datatype opened_stream = OwnStream start_answers | OtherStreamOpened QuicStreamId tunnel_id bool

fun StartTunnel :: "opened_stream \<Rightarrow> pending_tcp \<Rightarrow> 'a cc_handler" where
  "StartTunnel (OwnStream a) p w =
     StartTunnel_own a p (QuictunStream_new (sr_receive_window a) (sr_send_window a) w)"
| "StartTunnel (OtherStreamOpened i t connected) p w = StartTunnel_other i t connected p w"

fun MaybeOpenStreams :: "opened_stream list \<Rightarrow> 'a cc_handler" where
  "MaybeOpenStreams [] w = w"
| "MaybeOpenStreams (s # streams) w =
     (if cc_closed w \<or> cc_pending_tcps w = [] then w
      else MaybeOpenStreams streams
             (StartTunnel s (hd (cc_pending_tcps w)) (w\<lparr>cc_pending_tcps := tl (cc_pending_tcps w)\<rparr>)))"

definition AssignNewTcp ::
    "opened_stream list \<Rightarrow> SocketFd \<Rightarrow> socket_address \<Rightarrow> socket_address option \<Rightarrow> 'a cc_handler" where
  "AssignNewTcp streams fd peer dest w =
     (if cc_closed w then w\<lparr>cc_closed_fds := cc_closed_fds w @ [fd]\<rparr>
      else let w = dcheck (cc_transparent w = (dest \<noteq> None)) w;
               w = w\<lparr>cc_pending_tcps := cc_pending_tcps w @ [\<lparr>pt_fd = fd, pt_peer = peer, pt_dest = dest\<rparr>]\<rparr>
           in MaybeOpenStreams streams w)"

section \<open>Events of the stream\<close>

definition client_OnStreamDataAvailable :: "send_result list \<Rightarrow> 'a cc_handler" where
  "client_OnStreamDataAvailable ss w =
     (case cc_delegates w (cc_id w) of
        None \<Rightarrow> w
      | Some _ \<Rightarrow> QuictunTunnel_OnStreamDataAvailable ss client_on_closed w)"

definition client_OnStreamCanWriteMore :: "recv_result list \<Rightarrow> 'a cc_handler" where
  "client_OnStreamCanWriteMore rs w =
     (case cc_delegates w (cc_id w) of
        None \<Rightarrow> w
      | Some _ \<Rightarrow> QuictunTunnel_OnStreamCanWriteMore rs client_on_closed w)"

end
