(* ===== verification/Client_Safety.thy ===== *)
theory Client_Safety
  imports Client_Connection "HOL-Library.Multiset"
begin

text \<open>
  What a client connection keeps of a stream once it is joined to its TCP connection, and
  what becomes of the descriptors it was given.
\<close>

section \<open>The owner of the tunnel\<close>

text \<open>The descriptors the connection was given: waiting, joined to a stream, or closed.\<close>

definition owned_fds :: "'a client_connection_scheme \<Rightarrow> SocketFd multiset" where
  "owned_fds w = mset (map pt_fd (cc_pending_tcps w)) + mset (map (sp_fd \<circ> snd) (cc_stream_tcps w)) +
     mset (map sp_fd (cc_closed_stream_tcps w)) + mset (cc_closed_fds w)"

definition tcp_ok :: "bool \<Rightarrow> 'a client_connection_scheme \<Rightarrow> bool" where
  "tcp_ok closed w \<longleftrightarrow>
     distinct (map fst (cc_stream_tcps w)) \<and> (cc_id w \<in> fst ` set (cc_stream_tcps w) \<longleftrightarrow> \<not> closed) \<and>
     (cc_delegates w (cc_id w) \<noteq> None \<longrightarrow> \<not> closed)"

definition cc_static :: "'a client_connection_scheme \<Rightarrow> _" where
  "cc_static w = (cc_id w, cc_psk w, cc_transparent w, cc_dest w)"

definition cc_config :: "'a client_connection_scheme \<Rightarrow> _" where
  "cc_config w =
     (cc_static w, owned_fds w, (cc_delegates w)(cc_id w := None), erase_tcp (cc_id w) (cc_stream_tcps w),
      cc_pending_tcps w, cc_closed_fds w, cc_has_on_closed w, cc_closed w, cc_close_calls w)"

definition client_owner where
  "client_owner cfg closed seed x \<longleftrightarrow>
     tcp_ok closed (tunnel.extend undefined x) \<and> seed = [] \<and> cc_config (tunnel.extend undefined x) = cfg"

lemma client_extend:
  fixes w :: "'a client_connection_scheme"
  shows "cc_id (tunnel.extend u (tunnel.more w)) = cc_id w" "cc_delegates (tunnel.extend u (tunnel.more w)) = cc_delegates w"
    "cc_psk (tunnel.extend u (tunnel.more w)) = cc_psk w" "cc_transparent (tunnel.extend u (tunnel.more w)) = cc_transparent w"
    "cc_pending_tcps (tunnel.extend u (tunnel.more w)) = cc_pending_tcps w"
    "cc_stream_tcps (tunnel.extend u (tunnel.more w)) = cc_stream_tcps w"
    "cc_closed_stream_tcps (tunnel.extend u (tunnel.more w)) = cc_closed_stream_tcps w"
    "cc_has_on_closed (tunnel.extend u (tunnel.more w)) = cc_has_on_closed w" "cc_closed (tunnel.extend u (tunnel.more w)) = cc_closed w"
    "cc_close_calls (tunnel.extend u (tunnel.more w)) = cc_close_calls w"
    "cc_closed_fds (tunnel.extend u (tunnel.more w)) = cc_closed_fds w" "cc_dest (tunnel.extend u (tunnel.more w)) = cc_dest w"
  by (cases w; simp add: tunnel.extend_def)+

lemma client_owner_iff:
  "client_owner cfg closed seed (tunnel.more w) \<longleftrightarrow> tcp_ok closed w \<and> seed = [] \<and> cc_config w = cfg"
  unfolding client_owner_def tcp_ok_def cc_config_def cc_static_def owned_fds_def client_extend by (rule refl)

section \<open>The callback of the tunnel\<close>

lemma erase_tcp_fds:
  assumes "distinct (map fst ts)" "map_of ts i = Some t"
  shows "mset (map (sp_fd \<circ> snd) ts) = add_mset (sp_fd t) (mset (map (sp_fd \<circ> snd) (erase_tcp i ts)))"
  using assms
proof (induction ts)
  case (Cons a ts)
  obtain j u where a: "a = (j, u)" by force
  show ?case
  proof (cases "j = i")
    case True
    then have "i \<notin> fst ` set ts" using Cons.prems a by auto
    then have "erase_tcp i ts = ts" by (force simp: erase_tcp_def intro: filter_True)
    then show ?thesis using Cons.prems a True by (simp add: erase_tcp_def)
  next
    case False
    then show ?thesis using Cons a by (simp add: erase_tcp_def)
  qed
qed simp

lemma erase_tcp_keys:
  "fst ` set (erase_tcp i ts) = fst ` set ts - {i}" "distinct (map fst ts) \<Longrightarrow> distinct (map fst (erase_tcp i ts))"
  "erase_tcp j (erase_tcp i ts) = erase_tcp i (erase_tcp j ts)" "erase_tcp i (erase_tcp i ts) = erase_tcp i ts"
  by (auto simp: erase_tcp_def distinct_map inj_on_def conj_commute image_iff)

lemma callback_frame: "tunnel.truncate (tcp_closed_callback i w) = tunnel.truncate w"
  by (simp add: tcp_closed_callback_def tunnel.truncate_def Let_def split: option.split)

lemma callback_facts:
  fixes w :: "'a client_connection_scheme"
  assumes d: "distinct (map fst (cc_stream_tcps w))" and v: "v = tcp_closed_callback i w"
  shows "owned_fds v = owned_fds w" "cc_stream_tcps v = erase_tcp i (cc_stream_tcps w)" "cc_static v = cc_static w"
    "cc_pending_tcps v = cc_pending_tcps w" "cc_closed_fds v = cc_closed_fds w" "cc_has_on_closed v = cc_has_on_closed w"
    "cc_closed v = cc_closed w" "cc_close_calls v = cc_close_calls w" "cc_id v = cc_id w"
    "cc_delegates v = (if i \<in> fst ` set (cc_stream_tcps w) then (cc_delegates w)(i := None) else cc_delegates w)"
proof -
  have e: "erase_tcp i (cc_stream_tcps w) = cc_stream_tcps w" if "map_of (cc_stream_tcps w) i = None"
    using that by (force simp: erase_tcp_def map_of_eq_None_iff intro: filter_True)
  have m: "map_of (cc_stream_tcps w) i = None \<longleftrightarrow> i \<notin> fst ` set (cc_stream_tcps w)" by (simp add: map_of_eq_None_iff)
  show "owned_fds v = owned_fds w"
    using erase_tcp_fds [OF d]
    by (auto simp: v tcp_closed_callback_def owned_fds_def Let_def split: option.split)
  show "cc_stream_tcps v = erase_tcp i (cc_stream_tcps w)" "cc_static v = cc_static w"
    "cc_pending_tcps v = cc_pending_tcps w" "cc_closed_fds v = cc_closed_fds w" "cc_has_on_closed v = cc_has_on_closed w"
    "cc_closed v = cc_closed w" "cc_close_calls v = cc_close_calls w" "cc_id v = cc_id w"
    using e by (auto simp: v tcp_closed_callback_def cc_static_def Let_def split: option.split)
  show "cc_delegates v = (if i \<in> fst ` set (cc_stream_tcps w) then (cc_delegates w)(i := None) else cc_delegates w)"
    using m by (auto simp: v tcp_closed_callback_def Let_def split: option.split)
qed

interpretation clt: tunnel_owner client_on_closed "client_owner cfg" for cfg
proof unfold_locales
  fix w :: "'a client_connection_scheme"
  show "tunnel.truncate (client_on_closed w) = tunnel.truncate w" by (simp add: client_on_closed_def callback_frame)
  assume "client_owner cfg False (tn_pending_seed_data w) (tunnel.more w)"
  then have o: "tcp_ok False w" "tn_pending_seed_data w = []" "cc_config w = cfg" by (simp_all add: client_owner_iff)
  then have d: "distinct (map fst (cc_stream_tcps w))" by (simp add: tcp_ok_def)
  note f = callback_facts [OF d client_on_closed_def]
  have "cc_config (client_on_closed w) = cc_config w"
    unfolding cc_config_def f by (simp add: erase_tcp_keys fun_upd_idem_iff)
  moreover have "tcp_ok True (client_on_closed w)"
    using o(1) unfolding tcp_ok_def f by (simp add: erase_tcp_keys)
  ultimately show "client_owner cfg True (tn_pending_seed_data w) (tunnel.more (client_on_closed w))"
    using o by (simp add: client_owner_iff)
qed

section \<open>The owner of the stream\<close>

lemma clear_tcp_delegate:
  fixes w :: "'a client_connection_scheme"
  assumes "v = w\<lparr>cc_delegates := (cc_delegates w)(cc_id w := None)\<rparr>"
  shows "tunnel.truncate v = tunnel.truncate w" "cc_config v = cc_config w" "tcp_ok c w \<Longrightarrow> tcp_ok c v" "tn_closed v = tn_closed w"
  by (simp_all add: assms tunnel.truncate_def cc_config_def cc_static_def owned_fds_def tcp_ok_def)

lemma cc_gone_safe: "safe_call (client_owner cfg) w (cc_gone w)"
proof (cases "cc_delegates w (cc_id w)")
  case None
  then show ?thesis by (simp add: client_OnStreamGone_def safe_call_refl)
next
  case (Some t)
  define v where "v = w\<lparr>cc_delegates := (cc_delegates w)(cc_id w := None)\<rparr>"
  note c = clear_tcp_delegate [OF v_def]
  have u: "cc_gone w = tn_gone client_on_closed v" using Some by (simp add: client_OnStreamGone_def v_def)
  show ?thesis unfolding safe_call_def
  proof
    assume ok: "tunnel_ok (client_owner cfg) w"
    then have o: "client_owner cfg (tn_closed w) (tn_pending_seed_data w) (tunnel.more w)"
      by (simp add: tunnel_ok_def tunnel_core_def closing_ok_def)
    then have nc: "\<not> tn_closed w" using Some by (auto simp: client_owner_iff tcp_ok_def)
    have "client_owner cfg (tn_closed w) (tn_pending_seed_data w) (tunnel.more v)" using o c by (simp add: client_owner_iff)
    then have v: "tunnel_ok (client_owner cfg) v" using tunnel_ok_owner [OF c(1) ok] by blast
    then have "tn_closed (tn_gone client_on_closed v)"
      using clt.close_ok(2) [of cfg v False] nc c(4) by (simp add: QuictunTunnel_OnStreamGone_def tunnel_ok_def)
    moreover have "tunnel_ok (client_owner cfg) (tn_gone client_on_closed v)" "undisturbed v (tn_gone client_on_closed v)"
      using clt.gone_safe [of cfg v] v by (simp_all add: safe_call_def)
    moreover have "kept_by_close w v" by (simp add: v_def kept_by_close_def)
    ultimately show "tunnel_ok (client_owner cfg) (cc_gone w) \<and> undisturbed w (cc_gone w)"
      using nc by (simp add: u undisturbed_def kept_by_close_def)
  qed
qed

lemma cc_gone_recv: "recv_keeps \<sigma> w (cc_gone w)"
proof -
  have "recv_keeps \<sigma> w (w\<lparr>cc_delegates := d\<rparr>)" for d by (rule recv_keeps_same) simp_all
  then show ?thesis using recv_keeps_trans [OF _ clt.gone_recv] recv_keeps_refl
    by (auto simp: client_OnStreamGone_def split: option.split)
qed

lemma cc_gone_send: "send_keeps w (cc_gone w)" "same_send w (cc_gone w)"
proof -
  have k: "send_keeps w (w\<lparr>cc_delegates := d\<rparr>)" "same_send w (w\<lparr>cc_delegates := d\<rparr>)" for d
    by (rule send_keeps_same; simp add: same_send_def) (simp add: same_send_def)
  show "send_keeps w (cc_gone w)"
    using send_keeps_trans [OF k(1) clt.gone_send(1)] send_keeps_refl by (auto simp: client_OnStreamGone_def split: option.split)
  show "same_send w (cc_gone w)"
    using quiet_same.R_trans [OF k(2) clt.gone_send(2)] quiet_same.R_refl
    by (auto simp: client_OnStreamGone_def split: option.split)
qed

interpretation cl: stream_owner "safe_call (client_owner cfg)" cc_gone for cfg
  by unfold_locales (erule (1) safe_call_trans, erule stream_only_safe, rule cc_gone_safe, rule cc_gone_recv, rule cc_gone_send,
    rule cc_gone_send)

text \<open>A stream without a delegate: nobody is told what happens to it.\<close>

definition unheard :: "'a client_connection_scheme \<Rightarrow> 'a client_connection_scheme \<Rightarrow> bool" where
  "unheard w w' \<longleftrightarrow> (cc_delegates w (cc_id w) = None \<longrightarrow> stream_only w w')"

lemma same_more_client:
  fixes v w :: "'a client_connection_scheme"
  assumes "quic_stream.more v = quic_stream.more w"
  shows "cc_delegates v = cc_delegates w" "cc_id v = cc_id w"
  using assms by (cases v; cases w; simp)+

interpretation deaf: stream_owner unheard cc_gone
proof unfold_locales
  show "unheard u w" if "unheard u v" "unheard v w" for u v w :: "'a client_connection_scheme"
    using that same_more_client [of v u] by (auto simp: unheard_def stream_only_def)
  show "unheard w w'" if "stream_only w w'" for w w' :: "'a client_connection_scheme"
    using that by (simp add: unheard_def)
  show "unheard w (cc_gone w)" for w :: "'a client_connection_scheme" by (simp add: unheard_def client_OnStreamGone_def stream_only_def)
qed (rule cc_gone_recv cc_gone_send)+

end
