(* ===== verification/Client_Events.thy ===== *)
theory Client_Events
  imports Client_Safety
begin

text \<open>
  Starting a tunnel on a new stream, and the client connection as a state machine.
\<close>

section \<open>The preamble\<close>

text \<open>The connection before the stream is opened.\<close>

definition client_ready :: "'a client_connection_scheme \<Rightarrow> bool" where
  "client_ready w \<longleftrightarrow>
     owner_ready (tn_id w) w \<and> \<not> cc_closed w \<and> distinct (map fst (cc_stream_tcps w)) \<and>
     cc_id w \<notin> fst ` set (cc_stream_tcps w) \<and> cc_delegates w (cc_id w) = None"

definition stream_ready :: "(nat \<Rightarrow> byte) \<Rightarrow> bytes \<Rightarrow> 'a quic_stream_scheme \<Rightarrow> bool" where
  "stream_ready \<sigma> D w \<longleftrightarrow> recv_ok \<sigma> 0 w \<and> (\<not> reading_stopped w \<longrightarrow> total_bytes_read (sq_buffer w) = 0) \<and> send_ok D w \<and> conn_ok w"

lemma new_stream_ready:
  assumes "owner_ready i w"
  shows "stream_ready \<sigma> [] (QuictunStream_new r sw w)" "\<not> st_fin_buffered (QuictunStream_new r sw w)"
    "\<not> st_write_side_closed (QuictunStream_new r sw w)" "quic_stream.more (QuictunStream_new r sw w) = quic_stream.more w"
proof -
  let ?x = "new_tunnel i False r sw w"
  have i: "tunnel_inv (\<lambda>_ _ _. True) \<sigma> 0 0 [] True ?x" by (rule new_tunnel_inv [OF assms]) simp
  have f: "tn_read ?x = []" "tn_from_tcp ?x = []" by (simp_all add: new_tunnel_def QuictunTunnel_new_def)
  have s: "stream_ready \<sigma> [] ?x = stream_ready \<sigma> [] (QuictunStream_new r sw w)"
    by (simp add: new_tunnel_def QuictunTunnel_new_def stream_ready_def recv_ok_def reading_stopped_def send_ok_def conn_ok_def
        QuicStream_BufferedDataBytes_def)
  have "stream_ready \<sigma> [] ?x" using i f by (simp add: stream_ready_def tunnel_inv_def recv_inv_def send_inv_def)
  then show "stream_ready \<sigma> [] (QuictunStream_new r sw w)" using s by simp
qed (simp_all add: QuictunStream_new_def QuicStream_new_def QuicStreamSequencer_new_def)

lemma lost_disconnects:
  fixes w :: "'a client_connection_scheme"
  assumes d: "cc_delegates w (cc_id w) = None"
  shows "\<not> cn_connected (cc_lost c w)"
proof -
  let ?R = "\<lambda>w w' :: 'a client_connection_scheme. cc_delegates w (cc_id w) = None \<longrightarrow> quic_stream.more w' = quic_stream.more w \<and> cn_connected w' = cn_connected w"
  have "stream_effects ?R cc_gone (\<lambda>_ w. w)"
  proof unfold_locales
    fix u v w :: "'a client_connection_scheme"
    show "?R u w" if "?R u v" "?R v w" using that same_more_client [of v u] by auto
  qed (simp_all add: client_OnStreamGone_def)
  from stream_effects.R_OnConnectionClosed [OF this] d show ?thesis by (simp add: connection_lost_def)
qed

lemma write_preamble_ready:
  fixes w :: "'a client_connection_scheme"
  assumes s: "stream_ready \<sigma> [] w" "\<not> st_fin_buffered w" "\<not> st_write_side_closed w" and d: "cc_delegates w (cc_id w) = None"
    and dest_def: "dest = (if cc_transparent w then pt_dest p else None)"
  shows "stream_only (w\<lparr>cc_dest := dest\<rparr>) (write_preamble p w)"
    "cn_connected (write_preamble p w) \<Longrightarrow> stream_ready \<sigma> (client_preamble (cc_psk w) dest) (write_preamble p w)"
proof -
  let ?v = "w\<lparr>cc_dest := dest\<rparr>" and ?D = "client_preamble (cc_psk w) dest"
  let ?w = "QuicStream_WriteOrBufferData cc_lost cc_gone ?D False ?v"
  have eq: "write_preamble p w = ?w" by (simp add: write_preamble_def dest_def QuictunStream_WriteToStream_def Let_def)
  have "unheard ?v ?w"
    by (rule stream_writes.R_WriteOrBufferData [OF deaf.C_writes])
      (auto simp: stream_only_def accept_data_def Let_def intro!: deaf.C_stream)
  then show "stream_only ?v (write_preamble p w)" using d by (simp add: eq unheard_def)
  have k: "recv_keeps \<sigma> ?v ?w"
    by (rule stream_writes.R_WriteOrBufferData [OF deaf.owner_recv_writes])
      (auto simp: accept_data_def Let_def intro!: recv_keeps_same)
  have v: "stream_ready \<sigma> [] ?v" "\<not> st_fin_buffered ?v" "\<not> st_write_side_closed ?v"
    using s by (simp_all add: stream_ready_def recv_ok_def reading_stopped_def send_ok_def conn_ok_def QuicStream_BufferedDataBytes_def)
  have ne: "?D \<noteq> []" by (simp add: client_preamble_def be16_def)
  assume con: "cn_connected (write_preamble p w)"
  have "send_ok ?D ?w \<and> conn_ok ?w"
  proof (cases "cc_lost :: QuicErrorCode \<Rightarrow> 'a cc_handler" "cc_gone :: 'a cc_handler" ?D False ?v rule: WriteOrBufferData_cases)
    case dropped
    then show ?thesis using ne v by simp
  next
    case overflow
    then show ?thesis using con d lost_disconnects [of "?v\<lparr>st_fin_buffered := False\<rparr>"] by (simp add: eq)
  next
    case accepted
    have "send_ok ([] @ ?D) (accept_data ?D False ?v)" by (rule accept_data_ok [OF _ accepted(2)]) (use v in \<open>simp add: stream_ready_def\<close>)
    moreover have "send_keeps (accept_data ?D False ?v) ?w"
      using accepted(1) send_keeps_refl stream_writes.R_WriteBufferedData [OF deaf.owner_send_writes] by metis
    moreover have "conn_ok (accept_data ?D False ?v)" using v by (simp add: conn_ok_def accept_data_def Let_def stream_ready_def)
    ultimately show ?thesis by (simp add: send_keeps_def data_keeps_def)
  qed
  then show "stream_ready \<sigma> ?D (write_preamble p w)"
    using v k unfolding eq by (auto simp: stream_ready_def recv_keeps_def)
qed

section \<open>Joining the tunnel\<close>

lemma joined_inv:
  fixes w :: "'a client_connection_scheme"
  assumes s: "stream_ready \<sigma> D w" and r: "owner_ready (tn_id w) w" and d: "distinct (map fst (cc_stream_tcps w))"
    and n: "cc_id w \<notin> fst ` set (cc_stream_tcps w)"
    and y: "y = (QuictunTunnel_new (tn_id w) True (QuictunAcceptedTcpSocket_new w))
      \<lparr>cc_stream_tcps := (cc_id w, t) # cc_stream_tcps w, cc_delegates := (cc_delegates w)(cc_id w \<mapsto> i)\<rparr>"
  shows "tunnel_inv (client_owner (cc_config y)) \<sigma> 0 0 D True y" "can_start y" "tn_pending_seed_data y = []"
proof -
  note defs = y QuictunTunnel_new_def QuictunAcceptedTcpSocket_new_def no_socket_def
  show "can_start y" "tn_pending_seed_data y = []" by (simp_all add: defs can_start_def)
  have "tcp_ok False y" using d n by (simp add: defs tcp_ok_def)
  then have o: "client_owner (cc_config y) False [] (tunnel.more y)" by (simp add: client_owner_iff)
  have f: "tn_closed y = False" "tn_pending_seed_data y = []" "tn_close_count y = 0" "tn_has_on_closed y" by (simp_all add: defs)
  have "tunnel_ok (client_owner (cc_config y)) y"
  proof (rule tunnel_okI)
    show "closing_ok (client_owner (cc_config y)) y" using o f by (simp add: closing_ok_def)
    show "bytes_ok y" "queue_ok y" "exact_ok y" by (simp_all add: defs bytes_ok_def queue_ok_def exact_ok_def)
    show "socket_ok y" using r by (simp add: defs socket_ok_def owner_ready_def unused_socket_def)
    show "tracking_ok y"
      using r is_linked_class [of "tn_id w" "tk_tracker w"] by (simp add: defs tracking_ok_def owner_ready_def)
  qed
  moreover have "recv_inv \<sigma> 0 0 y" "send_inv D y"
    using s by (simp_all add: defs stream_ready_def recv_inv_def recv_ok_def reading_stopped_def send_inv_def send_ok_def conn_ok_def
        send_done_def QuicStream_BufferedDataBytes_def)
  moreover have "alarm_ok y" by (simp add: defs alarm_ok_def)
  ultimately show "tunnel_inv (client_owner (cc_config y)) \<sigma> 0 0 D True y" by (simp add: tunnel_inv_def)
qed

lemma join_inv:
  fixes w :: "'a client_connection_scheme"
  assumes s: "stream_ready \<sigma> D w" and r: "owner_ready (tn_id w) w" and d: "distinct (map fst (cc_stream_tcps w))"
    and n: "cc_id w \<notin> fst ` set (cc_stream_tcps w)"
  shows "tunnel_inv (client_owner (cc_config (join_tunnel a p w))) \<sigma> 0 0 D True (join_tunnel a p w)"
    "cc_static (join_tunnel a p w) = cc_static w" "owned_fds (join_tunnel a p w) = add_mset (pt_fd p) (owned_fds w)"
proof -
  define y where "y = (QuictunTunnel_new (tn_id w) True (QuictunAcceptedTcpSocket_new w))
      \<lparr>cc_stream_tcps := (cc_id w, \<lparr>sp_fd = pt_fd p, sp_tunnel = tn_id w, sp_socket_disconnected = False\<rparr>) # cc_stream_tcps w,
       cc_delegates := (cc_delegates w)(cc_id w \<mapsto> tn_id w)\<rparr>"
  note defs = y_def QuictunTunnel_new_def QuictunAcceptedTcpSocket_new_def no_socket_def
  note y = joined_inv [OF s r d n y_def]
  have j: "join_tunnel a p w = QuictunTunnel_Start (sr_recv a) (sr_send a) client_on_closed [] y"
    by (simp add: join_tunnel_def defs Let_def)
  have "tunnel_inv (client_owner (cc_config y)) \<sigma> 0 0 D True (join_tunnel a p w)"
    unfolding j by (rule clt.start_inv [OF y(1,2)]) (simp add: y(3))
  moreover from this have c: "cc_config (join_tunnel a p w) = cc_config y"
    using inv_parts(5) by (fastforce simp: closing_ok_def client_owner_iff)
  ultimately show "tunnel_inv (client_owner (cc_config (join_tunnel a p w))) \<sigma> 0 0 D True (join_tunnel a p w)" by simp
  show "cc_static (join_tunnel a p w) = cc_static w" "owned_fds (join_tunnel a p w) = add_mset (pt_fd p) (owned_fds w)"
    using c by (simp_all add: cc_config_def) (simp_all add: defs cc_static_def owned_fds_def)
qed

section \<open>The stream of a joined tunnel\<close>

definition client_available :: "send_result list \<Rightarrow> 'a cc_handler" where
  "client_available ss = QuictunStream_OnDataAvailable (client_OnStreamDataAvailable ss)"

definition client_can_write :: "recv_result list \<Rightarrow> 'a cc_handler" where
  "client_can_write rs = QuictunStream_OnCanWriteNewData (client_OnStreamCanWriteMore rs)"

lemma client_available_cases:
  "client_available ss w = w \<or> client_available ss w = data_available ss client_on_closed w"
  "client_can_write rs w = w \<or> client_can_write rs w = can_write_more rs client_on_closed w"
  by (simp_all add: client_available_def client_can_write_def data_available_def can_write_more_def QuictunStream_OnDataAvailable_def
      QuictunStream_OnCanWriteNewData_def client_OnStreamDataAvailable_def client_OnStreamCanWriteMore_def split: option.split)

interpretation cli: stream_invariant "safe_call (client_owner cfg)" cc_gone "\<lambda>m. tunnel_inv (client_owner cfg) \<sigma> 0 m D True" \<sigma>
    "client_available ss" "client_can_write rs" for cfg \<sigma> D ss rs
proof unfold_locales
  fix m n and w w' :: "'a client_connection_scheme"
  let ?I = "\<lambda>m. tunnel_inv (client_owner cfg) \<sigma> 0 m D True"
  show "?I m w'" if "?I m w" "safe_call (client_owner cfg) w w'" "recv_keeps \<sigma> w w'" "send_keeps w w'"
    using clt.own_inv.I_call [OF that] .
  show "recv_ok \<sigma> m w" "separated_list (pending_retransmissions (st_send w))" if "?I m w"
    using clt.own_inv.I_recv [OF that] clt.own_inv.I_send [OF that] .
  show "?I n w" if "?I m w" "n \<le> total_bytes_read (sq_buffer w)" using clt.own_inv.I_bound [OF that] .
  show "?I m (client_available ss w)" "?I m (client_can_write rs w)" if "?I m w"
    using client_available_cases clt.data_available_inv clt.can_write_more_inv that by metis+
qed

section \<open>Closing\<close>

text \<open>A stream that is joined to its tunnel, and one that is not yet.\<close>

definition joined :: "(nat \<Rightarrow> byte) \<Rightarrow> bytes \<Rightarrow> nat \<Rightarrow> 'a client_connection_scheme \<Rightarrow> bool" where
  "joined \<sigma> D m w \<longleftrightarrow> tunnel_inv (client_owner (cc_config w)) \<sigma> 0 m D True w"

definition unjoined :: "'a client_connection_scheme \<Rightarrow> bool" where
  "unjoined w \<longleftrightarrow>
     distinct (map fst (cc_stream_tcps w)) \<and> cc_id w \<notin> fst ` set (cc_stream_tcps w) \<and> cc_delegates w (cc_id w) = None"

definition client_keep :: "'a client_connection_scheme \<Rightarrow> 'a client_connection_scheme \<Rightarrow> bool" where
  "client_keep w w' \<longleftrightarrow>
     owned_fds w' = owned_fds w \<and> cc_static w' = cc_static w \<and> cc_pending_tcps w' = cc_pending_tcps w \<and>
     cc_closed_fds w' = cc_closed_fds w \<and> cc_has_on_closed w' = cc_has_on_closed w \<and> cc_closed w' = cc_closed w \<and>
     cc_close_calls w' = cc_close_calls w"

abbreviation tcp_keys :: "'a client_connection_scheme \<Rightarrow> QuicStreamId set" where
  "tcp_keys w \<equiv> fst ` set (cc_stream_tcps w)"

lemma config_keep: "cc_config w' = cc_config w \<Longrightarrow> client_keep w w'"
  by (simp add: cc_config_def client_keep_def)

lemma client_keep_trans: "client_keep u v \<Longrightarrow> client_keep v w \<Longrightarrow> client_keep u w"
  by (simp add: client_keep_def)

lemma joined_owner: "joined \<sigma> D m w \<Longrightarrow> tcp_ok (tn_closed w) w \<and> tn_pending_seed_data w = []"
  using inv_parts(5) [of "client_owner (cc_config w)" \<sigma> 0 m D True w] by (simp add: joined_def closing_ok_def client_owner_iff)

lemma joined_step:
  assumes "tunnel_inv (client_owner (cc_config w)) \<sigma> 0 m D True w'"
  shows "joined \<sigma> D m w'" "cc_config w' = cc_config w"
proof -
  show c: "cc_config w' = cc_config w" using inv_parts(5) [OF assms] by (simp add: closing_ok_def client_owner_iff)
  then show "joined \<sigma> D m w'" using assms by (simp add: joined_def)
qed

lemma joined_change:
  fixes v w :: "'a client_connection_scheme"
  assumes i: "joined \<sigma> D m w" and t: "tunnel.truncate v = tunnel.truncate w" and o: "tcp_ok (tn_closed w) v"
  shows "joined \<sigma> D m v"
proof -
  have w: "tunnel_inv (client_owner (cc_config w)) \<sigma> 0 m D True w" using i by (simp add: joined_def)
  then have ok: "tunnel_ok (client_owner (cc_config w)) w" by (simp add: tunnel_inv_def)
  have "tunnel_ok (client_owner (cc_config v)) v"
    by (rule tunnel_ok_owner [OF t ok]) (use o joined_owner [OF i] in \<open>simp add: client_owner_iff\<close>)
  moreover have "same_stream w v" using t by (simp add: same_stream_def quic_stream.truncate_def tunnel.truncate_def)
  moreover have "alarm_ok v = alarm_ok w" using t by (simp add: alarm_ok_def tunnel.truncate_def)
  ultimately show ?thesis using w same_stream_inv [of w v] by (simp add: joined_def tunnel_inv_def)
qed

lemma close_tcp_joined:
  fixes w :: "'a client_connection_scheme"
  assumes i: "joined \<sigma> D m w" and v: "v = close_tcp_of j w"
  shows "joined \<sigma> D m v \<and> client_keep w v \<and> tcp_keys v = tcp_keys w - {j}"
proof -
  note o = joined_owner [OF i]
  then have d: "distinct (map fst (cc_stream_tcps w))" by (simp add: tcp_ok_def)
  have m: "map_of (cc_stream_tcps w) j = None \<longleftrightarrow> j \<notin> tcp_keys w" by (simp add: map_of_eq_None_iff)
  consider (none) "v = w" "j \<notin> tcp_keys w" | (own) "j = cc_id w" "j \<in> tcp_keys w"
    | (other) "j \<noteq> cc_id w" "v = tcp_closed_callback j w"
    using v [unfolded close_tcp_of_def] m by (auto split: if_splits)
  then show ?thesis
  proof cases
    case none
    then show ?thesis using i by (simp add: client_keep_def)
  next
    case own
    have nc: "\<not> tn_closed w" using o own by (simp add: tcp_ok_def)
    have e: "v = QuictunTunnel_Close client_on_closed False w" using own m nc by (auto simp: v close_tcp_of_def)
    have t: "tunnel_inv (client_owner (cc_config w)) \<sigma> 0 m D True v" unfolding e
      by (rule clt.close_tunnel_inv(1)) (use i nc in \<open>simp_all add: joined_def\<close>)
    have core: "tunnel_core (client_owner (cc_config w)) w" using i by (simp add: joined_def tunnel_inv_def tunnel_ok_def)
    have c: "tn_closed v" unfolding e by (rule clt.close_ok(2) [OF core nc])
    note js = joined_step [OF t]
    have "cc_id v \<notin> tcp_keys v" using joined_owner [OF js(1)] c by (simp add: tcp_ok_def)
    moreover have e': "erase_tcp (cc_id v) (cc_stream_tcps v) = erase_tcp (cc_id w) (cc_stream_tcps w)" "cc_id v = cc_id w"
      using js(2) unfolding cc_config_def cc_static_def prod.inject by blast+
    moreover have "tcp_keys v - {cc_id v} = tcp_keys w - {cc_id w}"
      using erase_tcp_keys(1) [of "cc_id v" "cc_stream_tcps v"] erase_tcp_keys(1) [of "cc_id w" "cc_stream_tcps w"] e' by simp
    ultimately have "tcp_keys v = tcp_keys w - {j}" using own by simp
    then show ?thesis using js config_keep by blast
  next
    case other
    note f = callback_facts [OF d other(2)]
    have "tcp_ok (tn_closed w) v" using o other(1) d unfolding tcp_ok_def f by (simp add: erase_tcp_keys)
    then have "joined \<sigma> D m v" using joined_change [OF i] callback_frame other(2) by blast
    then show ?thesis using f erase_tcp_keys(1) by (simp add: client_keep_def)
  qed
qed

lemma close_tcp_unjoined:
  fixes w :: "'a client_connection_scheme"
  assumes i: "unjoined w" and v: "v = close_tcp_of j w"
  shows "unjoined v \<and> client_keep w v \<and> tcp_keys v = tcp_keys w - {j}"
proof -
  have d: "distinct (map fst (cc_stream_tcps w))" using i by (simp add: unjoined_def)
  have m: "map_of (cc_stream_tcps w) j = None \<longleftrightarrow> j \<notin> tcp_keys w" by (simp add: map_of_eq_None_iff)
  consider (none) "v = w" "j \<notin> tcp_keys w" | (other) "j \<noteq> cc_id w" "v = tcp_closed_callback j w"
    using v [unfolded close_tcp_of_def] m i by (auto simp: unjoined_def split: if_splits)
  then show ?thesis
  proof cases
    case none
    then show ?thesis using i by (simp add: client_keep_def)
  next
    case other
    note f = callback_facts [OF d other(2)]
    then show ?thesis using i other(1) erase_tcp_keys by (simp add: client_keep_def unjoined_def)
  qed
qed

lemma close_all_tcps:
  assumes step: "\<And>w j. J w \<Longrightarrow> J (close_tcp_of j w) \<and> client_keep w (close_tcp_of j w) \<and> tcp_keys (close_tcp_of j w) = tcp_keys w - {j}"
    and "J w"
  shows "J (fold close_tcp_of ids w) \<and> client_keep w (fold close_tcp_of ids w) \<and> tcp_keys (fold close_tcp_of ids w) = tcp_keys w - set ids"
  using assms(2)
proof (induction ids arbitrary: w)
  case Nil
  then show ?case by (simp add: client_keep_def)
next
  case (Cons j ids)
  note one = step [OF Cons.prems, of j]
  from Cons.IH [of "close_tcp_of j w"] one show ?case using client_keep_trans by auto
qed

text \<open>What is left of a close, once every tunnel is closed.\<close>

definition finish_close :: "'a cc_handler" where
  "finish_close w =
     (let w = w\<lparr>cc_closed_fds := cc_closed_fds w @ map (sp_fd \<circ> snd) (cc_stream_tcps w), cc_stream_tcps := [],
                cc_stream_garbage_alarm := None\<rparr>;
          w = w\<lparr>cc_closed_fds := cc_closed_fds w @ map pt_fd (cc_pending_tcps w), cc_pending_tcps := []\<rparr>
      in if cc_has_on_closed w then w\<lparr>cc_has_on_closed := False, cc_close_calls := cc_close_calls w + 1\<rparr> else w)"

lemma finish_facts:
  "owned_fds (finish_close w) = owned_fds w" "cc_static (finish_close w) = cc_static w" "cc_closed (finish_close w) = cc_closed w"
  "cc_stream_tcps (finish_close w) = []" "cc_pending_tcps (finish_close w) = []" "cc_id (finish_close w) = cc_id w"
  "cc_close_calls (finish_close w) = cc_close_calls w + (if cc_has_on_closed w then 1 else 0)" "\<not> cc_has_on_closed (finish_close w)"
  "cc_delegates (finish_close w) = cc_delegates w" "tunnel.truncate (finish_close w) = tunnel.truncate w"
  by (simp_all add: finish_close_def owned_fds_def cc_static_def Let_def tunnel.truncate_def)

definition closed_from :: "'a client_connection_scheme \<Rightarrow> 'a client_connection_scheme \<Rightarrow> bool" where
  "closed_from w v \<longleftrightarrow>
     owned_fds v = owned_fds w \<and> cc_static v = cc_static w \<and> cc_closed v \<and> cc_stream_tcps v = [] \<and> cc_pending_tcps v = [] \<and>
     cc_close_calls v = cc_close_calls w + (if cc_has_on_closed w then 1 else 0) \<and> \<not> cc_has_on_closed v"

lemma close_general:
  assumes n: "\<not> cc_closed w"
    and lost: "J (cc_lost QUIC_NO_ERROR (w\<lparr>cc_closed := True\<rparr>))" "client_keep (w\<lparr>cc_closed := True\<rparr>) (cc_lost QUIC_NO_ERROR (w\<lparr>cc_closed := True\<rparr>))"
    and step: "\<And>w j. J w \<Longrightarrow> J (close_tcp_of j w) \<and> client_keep w (close_tcp_of j w) \<and> tcp_keys (close_tcp_of j w) = tcp_keys w - {j}"
    and fin: "\<And>w. J w \<Longrightarrow> cc_stream_tcps w = [] \<Longrightarrow> J (finish_close w)"
  shows "J (QuictunClientConnection_Close w)" "closed_from w (QuictunClientConnection_Close w)"
proof -
  define u where "u = cc_lost QUIC_NO_ERROR (w\<lparr>cc_closed := True\<rparr>)"
  define v where "v = fold close_tcp_of (map fst (cc_stream_tcps u)) u"
  have eq: "QuictunClientConnection_Close w = finish_close v"
    using n by (simp add: QuictunClientConnection_Close_def finish_close_def u_def v_def Let_def)
  note all = close_all_tcps [of J, OF step lost(1) [folded u_def], of "map fst (cc_stream_tcps u)", folded v_def]
  then have e: "cc_stream_tcps v = []" by simp
  show "J (QuictunClientConnection_Close w)" unfolding eq using fin all e by blast
  have "owned_fds (w\<lparr>cc_closed := True\<rparr>) = owned_fds w" "cc_static (w\<lparr>cc_closed := True\<rparr>) = cc_static w"
    by (simp_all add: owned_fds_def cc_static_def)
  then show "closed_from w (QuictunClientConnection_Close w)"
    using all lost(2) unfolding eq u_def [symmetric] by (simp add: closed_from_def client_keep_def finish_facts)
qed

lemma same_more_keep:
  fixes v w :: "'a client_connection_scheme"
  assumes "quic_stream.more v = quic_stream.more w"
  shows "client_keep w v" "unjoined w \<Longrightarrow> unjoined v"
  using assms by (cases v; cases w; simp add: client_keep_def owned_fds_def cc_static_def unjoined_def)+

lemma lost_unjoined:
  fixes w :: "'a client_connection_scheme"
  assumes "unjoined w"
  shows "quic_stream.more (cc_lost c w) = quic_stream.more w"
  using stream_effects.R_lost [OF deaf.C_effects, of w c] assms by (simp add: unheard_def unjoined_def stream_only_def)

lemma close_unjoined:
  fixes w :: "'a client_connection_scheme"
  assumes i: "unjoined w" and n: "\<not> cc_closed w"
  shows "unjoined (QuictunClientConnection_Close w) \<and> closed_from w (QuictunClientConnection_Close w)"
proof -
  let ?w = "w\<lparr>cc_closed := True\<rparr>"
  have u: "unjoined ?w" using i by (simp add: unjoined_def)
  note m = same_more_keep [OF lost_unjoined [OF u, of QUIC_NO_ERROR]]
  have fin: "unjoined (finish_close v)" if "unjoined v" for v :: "'a client_connection_scheme"
    using that by (simp add: unjoined_def finish_facts)
  show ?thesis
    using close_general [where J = unjoined, OF n m(2) [OF u] m(1)] close_tcp_unjoined fin by blast
qed

lemma close_joined:
  fixes w :: "'a client_connection_scheme"
  assumes i: "joined \<sigma> D m w" and n: "\<not> cc_closed w"
  shows "joined \<sigma> D m (QuictunClientConnection_Close w) \<and> closed_from w (QuictunClientConnection_Close w)"
proof -
  let ?w = "w\<lparr>cc_closed := True\<rparr>"
  have u: "joined \<sigma> D m ?w"
    by (rule joined_change [OF i]) (use joined_owner [OF i] in \<open>simp_all add: tunnel.truncate_def tcp_ok_def\<close>)
  have l: "tunnel_inv (client_owner (cc_config ?w)) \<sigma> 0 m D True (cc_lost QUIC_NO_ERROR ?w)"
    by (rule cli.I_stream_events(5)) (use u in \<open>simp add: joined_def\<close>)
  have fin: "joined \<sigma> D m (finish_close v)" if v: "joined \<sigma> D m v" "cc_stream_tcps v = []" for v :: "'a client_connection_scheme"
    by (rule joined_change [OF v(1) finish_facts(10)])
      (use joined_owner [OF v(1)] v(2) in \<open>auto simp: tcp_ok_def finish_facts\<close>)
  show ?thesis
    using close_general [where J = "joined \<sigma> D m", OF n joined_step(1) [OF l] config_keep [OF joined_step(2) [OF l]]]
      close_tcp_joined fin by blast
qed

section \<open>Starting tunnels\<close>

lemma drop_fd:
  assumes v: "v = w\<lparr>cc_closed_fds := cc_closed_fds w @ [fd]\<rparr>"
  shows "owned_fds v = add_mset fd (owned_fds w)" "cc_static v = cc_static w" "unjoined v = unjoined w" "cc_closed v = cc_closed w"
    "tunnel.truncate v = tunnel.truncate w" "cc_stream_tcps v = cc_stream_tcps w" "cc_id v = cc_id w" "cc_delegates v = cc_delegates w"
  by (simp_all add: v owned_fds_def cc_static_def unjoined_def tunnel.truncate_def)

lemma start_own:
  fixes v :: "'a client_connection_scheme"
  assumes r: "client_ready v" and w: "w = StartTunnel (OwnStream a) p v"
    and dest: "dest = (if cc_transparent v then pt_dest p else None)"
  shows "owned_fds w = add_mset (pt_fd p) (owned_fds v) \<and> cc_id w = cc_id v \<and> cc_psk w = cc_psk v \<and>
    (cc_closed w \<and> unjoined w \<or> joined \<sigma> (client_preamble (cc_psk v) dest) 0 w \<and> cc_dest w = dest)"
proof -
  define u where "u = QuictunStream_new (sr_receive_window a) (sr_send_window a) v"
  have ro: "owner_ready (tn_id v) v" using r by (simp add: client_ready_def)
  note new = new_stream_ready(1) [OF ro, of \<sigma> "sr_receive_window a" "sr_send_window a", folded u_def]
    new_stream_ready(2-4) [OF ro, of "sr_receive_window a" "sr_send_window a", folded u_def]
  have now: "cn_now u = cn_now v" by (simp add: u_def QuictunStream_new_def QuicStream_new_def QuicStreamSequencer_new_def)
  note mu = same_more_client [OF new(4)] same_more_keep [OF new(4)] same_more [OF new(4)]
  have d: "cc_delegates u (cc_id u) = None" using mu(1,2) r by (simp add: client_ready_def)
  have st: "cc_static u = cc_static v" "owned_fds u = owned_fds v" using mu(3) by (simp_all add: client_keep_def)
  then have dst: "dest = (if cc_transparent u then pt_dest p else None)" and psk: "cc_psk u = cc_psk v" "cc_id u = cc_id v"
    using dest by (simp_all add: cc_static_def)
  define x where "x = write_preamble p u"
  have so: "stream_only (u\<lparr>cc_dest := dest\<rparr>) x" unfolding x_def by (rule write_preamble_ready(1) [OF new(1-3) d dst])
  then have more: "quic_stream.more x = quic_stream.more (u\<lparr>cc_dest := dest\<rparr>)" by (simp add: stream_only_def)
  have uj: "unjoined u" using r mu(4) by (simp add: client_ready_def unjoined_def)
  then have ux: "unjoined x" and kx: "client_keep (u\<lparr>cc_dest := dest\<rparr>) x"
    using same_more_keep [OF more] by (simp_all add: unjoined_def)
  have "owned_fds (u\<lparr>cc_dest := dest\<rparr>) = owned_fds u" by (simp add: owned_fds_def)
  then have x: "owned_fds x = owned_fds v" "cc_id x = cc_id v" "cc_psk x = cc_psk v" "cc_dest x = dest" "\<not> cc_closed x"
    using kx psk st mu(3) r by (simp_all add: client_keep_def cc_static_def client_ready_def)
  show ?thesis
  proof (cases "cn_connected x")
    case True
    have ready: "owner_ready (tn_id x) x"
      using ro True so now same_more [OF more] same_more [OF new(4)]
      by (simp add: owner_ready_def unused_socket_def stream_only_def)
    have "stream_ready \<sigma> (client_preamble (cc_psk v) dest) x"
      using write_preamble_ready(2) [OF new(1-3) d dst] True psk by (simp add: x_def)
    note j = join_inv [OF this ready, of a p]
    have "w = join_tunnel a p x" using True x(5) w by (simp add: StartTunnel_own_def notify_closed_def u_def x_def Let_def)
    then show ?thesis using j ux x by (simp add: joined_def unjoined_def cc_static_def)
  next
    case False
    note c = close_unjoined [OF ux x(5)]
    then have e: "w = (QuictunClientConnection_Close x)\<lparr>cc_closed_fds := cc_closed_fds (QuictunClientConnection_Close x) @ [pt_fd p]\<rparr>"
      using False w by (simp add: StartTunnel_own_def notify_closed_def QuictunClientConnection_OnConnectionClosed_def u_def x_def
          closed_from_def Let_def)
    show ?thesis using drop_fd [OF e] c x by (simp add: closed_from_def cc_static_def)
  qed
qed

text \<open>\<open>grown fds ids w v\<close>: \<open>v\<close> has the descriptors of \<open>w\<close> and \<open>fds\<close>, and no new entry but for \<open>ids\<close>.\<close>

definition grown :: "SocketFd multiset \<Rightarrow> QuicStreamId set \<Rightarrow> 'a client_connection_scheme \<Rightarrow> 'a client_connection_scheme \<Rightarrow> bool" where
  "grown fds ids w v \<longleftrightarrow> owned_fds v = fds + owned_fds w \<and> cc_static v = cc_static w \<and> tcp_keys v \<subseteq> ids \<union> tcp_keys w"

lemma grown_refl: "grown {#} {} w w"
  by (simp add: grown_def)

lemma subset_chain: "A \<subseteq> I \<union> B \<Longrightarrow> C \<subseteq> J \<union> A \<Longrightarrow> C \<subseteq> J \<union> I \<union> B"
  by blast

lemma grown_trans: "grown f ids u v \<Longrightarrow> grown g jds v w \<Longrightarrow> grown (g + f) (jds \<union> ids) u w"
  using subset_chain [of "tcp_keys v" ids "tcp_keys u" "tcp_keys w" jds] by (simp add: grown_def add.assoc)

lemma notify_joined:
  fixes w :: "'a client_connection_scheme"
  assumes i: "joined \<sigma> D m w"
  shows "joined \<sigma> D m (notify_closed w) \<and> grown {#} {} w (notify_closed w)"
  using close_joined [OF i] i
  by (cases "cc_closed w") (auto simp: notify_closed_def QuictunClientConnection_OnConnectionClosed_def closed_from_def grown_def
      QuictunClientConnection_Close_def)

lemma joined_lost:
  fixes w :: "'a client_connection_scheme"
  assumes i: "joined \<sigma> D m w"
  shows "joined \<sigma> D m (cc_lost c w) \<and> cc_config (cc_lost c w) = cc_config w \<and> (tn_closed w \<longrightarrow> tn_closed (cc_lost c w))"
proof -
  have "tunnel_inv (client_owner (cc_config w)) \<sigma> 0 m D True (cc_lost c w)"
    by (rule cli.I_stream_events(5)) (use i in \<open>simp add: joined_def\<close>)
  moreover have "safe_call (client_owner (cc_config w)) w (cc_lost c w)" by (rule stream_effects.R_lost [OF cl.C_effects])
  then have "tn_closed w \<longrightarrow> tn_closed (cc_lost c w)"
    using i by (simp add: safe_call_def joined_def tunnel_inv_def undisturbed_def)
  ultimately show ?thesis using joined_step by blast
qed

lemma same_but_one: "A - {i} = B - {i} \<Longrightarrow> i \<in> A \<longrightarrow> i \<in> B \<Longrightarrow> A \<subseteq> B"
  by blast

lemma config_keys:
  assumes i: "joined \<sigma> D m w" "joined \<sigma> D m v" and c: "cc_config v = cc_config w" and t: "tn_closed w \<longrightarrow> tn_closed v"
  shows "grown {#} {} w v"
proof -
  have e: "erase_tcp (cc_id v) (cc_stream_tcps v) = erase_tcp (cc_id w) (cc_stream_tcps w)" "cc_static v = cc_static w" "owned_fds v = owned_fds w"
    using c unfolding cc_config_def prod.inject by blast+
  have "tcp_keys v - {cc_id w} = tcp_keys w - {cc_id w}"
    using erase_tcp_keys(1) [of "cc_id v" "cc_stream_tcps v"] erase_tcp_keys(1) [of "cc_id w" "cc_stream_tcps w"] e
    by (simp add: cc_static_def)
  moreover have "cc_id w \<in> tcp_keys v \<longrightarrow> cc_id w \<in> tcp_keys w"
    using joined_owner [OF i(1)] joined_owner [OF i(2)] t e(2) by (auto simp: tcp_ok_def cc_static_def)
  ultimately have "tcp_keys v \<subseteq> tcp_keys w" by (rule same_but_one)
  then show ?thesis using e by (simp add: grown_def)
qed

lemma start_other:
  fixes w :: "'a client_connection_scheme"
  assumes i: "joined \<sigma> D m w" and j: "j \<noteq> cc_id w" "j \<notin> tcp_keys w" and v: "v = StartTunnel_other j t connected p w"
  shows "joined \<sigma> D m v \<and> grown {#pt_fd p#} {j} w v"
proof -
  define u where "u = (if connected then w else notify_closed (cc_lost QUIC_INTERNAL_ERROR w))"
  have l: "joined \<sigma> D m (cc_lost QUIC_INTERNAL_ERROR w)" "grown {#} {} w (cc_lost QUIC_INTERNAL_ERROR w)"
    using joined_lost [OF i, of QUIC_INTERNAL_ERROR] config_keys [OF i] by blast+
  have u: "joined \<sigma> D m u" "grown {#} {} w u"
    using i l notify_joined [OF l(1)] grown_trans [OF l(2)] grown_refl by (auto simp: u_def)
  show ?thesis
  proof (cases "cc_closed u")
    case True
    then have e: "v = u\<lparr>cc_closed_fds := cc_closed_fds u @ [pt_fd p]\<rparr>" by (simp add: v StartTunnel_other_def u_def Let_def)
    note f = drop_fd [OF e]
    have "joined \<sigma> D m v" by (rule joined_change [OF u(1) f(5)]) (use joined_owner [OF u(1)] f in \<open>simp add: tcp_ok_def\<close>)
    moreover have "grown {#pt_fd p#} {j} u v" by (simp add: grown_def f subset_insertI)
    ultimately show ?thesis using grown_trans [OF u(2)] by simp
  next
    case False
    then have e: "v = u\<lparr>cc_stream_tcps := (j, \<lparr>sp_fd = pt_fd p, sp_tunnel = t, sp_socket_disconnected = False\<rparr>) # cc_stream_tcps u,
        cc_delegates := (cc_delegates u)(j \<mapsto> t)\<rparr>" by (simp add: v StartTunnel_other_def u_def Let_def)
    have k: "j \<notin> tcp_keys u" "cc_id u \<noteq> j" using u(2) j by (auto simp: grown_def cc_static_def subset_iff)
    have "joined \<sigma> D m v"
      by (rule joined_change [OF u(1)]) (use joined_owner [OF u(1)] k in \<open>simp_all add: e tunnel.truncate_def tcp_ok_def\<close>)
    moreover have "grown {#pt_fd p#} {j} u v" by (simp add: e grown_def owned_fds_def cc_static_def)
    ultimately show ?thesis using grown_trans [OF u(2)] by simp
  qed
qed

section \<open>Opening streams for the others\<close>

type_synonym new_stream = "QuicStreamId \<times> tunnel_id \<times> bool"

fun other_stream :: "new_stream \<Rightarrow> opened_stream" where
  "other_stream (i, t, connected) = OtherStreamOpened i t connected"

definition fresh_streams :: "new_stream list \<Rightarrow> 'a client_connection_scheme \<Rightarrow> bool" where
  "fresh_streams streams w \<longleftrightarrow>
     distinct (map fst streams) \<and> list_all (\<lambda>i. i \<noteq> cc_id w \<and> i \<notin> fst ` set (cc_stream_tcps w)) (map fst streams)"

lemma fresh_streams_iff:
  "fresh_streams streams w \<longleftrightarrow> distinct (map fst streams) \<and> fst ` set streams \<inter> insert (cc_id w) (tcp_keys w) = {}"
  unfolding fresh_streams_def list_all_iff set_map by blast

lemma pop_pending:
  fixes w :: "'a client_connection_scheme"
  assumes i: "joined \<sigma> D m w" and p: "cc_pending_tcps w = p # ps" and u: "u = w\<lparr>cc_pending_tcps := ps\<rparr>"
  shows "joined \<sigma> D m u" "owned_fds w = add_mset (pt_fd p) (owned_fds u)" "cc_static u = cc_static w" "cc_stream_tcps u = cc_stream_tcps w"
proof -
  show "joined \<sigma> D m u" by (rule joined_change [OF i]) (use joined_owner [OF i] in \<open>simp_all add: u tunnel.truncate_def tcp_ok_def\<close>)
qed (simp_all add: u p owned_fds_def cc_static_def)

lemma fresh_step: "A \<inter> insert i B = {} \<Longrightarrow> j \<notin> A \<Longrightarrow> C \<subseteq> {j} \<union> B \<Longrightarrow> A \<inter> insert i C = {}"
  by blast

lemma open_others:
  fixes w :: "'a client_connection_scheme"
  assumes "joined \<sigma> D m w" "fresh_streams streams w"
  shows "joined \<sigma> D m (MaybeOpenStreams (map other_stream streams) w) \<and>
    grown {#} (fst ` set streams) w (MaybeOpenStreams (map other_stream streams) w)"
  using assms
proof (induction streams arbitrary: w)
  case Nil
  then show ?case by (simp add: grown_def)
next
  case (Cons s streams)
  obtain j t c where s: "s = (j, t, c)" by (cases s)
  show ?case
  proof (cases "cc_closed w \<or> cc_pending_tcps w = []")
    case True
    then show ?thesis using Cons.prems by (auto simp: grown_def)
  next
    case False
    then obtain p ps where p: "cc_pending_tcps w = p # ps" by (cases "cc_pending_tcps w") auto
    define u where "u = w\<lparr>cc_pending_tcps := ps\<rparr>"
    note pop = pop_pending [OF Cons.prems(1) p u_def]
    have id: "cc_id u = cc_id w" using pop(3) by (simp add: cc_static_def)
    have fr: "distinct (map fst streams)" "j \<notin> fst ` set streams" "fst ` set streams \<inter> insert (cc_id w) (tcp_keys w) = {}"
      "j \<noteq> cc_id w" "j \<notin> tcp_keys w" using Cons.prems(2) by (simp_all add: s fresh_streams_iff)
    define x where "x = StartTunnel_other j t c p u"
    have x: "joined \<sigma> D m x" "grown {#pt_fd p#} {j} u x" using start_other [OF pop(1) _ _ x_def] fr pop id by simp_all
    then have g: "grown {#} {j} w x" using pop by (simp add: grown_def)
    have "fst ` set streams \<inter> insert (cc_id x) (tcp_keys x) = {}"
      using fresh_step [OF fr(3,2), of "tcp_keys x"] g by (simp add: grown_def cc_static_def)
    then have "fresh_streams streams x" using fr(1) by (simp add: fresh_streams_iff)
    note rest = Cons.IH [OF x(1) this]
    have "MaybeOpenStreams (map other_stream (s # streams)) w = MaybeOpenStreams (map other_stream streams) x"
      using False by (simp add: s p x_def u_def)
    then show ?thesis using rest grown_trans [OF g conjunct2 [OF rest]] by (simp add: s)
  qed
qed

lemma assign_others:
  fixes w :: "'a client_connection_scheme"
  assumes i: "joined \<sigma> D m w" and f: "fresh_streams streams w" and d: "cc_transparent w = (dest \<noteq> None)"
    and v: "v = AssignNewTcp (map other_stream streams) fd peer dest w"
  shows "joined \<sigma> D m v \<and> grown {#fd#} (fst ` set streams) w v"
proof (cases "cc_closed w")
  case True
  then have e: "v = w\<lparr>cc_closed_fds := cc_closed_fds w @ [fd]\<rparr>" by (simp add: v AssignNewTcp_def)
  note g = drop_fd [OF e]
  have "joined \<sigma> D m v" by (rule joined_change [OF i g(5)]) (use joined_owner [OF i] g in \<open>simp add: tcp_ok_def\<close>)
  then show ?thesis using g by (simp add: grown_def)
next
  case False
  define u where "u = w\<lparr>cc_pending_tcps := cc_pending_tcps w @ [\<lparr>pt_fd = fd, pt_peer = peer, pt_dest = dest\<rparr>]\<rparr>"
  have e: "v = MaybeOpenStreams (map other_stream streams) u" using False d by (simp add: v u_def AssignNewTcp_def dcheck_def Let_def)
  have u: "joined \<sigma> D m u" by (rule joined_change [OF i]) (use joined_owner [OF i] in \<open>simp_all add: u_def tunnel.truncate_def tcp_ok_def\<close>)
  have g: "grown {#fd#} {} w u" by (simp add: u_def grown_def owned_fds_def cc_static_def)
  have "fresh_streams streams u" using f by (simp add: fresh_streams_def u_def)
  from open_others [OF u this] show ?thesis using grown_trans [OF g] by (simp add: e)
qed

section \<open>Events\<close>

text \<open>\<open>ClientTunnel\<close> are the events of the socket, the alarm, the sweep of idle tunnels, the clock and the
  other tunnels of the process.  \<open>OtherStreamClosed\<close> and \<open>SessionFlow\<close> are what the other streams of the
  connection do.  \<open>ClientAssign\<close> hands an accepted descriptor to the connection, \<open>CanCreateStream\<close> is the
  peer granting more streams; both carry the streams that are opened by it.  \<open>ClientCloses\<close> is the close
  by the owner, and what follows when the connection is lost.\<close>

datatype client_event =
    ClientFrame nat bytes bool "send_result list"
  | ClientStopSending QuicRstStreamErrorCode
  | ClientReset QuicRstStreamErrorCode nat
  | ClientMaxStreamData nat
  | ClientMaxData nat
  | ClientWriteReady "recv_result list"
  | ClientAcked nat nat bool
  | ClientLost nat nat bool
  | ClientWrites "write_outcome list"
  | ClientGone QuicErrorCode
  | ClientTunnel tunnel_event
  | OtherStreamClosed QuicStreamId
  | SessionFlow flow_controller
  | ClientGarbage
  | ClientAssign "new_stream list" SocketFd socket_address "socket_address option"
  | CanCreateStream "new_stream list"
  | ClientCloses

fun client_step :: "client_event \<Rightarrow> 'a cc_handler" where
  "client_step (ClientFrame off data fin ss) w = QuicStream_OnStreamFrame cc_lost cc_gone (client_available ss) off data fin w"
| "client_step (ClientStopSending err) w = QuicStream_OnStopSending cc_lost cc_gone err w"
| "client_step (ClientReset err off) w = QuicStream_OnStreamReset cc_lost cc_gone err off w"
| "client_step (ClientMaxStreamData n) w = QuicStream_OnWindowUpdateFrame n w"
| "client_step (ClientMaxData n) w = w\<lparr>cn_flow := snd (QuicFlowController_UpdateSendWindowOffset n (cn_flow w))\<rparr>"
| "client_step (ClientWriteReady rs) w = QuicStream_OnCanWrite cc_lost cc_gone (client_can_write rs) w"
| "client_step (ClientAcked off len fin) w = snd (QuicStream_OnStreamFrameAcked cc_lost off len fin w)"
| "client_step (ClientLost off len fin) w = QuicStream_OnStreamFrameLost off len fin w"
| "client_step (ClientWrites outs) w = w\<lparr>cn_outcomes := outs\<rparr>"
| "client_step (ClientGone code) w = cc_lost code w"
| "client_step (ClientTunnel e) w = tunnel_step client_on_closed e w"
| "client_step (OtherStreamClosed i) w = tcp_closed_callback i w"
| "client_step (SessionFlow fc) w = w\<lparr>cn_flow := fc\<rparr>"
| "client_step ClientGarbage w = client_CollectStreamGarbage w"
| "client_step (ClientAssign streams fd peer dest) w = AssignNewTcp (map other_stream streams) fd peer dest w"
| "client_step (CanCreateStream streams) w = MaybeOpenStreams (map other_stream streams) w"
| "client_step ClientCloses w = QuictunClientConnection_Close w"

fun outer_event :: "tunnel_event \<Rightarrow> bool" where
  "outer_event (Clock t) = True"
| "outer_event (SocketReady readable writable r s rs ss) = True"
| "outer_event FlushAlarm = True"
| "outer_event IdleSweep = True"
| "outer_event (OtherTunnelActive i stalled) = True"
| "outer_event (OtherTunnelClosed i) = True"
| "outer_event _ = False"

fun client_event_ok :: "(nat \<Rightarrow> byte) \<Rightarrow> client_event \<Rightarrow> 'a client_connection_scheme \<Rightarrow> bool" where
  "client_event_ok \<sigma> (ClientFrame off data fin ss) w \<longleftrightarrow> cn_connected w \<and> frame_of \<sigma> off data"
| "client_event_ok \<sigma> (ClientAcked off len fin) w \<longleftrightarrow> off + len \<le> stream_bytes_written (st_send w)"
| "client_event_ok \<sigma> (ClientLost off len fin) w \<longleftrightarrow> off + len \<le> stream_bytes_written (st_send w)"
| "client_event_ok \<sigma> (ClientTunnel e) w \<longleftrightarrow> outer_event e \<and> event_ok \<sigma> e w"
| "client_event_ok \<sigma> (OtherStreamClosed i) w \<longleftrightarrow> i \<noteq> cc_id w"
| "client_event_ok \<sigma> (ClientAssign streams fd peer dest) w \<longleftrightarrow> fresh_streams streams w \<and> cc_transparent w = (dest \<noteq> None)"
| "client_event_ok \<sigma> (CanCreateStream streams) w \<longleftrightarrow> fresh_streams streams w"
| "client_event_ok \<sigma> _ w \<longleftrightarrow> True"

fun given_fds :: "client_event \<Rightarrow> SocketFd list" where
  "given_fds (ClientAssign streams fd peer dest) = [fd]"
| "given_fds _ = []"

inductive client_reach ::
    "(nat \<Rightarrow> byte) \<Rightarrow> 'a client_connection_scheme \<Rightarrow> 'a client_connection_scheme \<Rightarrow> bool" for \<sigma> w0 where
  start: "client_reach \<sigma> w0 w0"
| step: "client_reach \<sigma> w0 w \<Longrightarrow> client_event_ok \<sigma> e w \<Longrightarrow> client_reach \<sigma> w0 (client_step e w)"

fun run_client :: "(nat \<Rightarrow> byte) \<Rightarrow> client_event list \<Rightarrow> 'a client_connection_scheme \<Rightarrow> 'a client_connection_scheme option" where
  "run_client \<sigma> [] w = Some w"
| "run_client \<sigma> (e # es) w = (if client_event_ok \<sigma> e w then run_client \<sigma> es (client_step e w) else None)"

lemma run_client_reach: "run_client \<sigma> es w = Some v \<Longrightarrow> client_reach \<sigma> w0 w \<Longrightarrow> client_reach \<sigma> w0 v"
  by (induction es arbitrary: w) (auto split: if_splits intro: client_reach.step)

section \<open>The invariant\<close>

text \<open>A step that keeps everything of the connection but the stream's own entry.\<close>

lemma config_step:
  assumes "tunnel_inv (client_owner (cc_config w)) \<sigma> 0 m D True v"
  shows "joined \<sigma> D m v \<and> cc_static v = cc_static w \<and> owned_fds v = owned_fds w"
  using joined_step [OF assms] unfolding cc_config_def prod.inject by blast

definition advanced :: "(nat \<Rightarrow> byte) \<Rightarrow> bytes \<Rightarrow> nat \<Rightarrow> SocketFd list \<Rightarrow> 'a client_connection_scheme \<Rightarrow> 'a client_connection_scheme \<Rightarrow> bool" where
  "advanced \<sigma> D m fds w v \<longleftrightarrow> joined \<sigma> D m v \<and> cc_static v = cc_static w \<and> owned_fds v = mset fds + owned_fds w"

lemma connection_step_inv:
  fixes w :: "'a client_connection_scheme"
  assumes i: "joined \<sigma> D m w"
  shows "j \<noteq> cc_id w \<Longrightarrow> advanced \<sigma> D m [] w (tcp_closed_callback j w)"
    "advanced \<sigma> D m [] w (client_CollectStreamGarbage w)"
    "advanced \<sigma> D m [] w (QuictunClientConnection_Close w)"
proof -
  note o = joined_owner [OF i]
  then have d: "distinct (map fst (cc_stream_tcps w))" by (simp add: tcp_ok_def)
  show "advanced \<sigma> D m [] w (tcp_closed_callback j w)" if j: "j \<noteq> cc_id w"
  proof -
    note f = callback_facts [OF d refl, of j]
    have "tcp_ok (tn_closed w) (tcp_closed_callback j w)" using o j d unfolding tcp_ok_def f by (simp add: erase_tcp_keys)
    then show ?thesis using joined_change [OF i callback_frame] f by (simp add: advanced_def)
  qed
  let ?g = "client_CollectStreamGarbage w"
  have "joined \<sigma> D m ?g"
    by (rule joined_change [OF i]) (use o in \<open>simp_all add: client_CollectStreamGarbage_def tunnel.truncate_def tcp_ok_def\<close>)
  then show "advanced \<sigma> D m [] w ?g" by (simp add: advanced_def client_CollectStreamGarbage_def owned_fds_def cc_static_def)
  show "advanced \<sigma> D m [] w (QuictunClientConnection_Close w)"
    using close_joined [OF i] i by (cases "cc_closed w") (auto simp: advanced_def closed_from_def QuictunClientConnection_Close_def)
qed

fun connection_event :: "client_event \<Rightarrow> bool" where
  "connection_event (OtherStreamClosed i) = True"
| "connection_event ClientGarbage = True"
| "connection_event (ClientAssign streams fd peer dest) = True"
| "connection_event (CanCreateStream streams) = True"
| "connection_event ClientCloses = True"
| "connection_event _ = False"

lemma stream_events_inv:
  fixes w :: "'a client_connection_scheme"
  assumes i: "joined \<sigma> D m w" and e: "client_event_ok \<sigma> e w" and s: "\<not> connection_event e"
  shows "tunnel_inv (client_owner (cc_config w)) \<sigma> 0 m D True (client_step e w)"
proof -
  have w: "tunnel_inv (client_owner (cc_config w)) \<sigma> 0 m D True w" using i by (simp add: joined_def)
  have f: "tunnel_inv (client_owner (cc_config w)) \<sigma> 0 m D True (w\<lparr>cn_flow := fc\<rparr>)" for fc
    using stream_effects.R_session_flow [OF cli.I_effects] w by blast
  show ?thesis
    using cli.I_frame [OF w] cli.I_stream_events [OF w] cli.I_packet_events [OF w] clt.step_inv [OF w] f e s
    by (cases e) simp_all
qed

theorem client_step_inv:
  fixes w :: "'a client_connection_scheme"
  assumes i: "joined \<sigma> D m w" and e: "client_event_ok \<sigma> e w"
  shows "advanced \<sigma> D m (given_fds e) w (client_step e w)"
proof (cases "connection_event e")
  case False
  then have "given_fds e = []" by (cases e) auto
  then show ?thesis using config_step [OF stream_events_inv [OF i e False]] by (simp add: advanced_def)
next
  case True
  then show ?thesis
    using connection_step_inv [OF i] open_others [OF i] assign_others [OF i _ _ refl] e
    by (cases e) (simp_all add: advanced_def grown_def)
qed

theorem client_reach_inv:
  fixes w :: "'a client_connection_scheme"
  assumes "client_reach \<sigma> w0 w" "joined \<sigma> D m w0"
  shows "joined \<sigma> D m w \<and> cc_static w = cc_static w0"
  using assms
proof induction
  case (step w e)
  then show ?case using client_step_inv [of \<sigma> D m w e] by (simp add: advanced_def)
qed simp

theorem run_client_inv:
  fixes w :: "'a client_connection_scheme"
  assumes "joined \<sigma> D m w" "run_client \<sigma> es w = Some v"
  shows "advanced \<sigma> D m (concat (map given_fds es)) w v"
  using assms
proof (induction es arbitrary: w)
  case (Cons e es)
  then have e: "client_event_ok \<sigma> e w" "run_client \<sigma> es (client_step e w) = Some v" by (simp_all split: if_splits)
  note one = client_step_inv [OF Cons.prems(1) e(1)]
  then have "advanced \<sigma> D m (concat (map given_fds es)) (client_step e w) v" using Cons.IH [OF _ e(2)] by (simp add: advanced_def)
  then show ?case using one by (simp add: advanced_def)
qed (simp add: advanced_def)

end
