(* ===== verification/Client_Properties.thy ===== *)
theory Client_Properties
  imports Client_Events
begin

text \<open>
  What holds of a client connection and of the stream it opened for a TCP connection, in
  every state it can reach: what the stream carries, what the TCP connection gets, and that
  no descriptor is lost.
\<close>

section \<open>A new stream\<close>

definition client_starts :: "start_answers \<Rightarrow> pending_tcp \<Rightarrow> 'a cc_handler" where
  "client_starts a p w = Client_Connection.StartTunnel (OwnStream a) p w"

definition wire_dest :: "pending_tcp \<Rightarrow> 'a client_connection_scheme \<Rightarrow> socket_address option" where
  "wire_dest p w = (if cc_transparent w then pt_dest p else None)"

lemma started_inv:
  assumes "client_ready v" "\<not> cc_closed (client_starts a p v)"
  shows "joined \<sigma> (client_preamble (cc_psk v) (wire_dest p v)) 0 (client_starts a p v)"
    "owned_fds (client_starts a p v) = add_mset (pt_fd p) (owned_fds v)" "cc_id (client_starts a p v) = cc_id v"
  using start_own [OF assms(1) client_starts_def wire_dest_def, of a p \<sigma>] assms(2) by simp_all

lemma opened_inv:
  assumes "client_ready v" "\<not> cc_closed (client_starts a p v)" "client_reach \<sigma> (client_starts a p v) w"
  shows "joined \<sigma> (client_preamble (cc_psk v) (wire_dest p v)) 0 w"
    "tunnel_inv (client_owner (cc_config w)) \<sigma> 0 0 (client_preamble (cc_psk v) (wire_dest p v)) True w" "cc_id w = cc_id v"
proof -
  note s = started_inv [OF assms(1,2)]
  show j: "joined \<sigma> (client_preamble (cc_psk v) (wire_dest p v)) 0 w" "cc_id w = cc_id v"
    using client_reach_inv [OF assms(3) s(1)] s(3) by (simp_all add: cc_static_def)
  show "tunnel_inv (client_owner (cc_config w)) \<sigma> 0 0 (client_preamble (cc_psk v) (wire_dest p v)) True w"
    using j(1) by (simp add: joined_def)
qed

section \<open>A sample run\<close>

definition sample_dest :: socket_address where
  "sample_dest = \<lparr>sa_host = QuicheIpAddress_Loopback4, sa_port = 80\<rparr>"

definition sample_pending :: pending_tcp where
  "sample_pending = \<lparr>pt_fd = 11, pt_peer = sample_dest, pt_dest = Some sample_dest\<rparr>"

definition sample_answers :: start_answers where
  "sample_answers = \<lparr>sr_recv = [Received [9, 8]], sr_send = [], sr_receive_window = 65536, sr_send_window = 65536\<rparr>"

definition sample_client :: client_connection where
  "sample_client = tunnel.extend (sample_session\<lparr>cn_outcomes := six_writes\<rparr>)
     (client_connection.fields 4 Map.empty [1, 2] True [] [] [] None True False 0 [] None)"

text \<open>The answer of the server, a second TCP connection for which a stream is opened at once, and a third
  one that has to wait.\<close>

definition sample_client_events :: "client_event list" where
  "sample_client_events =
     [ClientFrame 0 (map sample_stream [0..<3]) False [Accepted 2],
      ClientAssign [(8, 3, True)] 12 sample_dest (Some sample_dest),
      ClientAssign [] 13 sample_dest (Some sample_dest), ClientWriteReady [], ClientAcked 0 10 False]"

definition sample_client_end :: "client_connection option" where
  "sample_client_end = run_client sample_stream sample_client_events (client_starts sample_answers sample_pending sample_client)"

lemma sample_client_fields:
  "map_option (\<lambda>w. ((sk_written w, tn_from_tcp w, tn_closed w), cn_data w, (cc_closed w, cc_has_on_closed w, cc_close_calls w),
      (map fst (cc_stream_tcps w), map pt_fd (cc_pending_tcps w), cc_closed_fds w))) sample_client_end =
     Some (([65, 66], [9, 8], False), [(0, [0, 2, 1, 2, 1, 127, 0, 0, 1, 0], False), (10, [80, 9, 8], False)], (False, True, 0),
       ([8, 4], [13], []))"
  by code_simp

lemma sample_client_starts:
  "client_ready sample_client" "\<not> cc_closed (client_starts sample_answers sample_pending sample_client)"
  "cc_psk sample_client = [1, 2]" "wire_dest sample_pending sample_client = Some sample_dest" "owned_fds sample_client = {#}"
  "cc_id sample_client = 4"
proof -
  have "owner_ready 7 (sample_session\<lparr>cn_outcomes := six_writes\<rparr>)" using sample_ready by (simp add: owner_ready_def unused_socket_def)
  then show "client_ready sample_client" by (simp add: client_ready_def sample_client_def) code_simp
  show "\<not> cc_closed (client_starts sample_answers sample_pending sample_client)" by code_simp
qed (simp_all add: sample_client_def wire_dest_def sample_pending_def owned_fds_def tunnel.extend_def client_connection.fields_def)

lemma sample_client_ends:
  obtains w where "sample_client_end = Some w"
    "client_reach sample_stream (client_starts sample_answers sample_pending sample_client) w"
    "sk_written w = [65, 66]" "tn_from_tcp w = [9, 8]" "\<not> tn_closed w"
    "cn_data w = [(0, [0, 2, 1, 2, 1, 127, 0, 0, 1, 0], False), (10, [80, 9, 8], False)]"
    "\<not> cc_closed w" "cc_has_on_closed w" "cc_close_calls w = 0" "map fst (cc_stream_tcps w) = [8, 4]"
proof -
  obtain w where w: "sample_client_end = Some w" using sample_client_fields by (cases sample_client_end) simp_all
  have "client_reach sample_stream (client_starts sample_answers sample_pending sample_client) w"
    by (rule run_client_reach [OF w [unfolded sample_client_end_def] client_reach.start])
  from that [OF w this] show ?thesis using sample_client_fields [unfolded w] by simp
qed

section \<open>The bytes\<close>

lemma client_sends:
  assumes "client_ready v" "\<not> cc_closed (client_starts a p v)" "client_reach \<sigma> (client_starts a p v) w"
  shows "\<exists>n \<le> length (tn_from_tcp w).
     list_all (carries (client_preamble (cc_psk v) (wire_dest p v) @ take n (tn_from_tcp w))) (cn_data w) \<and>
     (\<not> st_fin_buffered w \<and> \<not> st_write_side_closed w \<longrightarrow>
        n = length (tn_from_tcp w) \<and> \<not> list_ex (\<lambda>(off, d, fin). fin) (cn_data w))"
proof -
  have "send_inv (client_preamble (cc_psk v) (wire_dest p v)) w" using opened_inv(2) [OF assms] by (simp add: tunnel_inv_def)
  then show ?thesis unfolding send_inv_def send_ok_def send_done_def by blast
qed

text \<open>C11. A stream of the client starts with the preamble, for the connection's key and, in transparent mode,
  the destination the TCP connection was made to, and goes on with the bytes read from that connection:
  every frame, first transmission or not, carries at its offset these bytes and nothing else, and as long
  as the stream takes data nothing that was read is missing.\<close>

theorem client_sends_preamble:
  assumes "client_ready v" "\<not> cc_closed (client_starts a p v)" "client_reach \<sigma> (client_starts a p v) w"
  shows "\<exists>n \<le> length (tn_from_tcp w).
     list_all (carries (client_preamble (cc_psk v) (wire_dest p v) @ take n (tn_from_tcp w))) (cn_data w) \<and>
     (\<not> st_fin_buffered w \<and> \<not> st_write_side_closed w \<longrightarrow>
        n = length (tn_from_tcp w) \<and> \<not> list_ex (\<lambda>(off, d, fin). fin) (cn_data w))"
  by (rule client_sends [OF assms])

theorem client_sends_preamble_witness:
  "\<exists>w. sample_client_end = Some w \<and> tn_from_tcp w = [9, 8] \<and>
     (\<exists>n \<le> length (tn_from_tcp w). list_all (carries (client_preamble [1, 2] (Some sample_dest) @ take n (tn_from_tcp w)))
       [(0, [0, 2, 1, 2, 1, 127, 0, 0, 1, 0], False), (10, [80, 9, 8], False)])"
proof -
  obtain w where w: "sample_client_end = Some w"
    "client_reach sample_stream (client_starts sample_answers sample_pending sample_client) w" "tn_from_tcp w = [9, 8]"
    "cn_data w = [(0, [0, 2, 1, 2, 1, 127, 0, 0, 1, 0], False), (10, [80, 9, 8], False)]" by (rule sample_client_ends)
  from client_sends_preamble [OF sample_client_starts(1,2) w(2)] show ?thesis
    unfolding w(4) sample_client_starts(3,4) using w(1,3) by blast
qed

lemma client_gets:
  assumes "client_ready v" "\<not> cc_closed (client_starts a p v)" "client_reach \<sigma> (client_starts a p v) w"
  shows "prefix (sk_written w) (map \<sigma> [0..<length (tn_read w)])"
    "\<not> tn_closed w \<Longrightarrow> sk_written w @ sk_send_remaining w @ concat (tn_pending_to_tcp w) = map \<sigma> [0..<length (tn_read w)]"
proof -
  note i = opened_inv(2) [OF assms]
  note parts = inv_parts [OF i]
  have r: "tn_read w = map \<sigma> [0..<length (tn_read w)]" using i by (simp add: tunnel_inv_def recv_inv_def)
  have "tn_pending_seed_data w = []" using joined_owner [OF opened_inv(1) [OF assms]] by simp
  then have s: "tn_seed w = []" using parts(1) by (auto simp: bytes_ok_def)
  have "prefix (sk_written w) (tn_read w)" using parts(1) s by (metis append_Nil bytes_ok_def prefixI prefix_order.trans)
  then show "prefix (sk_written w) (map \<sigma> [0..<length (tn_read w)])" using r by simp
  show "sk_written w @ sk_send_remaining w @ concat (tn_pending_to_tcp w) = map \<sigma> [0..<length (tn_read w)]" if "\<not> tn_closed w"
    using that parts(1,6) s r by (auto simp: bytes_ok_def exact_ok_def)
qed

text \<open>C17. The TCP connection of a client gets exactly the answer: what was written to it is a prefix of the
  server's stream, and as long as its tunnel is open nothing that was read from the stream is missing.\<close>

theorem client_delivers_answer:
  assumes "client_ready v" "\<not> cc_closed (client_starts a p v)" "client_reach \<sigma> (client_starts a p v) w"
  shows "prefix (sk_written w) (map \<sigma> [0..<length (tn_read w)]) \<and>
     (\<not> tn_closed w \<longrightarrow> sk_written w @ sk_send_remaining w @ concat (tn_pending_to_tcp w) = map \<sigma> [0..<length (tn_read w)])"
  using client_gets [OF assms] by blast

theorem client_delivers_answer_witness:
  "\<exists>w. sample_client_end = Some w \<and> sk_written w = [65, 66] \<and> prefix (sk_written w) (map sample_stream [0..<length (tn_read w)])"
proof -
  obtain w where w: "sample_client_end = Some w"
    "client_reach sample_stream (client_starts sample_answers sample_pending sample_client) w" "sk_written w = [65, 66]"
    by (rule sample_client_ends)
  from client_delivers_answer [OF sample_client_starts(1,2) w(2)] show ?thesis using w(1,3) by blast
qed

section \<open>The descriptors\<close>



text \<open>C38. A client connection has an entry for a stream exactly as long as its tunnel is open, no two entries
  are for the same stream, and events of the stream are only handed to a tunnel that is open.\<close>

theorem client_routes_to_open_tunnel:
  assumes "client_ready v" "\<not> cc_closed (client_starts a p v)" "client_reach \<sigma> (client_starts a p v) w"
  shows "distinct (map fst (cc_stream_tcps w)) \<and> (cc_id v \<in> fst ` set (cc_stream_tcps w) \<longleftrightarrow> \<not> tn_closed w) \<and>
    (cc_delegates w (cc_id v) \<noteq> None \<longrightarrow> \<not> tn_closed w)"
  using joined_owner [OF opened_inv(1) [OF assms]] opened_inv(3) [OF assms] by (simp add: tcp_ok_def)

theorem client_routes_to_open_tunnel_witness:
  "\<exists>w. sample_client_end = Some w \<and> map fst (cc_stream_tcps w) = [8, 4] \<and> \<not> tn_closed w \<and> distinct (map fst (cc_stream_tcps w))"
proof -
  obtain w where w: "sample_client_end = Some w"
    "client_reach sample_stream (client_starts sample_answers sample_pending sample_client) w" "\<not> tn_closed w"
    "map fst (cc_stream_tcps w) = [8, 4]" by (rule sample_client_ends)
  from client_routes_to_open_tunnel [OF sample_client_starts(1,2) w(2)] show ?thesis using w by (intro exI [of _ w] conjI) blast+
qed



end
