(* ===== verification/End_To_End.thy ===== *)
theory End_To_End
  imports Server_Properties Client_Properties
begin

text \<open>
  Client and server together: a stream the client opened for a TCP connection, and the
  server's end of it.  Between them is a network that loses, repeats and reorders frames,
  so each side receives, in any order and any number of times, frames that the other one
  has sent by the end of the run.  An offset of a frame is a number below \<open>2 ^ 62\<close> on the wire.
\<close>

type_synonym sent_frames = "(nat \<times> bytes \<times> bool) list"

section \<open>The network\<close>

fun server_relay_ok :: "sent_frames \<Rightarrow> server_event \<Rightarrow> 'a server_connection_scheme \<Rightarrow> bool" where
  "server_relay_ok frames (ServerFrame off data fin dl) w \<longleftrightarrow>
     cn_connected w \<and> (off, data, fin) \<in> set frames \<and> off + length data < 2 ^ 62"
| "server_relay_ok frames e w \<longleftrightarrow> server_event_ok (\<lambda>_. 0) e w"

fun client_relay_ok :: "sent_frames \<Rightarrow> client_event \<Rightarrow> 'a client_connection_scheme \<Rightarrow> bool" where
  "client_relay_ok frames (ClientFrame off data fin ss) w \<longleftrightarrow>
     cn_connected w \<and> (off, data, fin) \<in> set frames \<and> off + length data < 2 ^ 62"
| "client_relay_ok frames e w \<longleftrightarrow> client_event_ok (\<lambda>_. 0) e w"

inductive server_relay :: "sent_frames \<Rightarrow> 'a server_connection_scheme \<Rightarrow> 'a server_connection_scheme \<Rightarrow> bool" for frames w0 where
  server_start: "server_relay frames w0 w0"
| server_next: "server_relay frames w0 w \<Longrightarrow> server_relay_ok frames e w \<Longrightarrow> server_relay frames w0 (server_step e w)"

inductive client_relay :: "sent_frames \<Rightarrow> 'a client_connection_scheme \<Rightarrow> 'a client_connection_scheme \<Rightarrow> bool" for frames w0 where
  client_start: "client_relay frames w0 w0"
| client_next: "client_relay frames w0 w \<Longrightarrow> client_relay_ok frames e w \<Longrightarrow> client_relay frames w0 (client_step e w)"

fun relay_server :: "sent_frames \<Rightarrow> server_event list \<Rightarrow> 'a server_connection_scheme \<Rightarrow> 'a server_connection_scheme option" where
  "relay_server frames [] w = Some w"
| "relay_server frames (e # es) w = (if server_relay_ok frames e w then relay_server frames es (server_step e w) else None)"

fun relay_client :: "sent_frames \<Rightarrow> client_event list \<Rightarrow> 'a client_connection_scheme \<Rightarrow> 'a client_connection_scheme option" where
  "relay_client frames [] w = Some w"
| "relay_client frames (e # es) w = (if client_relay_ok frames e w then relay_client frames es (client_step e w) else None)"

lemma relay_server_run: "relay_server frames es w = Some v \<Longrightarrow> server_relay frames w0 w \<Longrightarrow> server_relay frames w0 v"
  by (induction es arbitrary: w) (auto split: if_splits intro: server_next)

lemma relay_client_run: "relay_client frames es w = Some v \<Longrightarrow> client_relay frames w0 w \<Longrightarrow> client_relay frames w0 v"
  by (induction es arbitrary: w) (auto split: if_splits intro: client_next)

section \<open>A stream of the network\<close>

text \<open>Any stream that starts with the bytes the frames were cut from.\<close>

definition padded :: "bytes \<Rightarrow> byte \<Rightarrow> nat \<Rightarrow> byte" where
  "padded D x i = (if i < length D then D ! i else x)"

lemma carried_frame:
  assumes "carries D (off, d, fin)" "off + length d < 2 ^ 62"
  shows "frame_of (padded D x) off d"
proof -
  have c: "off + length d \<le> length D" "d = take (length d) (drop off D)" using assms(1) by (simp_all add: carries_def)
  have "d ! i = D ! (off + i)" if "i < length d" for i
    using that c by (metis nth_take nth_drop add_leD1)
  then show ?thesis using c(1) assms(2) by (auto simp: frame_of_def padded_def)
qed

lemma padded_prefix:
  assumes "prefix ys (map (padded D 0) [0..<n])" "prefix ys (map (padded D 1) [0..<m])"
  shows "prefix ys D"
proof -
  have at: "ys ! i = f i" if "prefix ys (map f [0..<k])" "i < length ys" for i f k
    using that by (auto simp: prefix_def) (metis add.left_neutral length_append length_map length_upt diff_zero nth_append nth_map_upt
        trans_less_add1)
  have "\<not> length D < length ys" using at [OF assms(1)] at [OF assms(2)] by (force simp: padded_def)
  moreover have "ys = take (length ys) D"
    by (rule nth_equalityI) (use calculation at [OF assms(1)] in \<open>simp_all add: padded_def\<close>)
  ultimately show ?thesis by (metis take_is_prefix)
qed

lemma server_relayed:
  assumes "server_relay frames w0 w" "list_all (carries D) frames"
  shows "server_reach (padded D x) w0 w"
  using assms(1)
proof induction
  case (server_next w e)
  have "server_event_ok (padded D x) e w"
  proof (cases e)
    case (ServerFrame off data fin dl)
    then show ?thesis using server_next.hyps(2) assms(2) carried_frame by (auto simp: list_all_iff)
  next
    case (OfTunnel f)
    then show ?thesis using server_next.hyps(2) by (cases f) simp_all
  qed (use server_next.hyps(2) in simp_all)
  then show ?case by (rule server_reach.step [OF server_next.IH])
qed (rule server_reach.start)

lemma client_relayed:
  assumes "client_relay frames w0 w" "list_all (carries D) frames"
  shows "client_reach (padded D x) w0 w"
  using assms(1)
proof induction
  case (client_next w e)
  have "client_event_ok (padded D x) e w"
  proof (cases e)
    case (ClientFrame off data fin ss)
    then show ?thesis using client_next.hyps(2) assms(2) carried_frame by (auto simp: list_all_iff)
  next
    case (ClientTunnel f)
    then show ?thesis using client_next.hyps(2) by (cases f) simp_all
  qed (use client_next.hyps(2) in simp_all)
  then show ?case by (rule client_reach.step [OF client_next.IH])
qed (rule client_reach.start)

section \<open>A sample run\<close>

definition sample_far_server :: server_connection where
  "sample_far_server = tunnel.extend (sample_session\<lparr>cn_outcomes := six_writes\<rparr>)
     (server_connection.fields 4 Map.empty None True [1, 2] Map.empty Map.empty [] None True False 0 False False None 0)"

definition sample_sent :: sent_frames where
  "sample_sent = [(0, [0, 2, 1, 2, 1, 127, 0, 0, 1, 0], False), (10, [80, 9, 8], False)]"

text \<open>The second frame arrives first, the target takes both bytes and answers.\<close>

definition sample_far_end :: "server_connection option" where
  "sample_far_end = relay_server sample_sent
     [ServerFrame 10 [80, 9, 8] False sample_dial, ServerFrame 0 [0, 2, 1, 2, 1, 127, 0, 0, 1, 0] False sample_dial,
      ServerFrame 10 [80, 9, 8] False sample_dial,
      ServerTarget True True \<lparr>ta_no_error = True, ta_peek = ConnectOk, ta_receive = Received [7, 8], ta_send = Accepted 1,
        ta_recv = [], ta_sends = []\<rparr>]
     (incoming_stream 65536 65536 sample_dial sample_far_server)"

definition sample_answered :: "client_connection option" where
  "sample_answered = relay_client [(0, [7, 8], False)] [ClientFrame 0 [7, 8] False [Accepted 2]]
     (client_starts sample_answers sample_pending sample_client)"

lemma sample_far_fields:
  "map_option (\<lambda>w. (sk_written w, tn_from_tcp w, sc_stream_targets w 4 = None, cn_data w)) sample_far_end =
     Some ([9, 8], [7, 8], False, [(0, [7, 8], False)])"
  "map_option sk_written sample_answered = Some [7, 8]"
  by code_simp+

lemma sample_far_ready: "server_ready sample_far_server" "sc_expected_psk sample_far_server = [1, 2]" "sc_transparent sample_far_server"
  "sc_id sample_far_server = 4"
proof -
  have "owner_ready 7 (sample_session\<lparr>cn_outcomes := six_writes\<rparr>)" using sample_ready by (simp add: owner_ready_def unused_socket_def)
  then show "server_ready sample_far_server" by (simp add: server_ready_def sample_far_server_def) code_simp
qed (simp_all add: sample_far_server_def tunnel.extend_def server_connection.fields_def)

lemma sample_far_ends:
  obtains s c where "sample_far_end = Some s" "sample_answered = Some c" "sk_written s = [9, 8]" "tn_from_tcp s = [7, 8]"
    "sc_stream_targets s 4 \<noteq> None" "sk_written c = [7, 8]" "cn_data s = [(0, [7, 8], False)]"
    "server_relay sample_sent (incoming_stream 65536 65536 sample_dial sample_far_server) s"
    "client_relay (cn_data s) (client_starts sample_answers sample_pending sample_client) c"
proof -
  obtain s where s: "sample_far_end = Some s" using sample_far_fields by (cases sample_far_end) simp_all
  obtain c where c: "sample_answered = Some c" using sample_far_fields by (cases sample_answered) simp_all
  have d: "cn_data s = [(0, [7, 8], False)]" using sample_far_fields(1) [unfolded s] by simp
  have "server_relay sample_sent (incoming_stream 65536 65536 sample_dial sample_far_server) s"
    by (rule relay_server_run [OF s [unfolded sample_far_end_def] server_start])
  moreover have "client_relay (cn_data s) (client_starts sample_answers sample_pending sample_client) c"
    unfolding d by (rule relay_client_run [OF c [unfolded sample_answered_def] client_start])
  ultimately show ?thesis using that [OF s c] sample_far_fields [unfolded s c] d by simp
qed

section \<open>From the client to the target and back\<close>

lemma preamble_determined:
  assumes "key_ok psk t dest" "key_ok psk t dest'" "prefix (client_preamble psk dest @ ys) (client_preamble psk dest' @ zs)"
  shows "dest = dest' \<and> prefix ys zs"
proof -
  obtain xs where "client_preamble psk dest' @ zs = client_preamble psk dest @ ys @ xs" using assms(3) by (auto simp: prefix_def)
  then have "AuthAccept dest' zs = AuthAccept dest (ys @ xs)"
    using check_client_preamble [OF assms(1)] check_client_preamble [OF assms(2)] by metis
  then show ?thesis by simp
qed

lemma target_of_stream:
  assumes r: "server_ready v" "server_reach \<sigma> (incoming_stream rw sw dl v) w"
  shows "sc_accepted w = None \<Longrightarrow> sk_written w = []"
    "sc_stream_targets w (sc_id v) = Some t \<Longrightarrow>
       \<exists>dest. sc_accepted w = Some dest \<and> tg_address t = (if sc_transparent v then dest else sc_target_address v)"
proof -
  have mid: "server_mid \<sigma> (sc_kept w) 0 w" using stream_inv(1) [OF r] by (simp add: server_inv_def)
  show "sk_written w = []" if "sc_accepted w = None"
    using unstarted_facts(5) [OF mid_tunnel [OF mid] unaccepted_facts(1,2) [OF mid that]] .
  note o = stream_owner_ok [OF r]
  show "\<exists>dest. sc_accepted w = Some dest \<and> tg_address t = (if sc_transparent v then dest else sc_target_address v)"
    if "sc_stream_targets w (sc_id v) = Some t"
    using o(1) that unfolding owner_ok_def routed_def o(2-) by (cases "sc_accepted w") auto
qed

text \<open>C1. End to end: whatever the network does to the frames of a client, a server with the client's key and
  mode connects the stream to the destination of the client's TCP connection, or, without transparent
  mode, to its own target, and what that target gets is a prefix of the bytes the client read from its
  TCP connection: nothing is added, left out, repeated or reordered.\<close>

theorem stream_end_to_end:
  assumes c: "client_ready c0" "\<not> cc_closed (client_starts a p c0)" "client_reach \<tau> (client_starts a p c0) c"
    and s: "server_ready s0" "server_relay (cn_data c) (incoming_stream rw sw dl s0) s"
    and key: "sc_expected_psk s0 = cc_psk c0" "key_ok (cc_psk c0) (sc_transparent s0) (wire_dest p c0)"
  shows "prefix (sk_written s) (tn_from_tcp c) \<and>
    (\<forall>t. sc_stream_targets s (sc_id s0) = Some t \<longrightarrow>
       tg_address t = (if sc_transparent s0 then wire_dest p c0 else sc_target_address s0))"
proof -
  obtain n where n: "list_all (carries (client_preamble (cc_psk c0) (wire_dest p c0) @ take n (tn_from_tcp c))) (cn_data c)"
    using client_sends [OF c] by blast
  let ?D = "client_preamble (cc_psk c0) (wire_dest p c0) @ take n (tn_from_tcp c)"
  have r: "server_reach (padded ?D x) (incoming_stream rw sw dl s0) s" for x by (rule server_relayed [OF s(2) n])
  have acc: "dest = wire_dest p c0 \<and> prefix (sk_written s) (take n (tn_from_tcp c))" if "sc_accepted s = Some dest" for dest
  proof -
    have d: "key_ok (cc_psk c0) (sc_transparent s0) dest \<and>
        (\<exists>m. prefix (client_preamble (cc_psk c0) dest @ sk_written s) (map (padded ?D x) [0..<m]))" for x
      using target_gets [OF s(1) r that] key(1) by simp
    have "prefix (client_preamble (cc_psk c0) dest @ sk_written s) ?D" using d [of 0] d [of 1] padded_prefix by blast
    from preamble_determined [OF _ key(2) this] d show ?thesis by blast
  qed
  then have "prefix (sk_written s) (take n (tn_from_tcp c))"
    using target_of_stream(1) [OF s(1) r] by (cases "sc_accepted s") auto
  then have "prefix (sk_written s) (tn_from_tcp c)" using take_is_prefix prefix_order.trans by blast
  then show ?thesis using target_of_stream(2) [OF s(1) r] acc by fastforce
qed

theorem stream_end_to_end_witness:
  "\<exists>c s t. sample_client_end = Some c \<and> sample_far_end = Some s \<and> sc_stream_targets s 4 = Some t \<and>
     tg_address t = Some sample_dest \<and> sk_written s = [9, 8] \<and> prefix (sk_written s) (tn_from_tcp c)"
proof -
  obtain c where c: "sample_client_end = Some c"
    "client_reach sample_stream (client_starts sample_answers sample_pending sample_client) c" "cn_data c = sample_sent"
    by (rule sample_client_ends) (simp add: sample_sent_def)
  obtain s where s: "sample_far_end = Some s" "server_relay sample_sent (incoming_stream 65536 65536 sample_dial sample_far_server) s"
    "sc_stream_targets s 4 \<noteq> None" "sk_written s = [9, 8]" by (rule sample_far_ends)
  then obtain t where t: "sc_stream_targets s 4 = Some t" by blast
  have "key_ok [1, 2] True (Some sample_dest)" by code_simp
  with stream_end_to_end [OF sample_client_starts(1,2) c(2) sample_far_ready(1) s(2) [folded c(3)]]
  have "prefix (sk_written s) (tn_from_tcp c) \<and> tg_address t = Some sample_dest"
    using sample_far_ready sample_client_starts(3,4) t by simp
  then show ?thesis using c(1) s(1,4) t by blast
qed

text \<open>C2. And back: whatever the network does to the frames of the server, what the TCP connection of the client
  gets is a prefix of the bytes the server read from the target.\<close>

theorem answer_end_to_end:
  assumes s: "server_ready s0" "server_reach \<sigma> (incoming_stream rw sw dl s0) s"
    and c: "client_ready c0" "\<not> cc_closed (client_starts a p c0)" "client_relay (cn_data s) (client_starts a p c0) c"
  shows "prefix (sk_written c) (tn_from_tcp s)"
proof -
  obtain n where n: "list_all (carries (take n (tn_from_tcp s))) (cn_data s)" using server_sends [OF s] by blast
  have "\<exists>m. prefix (sk_written c) (map (padded (take n (tn_from_tcp s)) x) [0..<m])" for x
    using client_gets [OF c(1,2) client_relayed [OF c(3) n]] by blast
  then have "prefix (sk_written c) (take n (tn_from_tcp s))" using padded_prefix by blast
  then show ?thesis using take_is_prefix prefix_order.trans by blast
qed

theorem answer_end_to_end_witness:
  "\<exists>c s. sample_answered = Some c \<and> sample_far_end = Some s \<and> sk_written c = [7, 8] \<and> prefix (sk_written c) (tn_from_tcp s)"
proof -
  obtain s c where w: "sample_far_end = Some s" "sample_answered = Some c" "sk_written c = [7, 8]"
    "server_relay sample_sent (incoming_stream 65536 65536 sample_dial sample_far_server) s"
    "client_relay (cn_data s) (client_starts sample_answers sample_pending sample_client) c" by (rule sample_far_ends)
  have "list_all (carries [0, 2, 1, 2, 1, 127, 0, 0, 1, 0, 80, 9, 8]) sample_sent" by code_simp
  then have "server_reach (padded [0, 2, 1, 2, 1, 127, 0, 0, 1, 0, 80, 9, 8] 0) (incoming_stream 65536 65536 sample_dial sample_far_server) s"
    by (rule server_relayed [OF w(4)])
  from answer_end_to_end [OF sample_far_ready(1) this sample_client_starts(1,2) w(5)] show ?thesis using w(1,2,3) by blast
qed

end
