(* ===== verification/Idle_Sweep.thy ===== *)
theory Idle_Sweep
  imports Tunnel_Properties "HOL-Library.While_Combinator"
begin

text \<open>
  The sweep for idle tunnels: \<open>CloseExpired\<close> and \<open>QuictunIdleTracker::CloseIdleTunnels\<close> of
  \<open>quictun_tunnel.cc\<close>, which the drivers call.  The loop looks at the front of a list only
  and closes it until the front is not expired.

  \<open>trk\<close> and \<open>la\<close> read the tracker and the times of last activity from the state of the
  process, \<open>close\<close> closes a tunnel.  The loop is a \<open>while_option\<close>, whose value is \<open>None\<close> if
  it does not end.  The locale \<open>sweepable\<close> is what the loop relies on: a closed tunnel is no
  longer in its list and the others are where they were.
\<close>

definition expired :: "QuicTime \<Rightarrow> QuicTimeDelta \<Rightarrow> (tunnel_id \<Rightarrow> QuicTime) \<Rightarrow> tunnel_id \<Rightarrow> bool" where
  "expired now timeout la i \<longleftrightarrow> now - la i \<ge> timeout"

definition CloseExpired ::
    "('s \<Rightarrow> idle_tracker) \<Rightarrow> ('s \<Rightarrow> tunnel_id \<Rightarrow> QuicTime) \<Rightarrow> (tunnel_id \<Rightarrow> 's \<Rightarrow> 's) \<Rightarrow> bool \<Rightarrow> QuicTime \<Rightarrow>
      QuicTimeDelta \<Rightarrow> 's \<Rightarrow> 's option" where
  "CloseExpired trk la close stalled now timeout =
     while_option
       (\<lambda>s. class_list stalled (trk s) \<noteq> [] \<and> expired now timeout (la s) (hd (class_list stalled (trk s))))
       (\<lambda>s. close (hd (class_list stalled (trk s))) s)"

definition QuictunIdleTracker_CloseIdleTunnels ::
    "('s \<Rightarrow> idle_tracker) \<Rightarrow> ('s \<Rightarrow> tunnel_id \<Rightarrow> QuicTime) \<Rightarrow> (tunnel_id \<Rightarrow> 's \<Rightarrow> 's) \<Rightarrow> QuicTime \<Rightarrow>
      QuicTimeDelta \<Rightarrow> QuicTimeDelta \<Rightarrow> 's \<Rightarrow> 's option" where
  "QuictunIdleTracker_CloseIdleTunnels trk la close now timeout stalled_timeout s =
     (case CloseExpired trk la close False now timeout s of
        None \<Rightarrow> None
      | Some s \<Rightarrow> CloseExpired trk la close True now stalled_timeout s)"

text \<open>\<open>CloseIdleTunnels\<close> of the drivers.\<close>

definition driver_CloseIdleTunnels ::
    "('s \<Rightarrow> idle_tracker) \<Rightarrow> ('s \<Rightarrow> tunnel_id \<Rightarrow> QuicTime) \<Rightarrow> (tunnel_id \<Rightarrow> 's \<Rightarrow> 's) \<Rightarrow> QuicTime \<Rightarrow>
      QuicTimeDelta \<Rightarrow> QuicTimeDelta \<Rightarrow> 's \<Rightarrow> 's option" where
  "driver_CloseIdleTunnels trk la close now tcp_idle_timeout tcp_stalled_timeout s =
     QuictunIdleTracker_CloseIdleTunnels trk la close now tcp_idle_timeout (min tcp_stalled_timeout tcp_idle_timeout) s"

text \<open>What the sweep should do, tunnel by tunnel.\<close>

definition sweep_all :: "QuicTime \<Rightarrow> QuicTimeDelta \<Rightarrow> QuicTimeDelta \<Rightarrow> (tunnel_id \<Rightarrow> QuicTime) \<Rightarrow> idle_tracker \<Rightarrow> idle_tracker" where
  "sweep_all now timeout stalled_timeout la t =
     \<lparr>it_order = filter (\<lambda>i. \<not> expired now timeout la i) (it_order t),
      it_stalled_order = filter (\<lambda>i. \<not> expired now stalled_timeout la i) (it_stalled_order t)\<rparr>"

section \<open>The loop\<close>

lemma expired_sorted:
  assumes "sorted (map la (i # xs))" "\<not> expired now timeout la i"
  shows "filter (\<lambda>j. \<not> expired now timeout la j) (i # xs) = i # xs"
  using assms by (force simp: expired_def intro: filter_True)

lemma filter_class:
  assumes "tracker_ok la now t" "class_list st t = i # xs"
  shows "class_list st (QuictunIdleTracker_Remove i t) = xs"
    "class_list (\<not> st) (QuictunIdleTracker_Remove i t) = class_list (\<not> st) t"
  using assms by (auto simp: class_list_def tracker_ok_def wf_simps split: if_splits)

locale sweepable =
  fixes trk :: "'s \<Rightarrow> idle_tracker" and la :: "'s \<Rightarrow> tunnel_id \<Rightarrow> QuicTime" and clock :: "'s \<Rightarrow> QuicTime"
    and close :: "tunnel_id \<Rightarrow> 's \<Rightarrow> 's" and inv :: "'s \<Rightarrow> bool"
  assumes inv_ok: "inv s \<Longrightarrow> tracker_ok (la s) (clock s) (trk s)"
    and close_inv: "inv s \<Longrightarrow> is_linked i (trk s) \<Longrightarrow> inv (close i s)"
    and close_trk: "inv s \<Longrightarrow> is_linked i (trk s) \<Longrightarrow> trk (close i s) = QuictunIdleTracker_Remove i (trk s)"
    and close_la: "inv s \<Longrightarrow> is_linked i (trk s) \<Longrightarrow> la (close i s) = la s"
begin

lemma sweep_class:
  assumes "inv s" "class_list st (trk s) = xs"
  shows "\<exists>s'. CloseExpired trk la close st now timeout s = Some s' \<and> inv s' \<and> la s' = la s \<and>
    class_list st (trk s') = filter (\<lambda>i. \<not> expired now timeout (la s) i) xs \<and>
    class_list (\<not> st) (trk s') = class_list (\<not> st) (trk s)"
  using assms
proof (induction xs arbitrary: s)
  case Nil
  then show ?case by (simp add: CloseExpired_def while_option_unfold)
next
  case (Cons i xs)
  note ok = inv_ok [OF Cons.prems(1)]
  have l: "is_linked i (trk s)" using Cons.prems(2) by (auto simp: is_linked_def class_list_def split: if_splits)
  show ?case
  proof (cases "expired now timeout (la s) i")
    case True
    have "CloseExpired trk la close st now timeout s = CloseExpired trk la close st now timeout (close i s)"
      using True Cons.prems(2) by (simp add: CloseExpired_def while_option_unfold [of _ _ s])
    moreover note Cons.IH [OF close_inv [OF Cons.prems(1) l]]
    ultimately show ?thesis
      using True filter_class [OF ok Cons.prems(2)] close_trk [OF Cons.prems(1) l] close_la [OF Cons.prems(1) l] by simp
  next
    case False
    have "sorted (map (la s) (i # xs))"
      using ok Cons.prems(2) by (auto simp: tracker_ok_def class_list_def split: if_splits)
    from expired_sorted [OF this False] show ?thesis
      using False Cons.prems by (simp add: CloseExpired_def while_option_unfold [of _ _ s])
  qed
qed

theorem sweeps:
  assumes "inv s"
  shows "\<exists>s'. QuictunIdleTracker_CloseIdleTunnels trk la close now timeout stalled_timeout s = Some s' \<and> inv s' \<and> la s' = la s \<and>
    trk s' = sweep_all now timeout stalled_timeout (la s) (trk s)"
proof -
  obtain u where u: "CloseExpired trk la close False now timeout s = Some u" "inv u" "la u = la s"
    "class_list False (trk u) = filter (\<lambda>i. \<not> expired now timeout (la s) i) (class_list False (trk s))"
    "class_list True (trk u) = class_list True (trk s)" using sweep_class [OF assms refl, of False] by auto
  obtain v where v: "CloseExpired trk la close True now stalled_timeout u = Some v" "inv v" "la v = la u"
    "class_list True (trk v) = filter (\<lambda>i. \<not> expired now stalled_timeout (la u) i) (class_list True (trk u))"
    "class_list False (trk v) = class_list False (trk u)" using sweep_class [OF u(2) refl, of True] by auto
  have "trk v = sweep_all now timeout stalled_timeout (la s) (trk s)"
    using u(3-5) v(4,5) by (cases "trk v") (simp add: sweep_all_def class_list_def)
  then show ?thesis using u v by (simp add: QuictunIdleTracker_CloseIdleTunnels_def)
qed

end

section \<open>The tunnel of the state, and the others\<close>

definition close_tracked :: "'a tn_handler \<Rightarrow> tunnel_id \<Rightarrow> 'a tn_handler" where
  "close_tracked oc i w =
     (if i = tn_id w then tunnel_step oc IdleSweep w else tunnel_step oc (OtherTunnelClosed i) w)"

context tunnel_owner
begin

lemma close_tracker:
  assumes nc: "\<not> tn_closed w"
  shows "tk_tracker (QuictunTunnel_Close oc b w) = QuictunIdleTracker_Remove (tn_id w) (tk_tracker w)"
    "tk_activity (QuictunTunnel_Close oc b w) = tk_activity w"
proof -
  have s: "tk_tracker v = tk_tracker u" "tk_activity v = tk_activity u" if "stream_only u v" for u v :: "'a tunnel_scheme"
    using same_more [of v u] that by (simp_all add: stream_only_def)
  note steps = s [OF close_stop_reading_stream_only] s [OF close_reset_stream_only]
  have "tk_tracker (close_socket v) = tk_tracker v" "tk_activity (close_socket v) = tk_activity v"
    "tk_tracker (close_notify oc v) = tk_tracker v" "tk_activity (close_notify oc v) = tk_activity v" for v :: "'a tunnel_scheme"
    by (simp_all add: close_step_defs)
  then show "tk_tracker (QuictunTunnel_Close oc b w) = QuictunIdleTracker_Remove (tn_id w) (tk_tracker w)"
    "tk_activity (QuictunTunnel_Close oc b w) = tk_activity w"
    by (simp_all add: QuictunTunnel_Close_def steps close_begin_fields [OF nc])
qed

end

sublocale tunnel_owner \<subseteq> swept: sweepable tk_tracker tk_activity cn_now "close_tracked oc"
    "\<lambda>w. tunnel_inv P \<sigma> k m pre True w \<and> tn_id w = j \<and> tn_started w" for \<sigma> k m pre j
proof unfold_locales
  fix i and w :: "'a tunnel_scheme"
  assume a: "tunnel_inv P \<sigma> k m pre True w \<and> tn_id w = j \<and> tn_started w"
  then have i: "tunnel_inv P \<sigma> k m pre True w" and ok: "tracking_ok w" using inv_parts(4) by blast+
  then show "tracker_ok (tk_activity w) (cn_now w) (tk_tracker w)" by (simp add: tracking_ok_def)
  assume l: "is_linked i (tk_tracker w)"
  then have nc: "i = tn_id w \<Longrightarrow> \<not> tn_closed w" using ok by (auto simp: tracking_ok_def is_linked_class)
  have "tunnel_inv P \<sigma> k m pre True (close_tracked oc i w)"
    using step_inv [OF i, of IdleSweep] step_inv [OF i, of "OtherTunnelClosed i"] l by (auto simp: close_tracked_def)
  moreover have "tunnel_core P w" using i by (simp add: tunnel_inv_def tunnel_ok_def)
  then have "tn_id (close_tracked oc i w) = tn_id w \<and> tn_started (close_tracked oc i w) = tn_started w"
    using close_ok(3) [OF _ nc] by (simp add: close_tracked_def kept_by_close_def)
  ultimately show "tunnel_inv P \<sigma> k m pre True (close_tracked oc i w) \<and> tn_id (close_tracked oc i w) = j \<and> tn_started (close_tracked oc i w)"
    using a by simp
  show "tk_tracker (close_tracked oc i w) = QuictunIdleTracker_Remove i (tk_tracker w)"
    "tk_activity (close_tracked oc i w) = tk_activity w"
    using close_tracker nc by (simp_all add: close_tracked_def)
qed

context tunnel_owner
begin

lemma tunnel_sweeps:
  assumes "tunnel_inv P \<sigma> k m pre True w" "tn_started w"
  shows "\<exists>v. QuictunIdleTracker_CloseIdleTunnels tk_tracker tk_activity (close_tracked oc) now timeout stalled_timeout w = Some v \<and>
    tunnel_inv P \<sigma> k m pre True v \<and> tn_id v = tn_id w \<and> tn_started v \<and>
    tk_tracker v = sweep_all now timeout stalled_timeout (tk_activity w) (tk_tracker w)"
  using swept.sweeps [of \<sigma> k m pre w "tn_id w"] assms by blast

end

section \<open>The sweep is exact\<close>

lemma sweep_all_class:
  assumes "tracker_ok la now t"
  shows "tracker_class (sweep_all now' timeout stalled_timeout la t) i =
    (case tracker_class t i of
       None \<Rightarrow> None
     | Some st \<Rightarrow> if expired now' (if st then stalled_timeout else timeout) la i then None else Some st)"
  using assms by (auto simp: tracker_class_def sweep_all_def tracker_ok_def)

text \<open>C13. The sweep for idle tunnels, which only ever looks at the front of a list, ends and does what a look at
  every tunnel would do: in each of the two classes exactly the tunnels that have been quiet for the
  class's timeout leave the tracker, the others stay in their order, and the tunnel is closed if and only
  if it is one of those.\<close>

theorem idle_sweep_exact:
  assumes "tunnel_owner oc P" "tunnel_inv P \<sigma> k 0 pre True w0" "tunnel_reach oc \<sigma> w0 w" "tn_started w"
  shows "\<exists>v. driver_CloseIdleTunnels tk_tracker tk_activity (close_tracked oc) now idle stalled w = Some v \<and>
    tk_tracker v = sweep_all now idle (min stalled idle) (tk_activity w) (tk_tracker w) \<and>
    (tn_closed v \<longleftrightarrow> tn_closed w \<or> expired now (if tn_stalled w then min stalled idle else idle) (tk_activity w) (tn_id w))"
proof -
  have i: "tunnel_inv P \<sigma> k 0 pre True w" using tunnel_owner.reach_inv [OF assms(1,3,2)] .
  from tunnel_owner.tunnel_sweeps [OF assms(1) i assms(4), of now idle "min stalled idle"]
  obtain v where v: "driver_CloseIdleTunnels tk_tracker tk_activity (close_tracked oc) now idle stalled w = Some v"
    "tunnel_inv P \<sigma> k 0 pre True v" "tn_id v = tn_id w" "tn_started v"
    "tk_tracker v = sweep_all now idle (min stalled idle) (tk_activity w) (tk_tracker w)"
    by (auto simp: driver_CloseIdleTunnels_def)
  have t: "tracking_ok w" "tracking_ok v" using inv_parts(4) i v(2) by blast+
  then have "tracker_ok (tk_activity w) (cn_now w) (tk_tracker w)" by (simp add: tracking_ok_def)
  from sweep_all_class [OF this, of now idle "min stalled idle" "tn_id w", folded v(5)]
  have "tn_closed v \<longleftrightarrow> tn_closed w \<or> expired now (if tn_stalled w then min stalled idle else idle) (tk_activity w) (tn_id w)"
    using t assms(4) v(3,4) by (auto simp: tracking_ok_def split: if_splits)
  then show ?thesis using v(1,5) by blast
qed

theorem idle_sweep_exact_witness:
  "\<exists>w v. sample_end = Some w \<and> \<not> tn_closed w \<and>
     driver_CloseIdleTunnels tk_tracker tk_activity (close_tracked (\<lambda>w. w)) (seconds 301 + 1000000) (seconds 300) (seconds 60) w = Some v \<and>
     tn_closed v"
proof -
  obtain w where w: "sample_end = Some w" "tunnel_reach (\<lambda>w. w) sample_stream sample_tunnel w" "\<not> tn_closed w" by (rule sample_ends)
  have "map_option (\<lambda>w. (tn_started w, tn_stalled w, tk_activity w (tn_id w))) sample_end = Some (True, False, 1000000)" by code_simp
  then have f: "tn_started w" "\<not> tn_stalled w" "tk_activity w (tn_id w) = 1000000" by (simp_all add: w(1))
  from idle_sweep_exact [OF sample_owner sample_inv w(2) f(1), of "seconds 301 + 1000000" "seconds 300" "seconds 60"] f w(1,3)
  show ?thesis by (auto simp: expired_def)
qed

end
