(* ===== verification/Session_Cache.thy ===== *)
theory Session_Cache
  imports Prelude
begin

text \<open>
  \<open>QuictunReusableSessionCache\<close> (\<open>quictun_reusable_session_cache.cc\<close>): one TLS session for
  the one server a client process talks to, handed out to every new connection until it
  expires.

  The session objects belong to the TLS library, which is the parameter \<open>api\<close>: the time a
  session was issued and its lifetime in seconds, and the copy of a session that does not
  allow early data, which can fail.  \<open>rc_mixed_servers\<close> says whether the debug check for a
  second server has failed.
\<close>

record 'session ssl_api =
  SSL_SESSION_get_time :: "'session \<Rightarrow> 64 word"
  SSL_SESSION_get_timeout :: "'session \<Rightarrow> 32 word"
  SSL_SESSION_copy_without_early_data :: "'session \<Rightarrow> 'session option"

record ('server, 'session, 'params, 'app) session_cache =
  rc_server_id :: "'server option"
  rc_session :: "'session option"
  rc_params :: "'params option"
  rc_application_state :: "'app option"
  rc_token :: bytes
  rc_mixed_servers :: bool

record ('session, 'params, 'app) resumption_state =
  rs_tls_session :: 'session
  rs_transport_params :: "'params option"
  rs_application_state :: "'app option"
  rs_token :: bytes

definition new_session_cache :: "('server, 'session, 'params, 'app) session_cache" where
  "new_session_cache =
     \<lparr>rc_server_id = None, rc_session = None, rc_params = None, rc_application_state = None, rc_token = [],
      rc_mixed_servers = False\<rparr>"

definition IsSessionStillValid :: "'session ssl_api \<Rightarrow> 'session option \<Rightarrow> 64 word \<Rightarrow> bool" where
  "IsSessionStillValid api session now =
     (case session of
        None \<Rightarrow> False
      | Some s \<Rightarrow>
          \<not> (now + 1 < SSL_SESSION_get_time api s \<or>
             now \<ge> SSL_SESSION_get_time api s + ucast (SSL_SESSION_get_timeout api s)))"

definition check_server ::
    "'server \<Rightarrow> ('server, 'session, 'params, 'app) session_cache \<Rightarrow> ('server, 'session, 'params, 'app) session_cache" where
  "check_server server_id c =
     (if rc_server_id c = None \<or> rc_server_id c = Some server_id then c else c\<lparr>rc_mixed_servers := True\<rparr>)"

definition drop_session ::
    "('server, 'session, 'params, 'app) session_cache \<Rightarrow> ('server, 'session, 'params, 'app) session_cache" where
  "drop_session c = c\<lparr>rc_session := None, rc_params := None, rc_application_state := None\<rparr>"

definition QuictunReusableSessionCache_Insert ::
    "'server \<Rightarrow> 'session option \<Rightarrow> 'params \<Rightarrow> 'app option \<Rightarrow>
     ('server, 'session, 'params, 'app) session_cache \<Rightarrow> ('server, 'session, 'params, 'app) session_cache" where
  "QuictunReusableSessionCache_Insert server_id session params application_state c =
     (check_server server_id c)\<lparr>rc_server_id := Some server_id, rc_session := session, rc_params := Some params,
       rc_application_state := application_state\<rparr>"

definition QuictunReusableSessionCache_Lookup ::
    "'session ssl_api \<Rightarrow> 'server \<Rightarrow> 64 word \<Rightarrow> ('server, 'session, 'params, 'app) session_cache \<Rightarrow>
     ('session, 'params, 'app) resumption_state option \<times> ('server, 'session, 'params, 'app) session_cache" where
  "QuictunReusableSessionCache_Lookup api server_id now c =
     (case rc_session c of
        None \<Rightarrow> (None, c)
      | Some session \<Rightarrow>
          let c = check_server server_id c
          in if \<not> IsSessionStillValid api (Some session) now then (None, drop_session c)
             else (Some \<lparr>rs_tls_session = session, rs_transport_params = rc_params c,
                     rs_application_state = rc_application_state c, rs_token = rc_token c\<rparr>,
                   c\<lparr>rc_token := []\<rparr>))"

definition QuictunReusableSessionCache_ClearEarlyData ::
    "'session ssl_api \<Rightarrow> ('server, 'session, 'params, 'app) session_cache \<Rightarrow> ('server, 'session, 'params, 'app) session_cache" where
  "QuictunReusableSessionCache_ClearEarlyData api c =
     (case rc_session c of
        None \<Rightarrow> c
      | Some session \<Rightarrow> c\<lparr>rc_session := SSL_SESSION_copy_without_early_data api session\<rparr>)"

definition QuictunReusableSessionCache_OnNewTokenReceived ::
    "bytes \<Rightarrow> ('server, 'session, 'params, 'app) session_cache \<Rightarrow> ('server, 'session, 'params, 'app) session_cache" where
  "QuictunReusableSessionCache_OnNewTokenReceived token c = (if token = [] then c else c\<lparr>rc_token := token\<rparr>)"

definition QuictunReusableSessionCache_RemoveExpiredEntries ::
    "'session ssl_api \<Rightarrow> 64 word \<Rightarrow> ('server, 'session, 'params, 'app) session_cache \<Rightarrow>
     ('server, 'session, 'params, 'app) session_cache" where
  "QuictunReusableSessionCache_RemoveExpiredEntries api now c =
     (if rc_session c \<noteq> None \<and> \<not> IsSessionStillValid api (rc_session c) now then drop_session c else c)"

definition QuictunReusableSessionCache_Clear ::
    "('server, 'session, 'params, 'app) session_cache \<Rightarrow> ('server, 'session, 'params, 'app) session_cache" where
  "QuictunReusableSessionCache_Clear c = (drop_session c)\<lparr>rc_token := []\<rparr>"

definition QuictunReusableSessionCache_GetSize :: "('server, 'session, 'params, 'app) session_cache \<Rightarrow> nat" where
  "QuictunReusableSessionCache_GetSize c = (if rc_session c \<noteq> None then 1 else 0)"

definition QuictunReusableSessionCache_GetMaxSize :: "('server, 'session, 'params, 'app) session_cache \<Rightarrow> nat" where
  "QuictunReusableSessionCache_GetMaxSize c = 1"

section \<open>Use of the cache\<close>

datatype ('server, 'session, 'params, 'app) cache_op =
    InsertSession 'server "'session option" 'params "'app option"
  | LookupSession 'server "64 word"
  | DropEarlyData
  | NewToken bytes
  | RemoveExpired "64 word"
  | ClearCache

fun cache_step ::
    "'session ssl_api \<Rightarrow> ('server, 'session, 'params, 'app) cache_op \<Rightarrow> ('server, 'session, 'params, 'app) session_cache \<Rightarrow>
     ('server, 'session, 'params, 'app) session_cache" where
  "cache_step api (InsertSession sv s p a) c = QuictunReusableSessionCache_Insert sv s p a c"
| "cache_step api (LookupSession sv t) c = snd (QuictunReusableSessionCache_Lookup api sv t c)"
| "cache_step api DropEarlyData c = QuictunReusableSessionCache_ClearEarlyData api c"
| "cache_step api (NewToken tk) c = QuictunReusableSessionCache_OnNewTokenReceived tk c"
| "cache_step api (RemoveExpired t) c = QuictunReusableSessionCache_RemoveExpiredEntries api t c"
| "cache_step api ClearCache c = QuictunReusableSessionCache_Clear c"

text \<open>What a client of the cache expects: the session that was inserted last, as long as nothing took it away,
  and, once, the token that came last.\<close>

fun expected_session :: "'session ssl_api \<Rightarrow> ('server, 'session, 'params, 'app) cache_op \<Rightarrow> 'session option \<Rightarrow> 'session option" where
  "expected_session api (InsertSession sv s p a) e = s"
| "expected_session api (LookupSession sv t) e = (if IsSessionStillValid api e t then e else None)"
| "expected_session api DropEarlyData e = Option.bind e (SSL_SESSION_copy_without_early_data api)"
| "expected_session api (NewToken tk) e = e"
| "expected_session api (RemoveExpired t) e = (if IsSessionStillValid api e t then e else None)"
| "expected_session api ClearCache e = None"

fun expected_token :: "('server, 'session, 'params, 'app) cache_op \<Rightarrow> bool \<Rightarrow> bytes \<Rightarrow> bytes" where
  "expected_token (LookupSession sv t) answered tk = (if answered then [] else tk)"
| "expected_token (NewToken tk') answered tk = (if tk' = [] then tk else tk')"
| "expected_token ClearCache answered tk = []"
| "expected_token _ answered tk = tk"

fun op_answered :: "'session ssl_api \<Rightarrow> ('server, 'session, 'params, 'app) cache_op \<Rightarrow> 'session option \<Rightarrow> bool" where
  "op_answered api (LookupSession sv t) e = IsSessionStillValid api e t"
| "op_answered api _ e = False"

fun expected :: "'session ssl_api \<Rightarrow> ('server, 'session, 'params, 'app) cache_op list \<Rightarrow> 'session option \<times> bytes" where
  "expected api ops =
     fold (\<lambda>op (e, tk). (expected_session api op e, expected_token op (op_answered api op e) tk)) ops (None, [])"

lemma lookup_cases:
  "QuictunReusableSessionCache_Lookup api sv t c =
     (if rc_session c = None then (None, c)
      else if IsSessionStillValid api (rc_session c) t
      then (Some \<lparr>rs_tls_session = the (rc_session c), rs_transport_params = rc_params c,
              rs_application_state = rc_application_state c, rs_token = rc_token c\<rparr>, (check_server sv c)\<lparr>rc_token := []\<rparr>)
      else (None, drop_session (check_server sv c)))"
  by (auto simp: QuictunReusableSessionCache_Lookup_def check_server_def Let_def split: option.split)

lemma valid_some: "IsSessionStillValid api e t \<Longrightarrow> e \<noteq> None"
  by (cases e) (simp_all add: IsSessionStillValid_def)

lemma cache_step_expected:
  "rc_session (cache_step api op c) = expected_session api op (rc_session c)"
  "rc_token (cache_step api op c) = expected_token op (op_answered api op (rc_session c)) (rc_token c)"
  by (cases op; auto simp: lookup_cases QuictunReusableSessionCache_Insert_def QuictunReusableSessionCache_ClearEarlyData_def
      QuictunReusableSessionCache_OnNewTokenReceived_def QuictunReusableSessionCache_RemoveExpiredEntries_def
      QuictunReusableSessionCache_Clear_def drop_session_def check_server_def dest: valid_some split: option.split)+

lemma cache_run_expected:
  "rc_session (fold (cache_step api) ops c) = fst (fold (\<lambda>op (e, tk). (expected_session api op e, expected_token op (op_answered api op e) tk))
     ops (rc_session c, rc_token c))"
  "rc_token (fold (cache_step api) ops c) = snd (fold (\<lambda>op (e, tk). (expected_session api op e, expected_token op (op_answered api op e) tk))
     ops (rc_session c, rc_token c))"
  by (induction ops arbitrary: c) (simp_all add: cache_step_expected)

text \<open>C16. A lookup hands out the session that was inserted last, with its lifetime checked and without early
  data once that was rejected, and takes nothing from the cache but the token: however many connections
  look it up, the next one gets the same session.  A token is handed out once, with the last token that
  came.  There is no answer if and only if there is no session or it has expired.\<close>

theorem session_cache_reusable:
  fixes c :: "('server, 'session, 'params, 'app) session_cache"
  assumes "expected api ops = (e, tk)" "c = fold (cache_step api) ops new_session_cache"
  shows "(case fst (QuictunReusableSessionCache_Lookup api sv t c) of
       None \<Rightarrow> \<not> IsSessionStillValid api e t
     | Some r \<Rightarrow> IsSessionStillValid api e t \<and> e = Some (rs_tls_session r) \<and> rs_token r = tk) \<and>
    (IsSessionStillValid api e t \<longrightarrow>
       rc_session (snd (QuictunReusableSessionCache_Lookup api sv t c)) = e \<and>
       rc_token (snd (QuictunReusableSessionCache_Lookup api sv t c)) = [])"
proof -
  have "rc_session c = e" "rc_token c = tk"
    using cache_run_expected [of api ops "new_session_cache :: ('server, 'session, 'params, 'app) session_cache"] assms
    by (simp_all add: new_session_cache_def)
  then show ?thesis using valid_some by (auto simp: lookup_cases check_server_def)
qed

definition sample_api :: "nat ssl_api" where
  "sample_api = \<lparr>SSL_SESSION_get_time = (\<lambda>s. word_of_nat s), SSL_SESSION_get_timeout = (\<lambda>s. 7200),
     SSL_SESSION_copy_without_early_data = (\<lambda>s. Some (s + 1))\<rparr>"

definition sample_cache_ops :: "(string, nat, bool, bool) cache_op list" where
  "sample_cache_ops = [InsertSession ''server'' (Some 1000) True None, NewToken [3], LookupSession ''server'' 1500, DropEarlyData]"

theorem session_cache_reusable_witness:
  "expected sample_api sample_cache_ops = (Some 1001, []) \<and>
   map_option rs_tls_session
     (fst (QuictunReusableSessionCache_Lookup sample_api ''server'' 1600 (fold (cache_step sample_api) sample_cache_ops new_session_cache))) =
     Some 1001"
proof -
  have e: "expected sample_api sample_cache_ops = (Some 1001, [])" by code_simp
  have "IsSessionStillValid sample_api (Some 1001) 1600" by code_simp
  with session_cache_reusable [OF e refl, where sv = "''server''" and t = 1600] e show ?thesis by (auto split: option.splits)
qed

end
