(* ===== verification/Driver_Calls.thy ===== *)
theory Driver_Calls
  imports Prelude
begin

text \<open>
  What the two drivers share: the list of writers that wait for a socket
  (\<open>QuicBlockedWriterList\<close>, \<open>quic_blocked_writer_list.cc\<close>), the hash maps of connections, and
  the calls a connection makes into its driver while the driver calls it.

  A connection is named by the identity of its object, \<open>conn_ref\<close>.  What a connection does
  inside is the subject of the theories on connections; here a call into a connection is
  the list of the callbacks it makes before it returns: that its write blocked, with
  whether its writer is blocked at that time, and that it closed.
\<close>

type_synonym conn_ref = nat

section \<open>The list of blocked writers\<close>

definition QuicBlockedWriterList_Add :: "conn_ref \<Rightarrow> bool \<Rightarrow> conn_ref list \<Rightarrow> conn_ref list" where
  "QuicBlockedWriterList_Add r is_writer_blocked l =
     (if \<not> is_writer_blocked then l else if r \<in> set l then l else l @ [r])"

definition QuicBlockedWriterList_Empty :: "conn_ref list \<Rightarrow> bool" where
  "QuicBlockedWriterList_Empty l \<longleftrightarrow> l = []"

definition QuicBlockedWriterList_Remove :: "conn_ref \<Rightarrow> conn_ref list \<Rightarrow> bool \<times> conn_ref list" where
  "QuicBlockedWriterList_Remove r l = (r \<in> set l, removeAll r l)"

lemma Add_set: "set (QuicBlockedWriterList_Add r b l) \<subseteq> insert r (set l)" "distinct l \<Longrightarrow> distinct (QuicBlockedWriterList_Add r b l)"
  by (auto simp: QuicBlockedWriterList_Add_def)

lemma Remove_set [simp]:
  "set (snd (QuicBlockedWriterList_Remove r l)) = set l - {r}" "distinct l \<Longrightarrow> distinct (snd (QuicBlockedWriterList_Remove r l))"
  by (auto simp: QuicBlockedWriterList_Remove_def distinct_removeAll)

lemma Remove_empty [simp]: "snd (QuicBlockedWriterList_Remove r []) = []"
  by (simp add: QuicBlockedWriterList_Remove_def)

section \<open>Hash maps\<close>

text \<open>As lists of entries; \<open>emplace\<close> does nothing if the key is there.\<close>

definition emplace :: "'k \<Rightarrow> 'v \<Rightarrow> ('k \<times> 'v) list \<Rightarrow> ('k \<times> 'v) list" where
  "emplace k v m = (if map_of m k = None then (k, v) # m else m)"

definition erase_key :: "'k \<Rightarrow> ('k \<times> 'v) list \<Rightarrow> ('k \<times> 'v) list" where
  "erase_key k m = filter (\<lambda>(j, _). j \<noteq> k) m"

definition erase_value :: "'v \<Rightarrow> ('k \<times> 'v) list \<Rightarrow> ('k \<times> 'v) list" where
  "erase_value v m = filter (\<lambda>(_, u). u \<noteq> v) m"

lemma map_of_erase_key [simp]: "map_of (erase_key k m) = (map_of m)(k := None)"
  by (induction m) (auto simp: erase_key_def fun_eq_iff)

lemma erase_key_facts:
  "set (erase_key k m) \<subseteq> set m" "distinct (map fst m) \<Longrightarrow> distinct (map fst (erase_key k m))"
  "distinct (map snd m) \<Longrightarrow> distinct (map snd (erase_key k m))" "length (erase_key k m) \<le> length m"
  by (auto simp: erase_key_def distinct_map inj_on_def)

lemma erase_key_snd:
  assumes "distinct (map fst m)" "distinct (map snd m)" "map_of m k = Some v"
  shows "snd ` set (erase_key k m) = snd ` set m - {v}"
proof -
  have "u = v \<longleftrightarrow> j = k" if "(j, u) \<in> set m" for j u
    using that map_of_SomeD [OF assms(3)] assms(1,2) unfolding distinct_map inj_on_def by (metis fst_conv snd_conv)
  then show ?thesis by (force simp: erase_key_def)
qed

lemma emplace_cases:
  obtains "map_of m k = None" "emplace k v m = (k, v) # m" | u where "map_of m k = Some u" "emplace k v m = m"
  by (cases "map_of m k") (auto simp: emplace_def)

section \<open>Calls\<close>

datatype conn_call = CallWriteBlocked bool | CallClosed

fun run_calls :: "(conn_ref \<Rightarrow> bool \<Rightarrow> 'd \<Rightarrow> 'd) \<Rightarrow> (conn_ref \<Rightarrow> 'd \<Rightarrow> 'd) \<Rightarrow> conn_ref \<Rightarrow> conn_call list \<Rightarrow> 'd \<Rightarrow> 'd" where
  "run_calls blocked closed r [] d = d"
| "run_calls blocked closed r (CallWriteBlocked b # calls) d = run_calls blocked closed r calls (blocked r b d)"
| "run_calls blocked closed r (CallClosed # calls) d = run_calls blocked closed r calls (closed r d)"

datatype io_event = IoReadable | IoWritable | IoError

text \<open>What the drivers promise to their connections: the callbacks keep the driver's invariant, for a
  connection that is not destroyed.\<close>

locale driver_callbacks =
  fixes blocked :: "conn_ref \<Rightarrow> bool \<Rightarrow> 'd \<Rightarrow> 'd" and closed :: "conn_ref \<Rightarrow> 'd \<Rightarrow> 'd" and ok :: "conn_ref \<Rightarrow> 'd \<Rightarrow> bool"
  assumes blocked_ok: "ok r d \<Longrightarrow> ok r (blocked r b d)"
    and closed_ok: "ok r d \<Longrightarrow> ok r (closed r d)"
begin

lemma calls_ok: "ok r d \<Longrightarrow> ok r (run_calls blocked closed r calls d)"
proof (induction calls arbitrary: d)
  case (Cons c calls)
  then show ?case by (cases c) (simp_all add: blocked_ok closed_ok)
qed simp

end

end
