(* ===== verification/Server_Driver.thy ===== *)
theory Server_Driver
  imports Driver_Calls
begin

text \<open>
  \<open>QuictunServerDriver\<close> (\<open>quictun_server_driver.cc\<close>): one UDP socket for all connections, a
  map of them by connection ID, the admission of new ones, and their removal.

  What the framer reads from the header of a packet is part of the packet here: its
  destination connection ID, or nothing if the header does not parse.  A level-triggered
  event loop delivers an event of the socket once and needs to be told to do so again;
  \<open>sd_armed\<close> are the events it will deliver.  \<open>sd_destroyed\<close>, \<open>sd_called_dead\<close> and \<open>sd_created\<close>
  are auxiliary: the connections that are destroyed, whether one of them was called, and how
  many were made since the last \<open>CollectGarbage\<close>.
\<close>

type_synonym QuicConnectionId = bytes

definition kQuictunMinInitialPacketLength :: nat where
  "kQuictunMinInitialPacketLength = 1200"

record server_driver =
  sd_max_new_connections_per_event_loop :: int
  sd_max_concurrent_connections :: int
  sd_edge_triggered :: bool
  sd_armed :: "io_event set"
  sd_connections :: "(QuicConnectionId \<times> conn_ref) list"
  sd_connection_id :: "conn_ref \<Rightarrow> QuicConnectionId"
  sd_write_blocked_list :: "conn_ref list"
  sd_pending_removal :: "QuicConnectionId list"
  sd_new_connections_allowed :: int
  sd_next_ref :: conn_ref
  sd_destroyed :: "conn_ref list"
  sd_called_dead :: bool
  sd_created :: nat

section \<open>Start\<close>

definition QuictunServerDriver_new :: "int \<Rightarrow> int \<Rightarrow> bool \<Rightarrow> server_driver" where
  "QuictunServerDriver_new max_new max_concurrent edge_triggered =
     \<lparr>sd_max_new_connections_per_event_loop = max_new, sd_max_concurrent_connections = max_concurrent,
      sd_edge_triggered = edge_triggered, sd_armed = {}, sd_connections = [], sd_connection_id = (\<lambda>_. []),
      sd_write_blocked_list = [], sd_pending_removal = [], sd_new_connections_allowed = max_new, sd_next_ref = 0,
      sd_destroyed = [], sd_called_dead = False, sd_created = 0\<rparr>"

datatype start_error = CreateFailed | ReuseFailed | BindFailed | RegisterFailed

record listen_answers =
  ln_create :: bool
  ln_reuse :: bool
  ln_bind :: bool
  ln_register :: bool

definition QuictunServerDriver_Start :: "listen_answers \<Rightarrow> server_driver \<Rightarrow> start_error + server_driver" where
  "QuictunServerDriver_Start a d =
     (if \<not> ln_create a then Inl CreateFailed
      else if \<not> ln_reuse a then Inl ReuseFailed
      else if \<not> ln_bind a then Inl BindFailed
      else if \<not> ln_register a then Inl RegisterFailed
      else Inr (d\<lparr>sd_armed := {IoReadable, IoWritable, IoError}\<rparr>))"

section \<open>The callbacks of the connections\<close>

definition sd_rearm :: "io_event \<Rightarrow> server_driver \<Rightarrow> server_driver" where
  "sd_rearm e d = (if \<not> sd_edge_triggered d then d\<lparr>sd_armed := insert e (sd_armed d)\<rparr> else d)"

definition server_OnWriteBlocked :: "conn_ref \<Rightarrow> bool \<Rightarrow> server_driver \<Rightarrow> server_driver" where
  "server_OnWriteBlocked r is_blocked d =
     sd_rearm IoWritable (d\<lparr>sd_write_blocked_list := QuicBlockedWriterList_Add r is_blocked (sd_write_blocked_list d)\<rparr>)"

definition server_RemoveConnection :: "conn_ref \<Rightarrow> server_driver \<Rightarrow> server_driver" where
  "server_RemoveConnection r d =
     (let d = d\<lparr>sd_write_blocked_list := snd (QuicBlockedWriterList_Remove r (sd_write_blocked_list d))\<rparr>
      in d\<lparr>sd_pending_removal := sd_pending_removal d @ [sd_connection_id d r]\<rparr>)"

definition server_call :: "conn_ref \<Rightarrow> conn_call list \<Rightarrow> server_driver \<Rightarrow> server_driver" where
  "server_call r calls d =
     (if r \<in> set (sd_destroyed d) then d\<lparr>sd_called_dead := True\<rparr>
      else run_calls server_OnWriteBlocked server_RemoveConnection r calls d)"

section \<open>Packets\<close>

record udp_packet =
  pk_destination_connection_id :: "QuicConnectionId option"
  pk_length :: nat

text \<open>The cast of a 32-bit integer to \<open>size_t\<close>.\<close>

definition size_cast :: "int \<Rightarrow> nat" where
  "size_cast n = nat (n mod 2 ^ 64)"

text \<open>\<open>calls\<close> are what an existing connection does with the packet, \<open>creation\<close> what the constructor of a new
  one does, or that there is none.\<close>

definition server_ProcessPacket :: "conn_call list \<Rightarrow> conn_call list option \<Rightarrow> udp_packet \<Rightarrow> server_driver \<Rightarrow> server_driver" where
  "server_ProcessPacket calls creation packet d =
     (case pk_destination_connection_id packet of
        None \<Rightarrow> d
      | Some dcid \<Rightarrow>
          (case map_of (sd_connections d) dcid of
             Some r \<Rightarrow> server_call r calls d
           | None \<Rightarrow>
               if pk_length packet < kQuictunMinInitialPacketLength then d
               else if length (sd_connections d) \<ge> size_cast (sd_max_concurrent_connections d) then d
               else if sd_new_connections_allowed d \<le> 0 then d
               else (case creation of
                       None \<Rightarrow> d
                     | Some calls \<Rightarrow>
                         let r = sd_next_ref d;
                             d = d\<lparr>sd_next_ref := r + 1, sd_connection_id := (sd_connection_id d)(r := dcid)\<rparr>;
                             d = server_call r calls d
                         in d\<lparr>sd_connections := emplace dcid r (sd_connections d),
                              sd_new_connections_allowed := sd_new_connections_allowed d - 1,
                              sd_created := sd_created d + 1\<rparr>)))"

type_synonym packet_answers = "conn_call list \<times> conn_call list option \<times> udp_packet"

definition QuicBlockedWriterList_OnWriterUnblocked :: "(conn_ref \<Rightarrow> conn_call list) \<Rightarrow> server_driver \<Rightarrow> server_driver" where
  "QuicBlockedWriterList_OnWriterUnblocked writes d =
     (let temp_list = sd_write_blocked_list d;
          d = d\<lparr>sd_write_blocked_list := []\<rparr>
      in fold (\<lambda>r. server_call r (writes r)) temp_list d)"

text \<open>The event loop takes the events it delivers from the armed ones.\<close>

definition server_OnSocketEvent ::
    "io_event set \<Rightarrow> (conn_ref \<Rightarrow> conn_call list) \<Rightarrow> packet_answers list \<Rightarrow> server_driver \<Rightarrow> server_driver" where
  "server_OnSocketEvent events writes packets d =
     (let d = (if IoError \<in> events then sd_rearm IoError d else d);
          d = (if IoWritable \<in> events
               then let d = QuicBlockedWriterList_OnWriterUnblocked writes d
                    in if \<not> QuicBlockedWriterList_Empty (sd_write_blocked_list d) then sd_rearm IoWritable d else d
               else d)
      in if IoReadable \<in> events
         then sd_rearm IoReadable (fold (\<lambda>(calls, creation, p). server_ProcessPacket calls creation p) packets d)
         else d)"

section \<open>Removal\<close>

definition collect_connection :: "QuicConnectionId \<Rightarrow> server_driver \<Rightarrow> server_driver" where
  "collect_connection cid d =
     (case map_of (sd_connections d) cid of
        None \<Rightarrow> d
      | Some r \<Rightarrow>
          d\<lparr>sd_write_blocked_list := snd (QuicBlockedWriterList_Remove r (sd_write_blocked_list d)),
            sd_connections := erase_key cid (sd_connections d), sd_destroyed := r # sd_destroyed d\<rparr>)"

definition server_CollectGarbage :: "server_driver \<Rightarrow> server_driver" where
  "server_CollectGarbage d =
     (let d = fold collect_connection (sd_pending_removal d) d
      in d\<lparr>sd_pending_removal := [], sd_new_connections_allowed := sd_max_new_connections_per_event_loop d, sd_created := 0\<rparr>)"

section \<open>The driver as a state machine\<close>

text \<open>\<open>DriverCall\<close> is anything a connection does by itself: an alarm of it, an event of one of its sockets.\<close>

datatype driver_event =
    DriverSocket "io_event set" "conn_ref \<Rightarrow> conn_call list" "packet_answers list"
  | DriverCall conn_ref "conn_call list"
  | DriverGarbage

fun driver_step :: "driver_event \<Rightarrow> server_driver \<Rightarrow> server_driver" where
  "driver_step (DriverSocket events writes packets) d =
     server_OnSocketEvent events writes packets
       (if sd_edge_triggered d then d else d\<lparr>sd_armed := sd_armed d - events\<rparr>)"
| "driver_step (DriverCall r calls) d = server_call r calls d"
| "driver_step DriverGarbage d = server_CollectGarbage d"

fun driver_event_ok :: "driver_event \<Rightarrow> server_driver \<Rightarrow> bool" where
  "driver_event_ok (DriverSocket events writes packets) d \<longleftrightarrow> sd_edge_triggered d \<or> events \<subseteq> sd_armed d"
| "driver_event_ok (DriverCall r calls) d \<longleftrightarrow> r \<in> snd ` set (sd_connections d)"
| "driver_event_ok DriverGarbage d \<longleftrightarrow> True"

inductive driver_reach :: "server_driver \<Rightarrow> server_driver \<Rightarrow> bool" for d0 where
  driver_start: "driver_reach d0 d0"
| driver_next: "driver_reach d0 d \<Longrightarrow> driver_event_ok e d \<Longrightarrow> driver_reach d0 (driver_step e d)"

fun run_driver :: "driver_event list \<Rightarrow> server_driver \<Rightarrow> server_driver option" where
  "run_driver [] d = Some d"
| "run_driver (e # es) d = (if driver_event_ok e d then run_driver es (driver_step e d) else None)"

lemma run_driver_reach: "run_driver es d = Some d' \<Longrightarrow> driver_reach d0 d \<Longrightarrow> driver_reach d0 d'"
  by (induction es arbitrary: d) (auto split: if_splits intro: driver_next)

section \<open>The invariant\<close>

text \<open>\<open>X\<close> are connections that are being made: they are alive and not in the map yet.\<close>

definition refs_ok :: "conn_ref set \<Rightarrow> server_driver \<Rightarrow> bool" where
  "refs_ok X d \<longleftrightarrow>
     distinct (map fst (sd_connections d)) \<and> distinct (map snd (sd_connections d)) \<and>
     (\<forall>r \<in> snd ` set (sd_connections d) \<union> X. r < sd_next_ref d \<and> r \<notin> set (sd_destroyed d)) \<and>
     (\<forall>r \<in> set (sd_destroyed d). r < sd_next_ref d) \<and>
     set (sd_write_blocked_list d) \<subseteq> snd ` set (sd_connections d) \<union> X \<and> \<not> sd_called_dead d"

definition armed_ok :: "server_driver \<Rightarrow> bool" where
  "armed_ok d \<longleftrightarrow> sd_edge_triggered d \<or> (sd_write_blocked_list d \<noteq> [] \<longrightarrow> IoWritable \<in> sd_armed d)"

definition sd_admission :: "server_driver \<Rightarrow> _" where
  "sd_admission d = (sd_connections d, sd_max_new_connections_per_event_loop d, sd_max_concurrent_connections d,
     sd_new_connections_allowed d, sd_created d, sd_edge_triggered d)"

definition admission_ok :: "server_driver \<Rightarrow> bool" where
  "admission_ok d \<longleftrightarrow>
     length (sd_connections d) \<le> size_cast (sd_max_concurrent_connections d) \<and>
     int (sd_created d) = sd_max_new_connections_per_event_loop d - sd_new_connections_allowed d \<and>
     (sd_created d = 0 \<or> 0 \<le> sd_new_connections_allowed d)"

text \<open>A call changes neither the map nor the budget.\<close>

definition call_ok :: "conn_ref set \<Rightarrow> _ \<Rightarrow> io_event set \<Rightarrow> conn_ref \<Rightarrow> server_driver \<Rightarrow> bool" where
  "call_ok X a E r d \<longleftrightarrow>
     refs_ok X d \<and> armed_ok d \<and> sd_admission d = a \<and> E \<subseteq> sd_armed d \<and> r \<in> snd ` set (sd_connections d) \<union> X"

interpretation sdc: driver_callbacks server_OnWriteBlocked server_RemoveConnection "call_ok X a E" for X a E
proof unfold_locales
  fix r d b
  assume c: "call_ok X a E r d"
  let ?l = "QuicBlockedWriterList_Add r b (sd_write_blocked_list d)"
  have "set ?l \<subseteq> snd ` set (sd_connections d) \<union> X"
    using c Add_set(1) [of r b "sd_write_blocked_list d"] unfolding call_ok_def refs_ok_def by blast
  then show "call_ok X a E r (server_OnWriteBlocked r b d)"
    using c by (auto simp: call_ok_def refs_ok_def armed_ok_def sd_admission_def server_OnWriteBlocked_def sd_rearm_def)
  show "call_ok X a E r (server_RemoveConnection r d)"
    using c by (auto simp: call_ok_def refs_ok_def armed_ok_def sd_admission_def server_RemoveConnection_def Let_def)
qed

lemma server_call_ok: "call_ok X a E r d \<Longrightarrow> call_ok X a E r (server_call r calls d)"
  using sdc.calls_ok [of X a E r d calls] by (auto simp: server_call_def call_ok_def refs_ok_def)

text \<open>What the driver was made with.\<close>

definition sd_config :: "server_driver \<Rightarrow> bool \<times> int \<times> int" where
  "sd_config d = (sd_edge_triggered d, sd_max_new_connections_per_event_loop d, sd_max_concurrent_connections d)"

definition driver_ok :: "bool \<times> int \<times> int \<Rightarrow> io_event set \<Rightarrow> server_driver \<Rightarrow> bool" where
  "driver_ok g E d \<longleftrightarrow> refs_ok {} d \<and> armed_ok d \<and> admission_ok d \<and> E \<subseteq> sd_armed d \<and> sd_config d = g"

lemma call_driver_ok:
  "call_ok {} (sd_admission d) E r d \<longleftrightarrow> refs_ok {} d \<and> armed_ok d \<and> E \<subseteq> sd_armed d \<and> r \<in> snd ` set (sd_connections d)"
  by (auto simp: call_ok_def)

lemma admission_same: "sd_admission d' = sd_admission d \<Longrightarrow> admission_ok d \<Longrightarrow> admission_ok d'"
  by (simp add: sd_admission_def admission_ok_def)

lemma driver_call_ok:
  assumes "driver_ok g E d" "r \<in> snd ` set (sd_connections d)"
  shows "driver_ok g E (server_call r calls d)" "sd_admission (server_call r calls d) = sd_admission d"
proof -
  have "call_ok {} (sd_admission d) E r (server_call r calls d)"
    by (rule server_call_ok) (use assms in \<open>simp add: call_driver_ok driver_ok_def\<close>)
  then show "driver_ok g E (server_call r calls d)" "sd_admission (server_call r calls d) = sd_admission d"
    using assms(1) admission_same [of "server_call r calls d" d] by (auto simp: call_ok_def driver_ok_def sd_admission_def sd_config_def)
qed

lemma create_ok:
  assumes ok: "driver_ok g E d" and n: "map_of (sd_connections d) dcid = None"
    and cap: "length (sd_connections d) < size_cast (sd_max_concurrent_connections d)" "0 < sd_new_connections_allowed d"
    and u: "u = server_call (sd_next_ref d) calls
      (d\<lparr>sd_next_ref := sd_next_ref d + 1, sd_connection_id := (sd_connection_id d)(sd_next_ref d := dcid)\<rparr>)"
    and v: "v = u\<lparr>sd_connections := emplace dcid (sd_next_ref d) (sd_connections u),
      sd_new_connections_allowed := sd_new_connections_allowed u - 1, sd_created := sd_created u + 1\<rparr>"
  shows "driver_ok g E v"
proof -
  let ?r = "sd_next_ref d"
  let ?d = "d\<lparr>sd_next_ref := ?r + 1, sd_connection_id := (sd_connection_id d)(?r := dcid)\<rparr>"
  have fresh: "?r \<notin> snd ` set (sd_connections d)" using ok by (auto simp: driver_ok_def refs_ok_def)
  have "call_ok {?r} (sd_admission d) E ?r ?d"
    using ok by (fastforce simp: driver_ok_def call_ok_def refs_ok_def armed_ok_def sd_admission_def)
  from server_call_ok [OF this, of calls] have c: "call_ok {?r} (sd_admission d) E ?r u" by (simp add: u)
  then have a: "sd_connections u = sd_connections d" "sd_created u = sd_created d" "sd_new_connections_allowed u = sd_new_connections_allowed d"
    "sd_max_concurrent_connections u = sd_max_concurrent_connections d"
    "sd_max_new_connections_per_event_loop u = sd_max_new_connections_per_event_loop d" "sd_edge_triggered u = sd_edge_triggered d"
    by (simp_all add: call_ok_def sd_admission_def)
  have e: "sd_connections v = (dcid, ?r) # sd_connections d" using n by (simp add: v a emplace_def)
  have "dcid \<notin> fst ` set (sd_connections d)" using n by (simp add: map_of_eq_None_iff)
  then have "refs_ok {} v" using c fresh unfolding call_ok_def refs_ok_def e a by (simp add: v)
  moreover have "armed_ok v" "E \<subseteq> sd_armed v" "sd_config v = g"
    using c ok a by (simp_all add: call_ok_def armed_ok_def driver_ok_def sd_config_def v)
  moreover have "admission_ok v" using ok cap unfolding driver_ok_def admission_ok_def e by (auto simp: v a)
  ultimately show ?thesis by (simp add: driver_ok_def)
qed

lemma process_ok:
  assumes ok: "driver_ok g E d"
  shows "driver_ok g E (server_ProcessPacket calls creation p d)"
proof (cases "pk_destination_connection_id p")
  case None
  then show ?thesis using ok by (simp add: server_ProcessPacket_def)
next
  case (Some dcid)
  show ?thesis
  proof (cases "map_of (sd_connections d) dcid")
    case None
    then show ?thesis using ok create_ok [OF ok None _ _ refl refl] Some
      by (auto simp: server_ProcessPacket_def Let_def split: option.split)
  next
    case (Some r)
    then have "r \<in> snd ` set (sd_connections d)" by (force dest: map_of_SomeD)
    then show ?thesis using driver_call_ok [OF ok] Some \<open>pk_destination_connection_id p = Some dcid\<close>
      by (simp add: server_ProcessPacket_def)
  qed
qed

lemma packets_ok: "driver_ok g E d \<Longrightarrow> driver_ok g E (fold (\<lambda>(calls, creation, p). server_ProcessPacket calls creation p) ps d)"
  by (induction ps arbitrary: d) (auto intro: process_ok)

lemma calls_fold_ok:
  "driver_ok g E d \<Longrightarrow> set rs \<subseteq> snd ` set (sd_connections d) \<Longrightarrow> driver_ok g E (fold (\<lambda>r. server_call r (writes r)) rs d)"
proof (induction rs arbitrary: d)
  case (Cons r rs)
  then have "driver_ok g E (server_call r (writes r) d)" "sd_connections (server_call r (writes r) d) = sd_connections d"
    using driver_call_ok [of g E d r "writes r"] by (simp_all add: sd_admission_def)
  then show ?case using Cons by simp
qed simp

lemma unblocked_ok:
  assumes "refs_ok {} d" "admission_ok d" "E \<subseteq> sd_armed d" "sd_config d = g"
  shows "driver_ok g E (QuicBlockedWriterList_OnWriterUnblocked writes d)"
proof -
  let ?d = "d\<lparr>sd_write_blocked_list := []\<rparr>"
  have "driver_ok g E ?d" using assms by (simp add: driver_ok_def refs_ok_def armed_ok_def admission_ok_def sd_config_def)
  moreover have "set (sd_write_blocked_list d) \<subseteq> snd ` set (sd_connections ?d)" using assms(1) by (simp add: refs_ok_def)
  ultimately show ?thesis unfolding QuicBlockedWriterList_OnWriterUnblocked_def Let_def by (rule calls_fold_ok)
qed

lemma rearm_ok: "driver_ok g E d \<Longrightarrow> driver_ok g (if fst g then E else insert e E) (sd_rearm e d)"
  by (auto simp: driver_ok_def sd_rearm_def refs_ok_def armed_ok_def admission_ok_def sd_config_def)

lemma collect_ok:
  assumes "driver_ok g E d"
  shows "driver_ok g E (collect_connection cid d)"
proof (cases "map_of (sd_connections d) cid")
  case None
  then show ?thesis using assms by (simp add: collect_connection_def)
next
  case (Some r)
  let ?v = "collect_connection cid d"
  have f: "sd_connections ?v = erase_key cid (sd_connections d)" "sd_destroyed ?v = r # sd_destroyed d"
    "set (sd_write_blocked_list ?v) = set (sd_write_blocked_list d) - {r}" "sd_next_ref ?v = sd_next_ref d"
    "sd_called_dead ?v = sd_called_dead d"
    using Some by (simp_all add: collect_connection_def)
  have ok: "refs_ok {} d" using assms by (simp add: driver_ok_def)
  then have d: "distinct (map fst (sd_connections d))" "distinct (map snd (sd_connections d))" by (simp_all add: refs_ok_def)
  have r: "r \<in> snd ` set (sd_connections d)" using Some by (force dest: map_of_SomeD)
  have s: "snd ` set (erase_key cid (sd_connections d)) = snd ` set (sd_connections d) - {r}"
    by (rule erase_key_snd [OF d Some])
  have "refs_ok {} ?v" using ok r d erase_key_facts(2,3) [of "sd_connections d" cid] unfolding refs_ok_def f s by auto
  moreover have "armed_ok ?v" "admission_ok ?v" "E \<subseteq> sd_armed ?v" "sd_config ?v = g"
    using assms Some erase_key_facts(4) [of cid "sd_connections d"]
    by (auto simp: sd_config_def driver_ok_def armed_ok_def admission_ok_def collect_connection_def QuicBlockedWriterList_Remove_def)
  ultimately show ?thesis by (simp add: driver_ok_def)
qed

lemma garbage_ok:
  assumes "driver_ok g E d"
  shows "driver_ok g E (server_CollectGarbage d)"
proof -
  have "driver_ok g E (fold collect_connection ids d)" for ids using assms by (induction ids arbitrary: d) (auto intro: collect_ok)
  then have "driver_ok g E (fold collect_connection (sd_pending_removal d) d)" .
  then show ?thesis
    by (simp add: server_CollectGarbage_def driver_ok_def refs_ok_def armed_ok_def admission_ok_def sd_config_def Let_def)
qed

lemma socket_ok:
  assumes ok: "driver_ok g {IoReadable, IoError} d"
  shows "driver_ok g {IoReadable, IoError} (driver_step (DriverSocket events writes packets) d)"
proof -
  define E where "E = (if fst g then {IoReadable, IoError} else insert IoError ({IoReadable} - events))"
  define d0 where "d0 = (if sd_edge_triggered d then d else d\<lparr>sd_armed := sd_armed d - events\<rparr>)"
  define d1 where "d1 = (if IoError \<in> events then sd_rearm IoError d0 else d0)"
  have 1: "refs_ok {} d1" "admission_ok d1" "IoWritable \<notin> events \<Longrightarrow> armed_ok d1" "E \<subseteq> sd_armed d1" "sd_config d1 = g"
    using ok by (auto simp: sd_config_def d0_def d1_def E_def driver_ok_def refs_ok_def admission_ok_def armed_ok_def sd_rearm_def)
  define d2 where "d2 = (if IoWritable \<in> events
      then let d = QuicBlockedWriterList_OnWriterUnblocked writes d1
           in if \<not> QuicBlockedWriterList_Empty (sd_write_blocked_list d) then sd_rearm IoWritable d else d
      else d1)"
  have "driver_ok g E (sd_rearm e d)" if "driver_ok g E d" for e d
    using rearm_ok [OF that, of e] by (auto simp: driver_ok_def split: if_splits)
  then have 2: "driver_ok g E d2"
    using 1 unblocked_ok [OF 1(1,2,4,5), of writes] by (simp add: d2_def driver_ok_def [of g E d1] Let_def)
  define d3 where "d3 = fold (\<lambda>(calls, creation, p). server_ProcessPacket calls creation p) packets d2"
  have 3: "driver_ok g E d3" unfolding d3_def by (rule packets_ok [OF 2])
  have "driver_step (DriverSocket events writes packets) d = (if IoReadable \<in> events then sd_rearm IoReadable d3 else d2)"
    unfolding driver_step.simps server_OnSocketEvent_def d0_def [symmetric] Let_def d1_def [symmetric] d3_def
    by (simp add: d2_def Let_def)
  moreover have "driver_ok g {IoReadable, IoError} (sd_rearm IoReadable d3)"
    using rearm_ok [OF 3, of IoReadable] by (auto simp: E_def driver_ok_def split: if_splits)
  moreover have "IoReadable \<notin> events \<Longrightarrow> driver_ok g {IoReadable, IoError} d2" using 2 by (auto simp: E_def driver_ok_def split: if_splits)
  ultimately show ?thesis by simp
qed

lemma driver_reach_ok:
  assumes "driver_reach d0 d" "driver_ok g {IoReadable, IoError} d0"
  shows "driver_ok g {IoReadable, IoError} d"
  using assms
proof induction
  case (driver_next d e)
  then show ?case using socket_ok [of g d] driver_call_ok(1) [of g _ d] garbage_ok [of g _ d] by (cases e) simp_all
qed

lemma start_ok:
  assumes "QuictunServerDriver_Start a (QuictunServerDriver_new max_new max_concurrent edge) = Inr d"
  shows "driver_ok (edge, max_new, max_concurrent) {IoReadable, IoError} d"
  using assms by (auto simp: QuictunServerDriver_Start_def QuictunServerDriver_new_def driver_ok_def refs_ok_def armed_ok_def
      admission_ok_def sd_config_def split: if_splits)

section \<open>Admission and removal\<close>

definition sample_listen :: listen_answers where
  "sample_listen = \<lparr>ln_create = True, ln_reuse = True, ln_bind = True, ln_register = True\<rparr>"

definition sample_packet :: "byte \<Rightarrow> udp_packet" where
  "sample_packet i = \<lparr>pk_destination_connection_id = Some [i], pk_length = 1252\<rparr>"

text \<open>Three new connections in one iteration with a budget of two, one of which blocks and the other closes
  at once; then the garbage, the event that the socket is writable, and a late packet for the connection
  that is gone.\<close>

definition sample_driver_events :: "driver_event list" where
  "sample_driver_events =
     [DriverSocket {IoReadable} (\<lambda>_. [])
        [([], Some [CallWriteBlocked True], sample_packet 1), ([], Some [CallClosed], sample_packet 2), ([], Some [], sample_packet 3)],
      DriverGarbage, DriverSocket {IoWritable, IoReadable} (\<lambda>_. [CallWriteBlocked True]) [([], None, sample_packet 2)]]"

definition sample_driver :: "server_driver option" where
  "sample_driver =
     (case QuictunServerDriver_Start sample_listen (QuictunServerDriver_new 2 100 False) of
        Inl _ \<Rightarrow> None
      | Inr d \<Rightarrow> run_driver sample_driver_events d)"

lemma sample_driver_fields:
  "map_option (\<lambda>d. (sd_connections d, sd_write_blocked_list d, sd_destroyed d, IoWritable \<in> sd_armed d)) sample_driver =
     Some ([([1], 0)], [0], [1], True)"
  by code_simp

text \<open>C14. A server never has more connections than its limit, and makes at most its budget of them in one
  iteration of the event loop.  No connection that was destroyed is called again, by a packet, by its
  socket or by the list of blocked writers, whatever the connections do and whenever they close.  With a
  level-triggered event loop the socket stays readable, and as long as a connection waits to write the
  event that wakes it is asked for.\<close>

theorem server_driver_admission:
  assumes "QuictunServerDriver_Start a (QuictunServerDriver_new max_new max_concurrent edge) = Inr d0" "driver_reach d0 d"
  shows "(0 \<le> max_concurrent \<longrightarrow> int (length (sd_connections d)) \<le> max_concurrent) \<and> int (sd_created d) \<le> max 0 max_new \<and>
    \<not> sd_called_dead d \<and> set (sd_write_blocked_list d) \<subseteq> snd ` set (sd_connections d) \<and>
    snd ` set (sd_connections d) \<inter> set (sd_destroyed d) = {} \<and>
    (\<not> edge \<longrightarrow> IoReadable \<in> sd_armed d \<and> (sd_write_blocked_list d \<noteq> [] \<longrightarrow> IoWritable \<in> sd_armed d))"
proof -
  have ok: "driver_ok (edge, max_new, max_concurrent) {IoReadable, IoError} d"
    by (rule driver_reach_ok [OF assms(2) start_ok [OF assms(1)]])
  have "length (sd_connections d) \<le> size_cast max_concurrent" using ok by (auto simp: driver_ok_def admission_ok_def sd_config_def)
  moreover have "int (size_cast max_concurrent) \<le> max_concurrent" if "0 \<le> max_concurrent"
    using that zmod_le_nonneg_dividend [of max_concurrent "2 ^ 64"] by (simp add: size_cast_def)
  ultimately have "0 \<le> max_concurrent \<longrightarrow> int (length (sd_connections d)) \<le> max_concurrent" by force
  moreover have "int (sd_created d) \<le> max 0 max_new" using ok by (auto simp: driver_ok_def admission_ok_def sd_config_def)
  ultimately show ?thesis using ok by (auto simp: driver_ok_def refs_ok_def armed_ok_def sd_config_def)
qed

theorem server_driver_admission_witness:
  "\<exists>d. sample_driver = Some d \<and> sd_destroyed d = [1] \<and> \<not> sd_called_dead d \<and> sd_write_blocked_list d = [0] \<and> IoWritable \<in> sd_armed d"
proof -
  define d0 where "d0 = (QuictunServerDriver_new 2 100 False)\<lparr>sd_armed := {IoReadable, IoWritable, IoError}\<rparr>"
  have s: "QuictunServerDriver_Start sample_listen (QuictunServerDriver_new 2 100 False) = Inr d0"
    by (simp add: QuictunServerDriver_Start_def sample_listen_def d0_def)
  obtain d where d: "sample_driver = Some d" using sample_driver_fields by (cases sample_driver) simp_all
  have "driver_reach d0 d" by (rule run_driver_reach [OF d [unfolded sample_driver_def s sum.case] driver_start])
  moreover have "sd_destroyed d = [1]" "sd_write_blocked_list d = [0]" using sample_driver_fields by (simp_all add: d)
  ultimately show ?thesis using server_driver_admission [OF s, of d] by (intro exI [of _ d]) (simp add: d)
qed

end
