(* ===== verification/Client_Driver.thy ===== *)
theory Client_Driver
  imports Driver_Calls "HOL-Library.Multiset" "HOL-Library.Code_Target_Nat"
begin

text \<open>
  \<open>QuictunClientDriver\<close> (\<open>quictun_client_driver.cc\<close>): the TCP listener, the UDP sockets, the
  pool of connections over them, the routing of packets by connection ID, and the removal
  of connections.

  As for the server a packet carries what the framer reads from its header, and a call into
  a connection is the list of the callbacks it makes.  An event of the environment carries
  the answers of the system calls it leads to.  A weak pointer of the pool resolves to its
  connection as long as that is in \<open>cd_connections\<close>, which is what keeps it alive.  Auxiliary
  are \<open>cd_destroyed\<close> and \<open>cd_called_dead\<close>, as for the server, and the descriptors that were
  accepted, handed to a connection and closed.
\<close>

type_synonym tcp_fd = nat

record udp_socket =
  us_fd :: "nat option"
  us_armed :: "io_event set"
  us_write_blocked_list :: "conn_ref list"

record client_driver =
  cd_transparent :: bool
  cd_edge_triggered :: bool
  cd_udp_socket_count :: nat
  cd_udp_sockets :: "udp_socket list"
  cd_connections :: "(conn_ref \<times> nat) list"
  cd_closed :: "conn_ref \<Rightarrow> bool"
  cd_socket_index :: "conn_ref \<Rightarrow> nat"
  cd_by_cid :: "(64 word \<times> conn_ref) list"
  cd_next_client_cid :: "64 word"
  cd_pending_removal :: "conn_ref list"
  cd_pool_slots :: "conn_ref option list"
  cd_pool_round_robin_next :: nat
  cd_now :: QuicTime
  cd_listen_armed :: bool
  cd_accept_retry_alarm :: "QuicTime option"
  cd_next_ref :: conn_ref
  cd_destroyed :: "conn_ref list"
  cd_called_dead :: bool
  cd_accepted_fds :: "tcp_fd list"
  cd_assigned_fds :: "(conn_ref \<times> tcp_fd) list"
  cd_closed_fds :: "tcp_fd list"

definition kAcceptRetryDelay :: QuicTimeDelta where
  "kAcceptRetryDelay = milliseconds 500"

section \<open>Start\<close>

definition QuictunClientDriver_new :: "bool \<Rightarrow> int \<Rightarrow> int \<Rightarrow> bool \<Rightarrow> QuicTime \<Rightarrow> client_driver" where
  "QuictunClientDriver_new transparent udp_socket conn_per_udp edge_triggered now =
     (let count = nat (max udp_socket 1)
      in \<lparr>cd_transparent = transparent, cd_edge_triggered = edge_triggered, cd_udp_socket_count = count, cd_udp_sockets = [],
          cd_connections = [], cd_closed = (\<lambda>_. False), cd_socket_index = (\<lambda>_. 0), cd_by_cid = [], cd_next_client_cid = 1,
          cd_pending_removal = [], cd_pool_slots = replicate (count * nat (max conn_per_udp 1)) None,
          cd_pool_round_robin_next = 0, cd_now = now, cd_listen_armed = False, cd_accept_retry_alarm = None, cd_next_ref = 0,
          cd_destroyed = [], cd_called_dead = False, cd_accepted_fds = [], cd_assigned_fds = [], cd_closed_fds = []\<rparr>)"

datatype open_error = CreateFailed | ConnectFailed | AddressFailed | RegisterFailed

record open_answers =
  oa_create :: "nat option"
  oa_connect :: bool
  oa_address :: bool
  oa_register :: bool

text \<open>The entry is left empty on every failure.\<close>

definition OpenUdpSocket :: "open_answers \<Rightarrow> udp_socket \<Rightarrow> open_error option \<times> udp_socket" where
  "OpenUdpSocket a entry =
     (let entry = (if us_fd entry \<noteq> None then entry\<lparr>us_fd := None, us_armed := {}\<rparr> else entry)
      in case oa_create a of
           None \<Rightarrow> (Some CreateFailed, entry)
         | Some fd \<Rightarrow>
             if \<not> oa_connect a then (Some ConnectFailed, entry)
             else if \<not> oa_address a then (Some AddressFailed, entry)
             else if \<not> oa_register a then (Some RegisterFailed, entry)
             else (None, entry\<lparr>us_fd := Some fd, us_armed := {IoReadable, IoWritable, IoError}\<rparr>))"

definition empty_udp_socket :: udp_socket where
  "empty_udp_socket = \<lparr>us_fd = None, us_armed = {}, us_write_blocked_list = []\<rparr>"

datatype listen_error = ListenCreate | ListenReuse | ListenIpv6Only | ListenBind | ListenListen | ListenRegister

record client_listen_answers =
  cl_create :: bool
  cl_reuse :: bool
  cl_ipv6_only :: bool
  cl_bind :: bool
  cl_listen :: bool
  cl_register :: bool

text \<open>\<open>opens i\<close> are the answers for the socket \<open>i\<close>; one that does not open is left for later.\<close>

definition QuictunClientDriver_Start ::
    "(nat \<Rightarrow> open_answers) \<Rightarrow> bool \<Rightarrow> client_listen_answers \<Rightarrow> client_driver \<Rightarrow> listen_error + client_driver" where
  "QuictunClientDriver_Start opens local_is_ipv6 a d =
     (let d = d\<lparr>cd_udp_sockets := cd_udp_sockets d @
                  map (\<lambda>i. snd (OpenUdpSocket (opens i) empty_udp_socket)) [0..<cd_udp_socket_count d]\<rparr>
      in if \<not> cl_create a then Inl ListenCreate
         else if \<not> cl_reuse a then Inl ListenReuse
         else if local_is_ipv6 \<and> \<not> cl_ipv6_only a then Inl ListenIpv6Only
         else if \<not> cl_bind a then Inl ListenBind
         else if \<not> cl_listen a then Inl ListenListen
         else if \<not> cl_register a then Inl ListenRegister
         else Inr (d\<lparr>cd_listen_armed := True\<rparr>))"

section \<open>The callbacks of the connections\<close>

definition update_socket :: "nat \<Rightarrow> (udp_socket \<Rightarrow> udp_socket) \<Rightarrow> client_driver \<Rightarrow> client_driver" where
  "update_socket i f d = d\<lparr>cd_udp_sockets := (cd_udp_sockets d)[i := f (cd_udp_sockets d ! i)]\<rparr>"

definition us_rearm :: "bool \<Rightarrow> io_event \<Rightarrow> udp_socket \<Rightarrow> udp_socket" where
  "us_rearm edge_triggered e s = (if \<not> edge_triggered then s\<lparr>us_armed := insert e (us_armed s)\<rparr> else s)"

definition client_OnWriteBlocked :: "nat \<Rightarrow> conn_ref \<Rightarrow> bool \<Rightarrow> client_driver \<Rightarrow> client_driver" where
  "client_OnWriteBlocked socket_index r is_blocked d =
     update_socket socket_index
       (\<lambda>s. us_rearm (cd_edge_triggered d) IoWritable
          (s\<lparr>us_write_blocked_list := QuicBlockedWriterList_Add r is_blocked (us_write_blocked_list s)\<rparr>)) d"

definition client_RemoveConnection :: "nat \<Rightarrow> conn_ref \<Rightarrow> client_driver \<Rightarrow> client_driver" where
  "client_RemoveConnection socket_index r d =
     (let d = update_socket socket_index
            (\<lambda>s. s\<lparr>us_write_blocked_list := snd (QuicBlockedWriterList_Remove r (us_write_blocked_list s))\<rparr>) d;
          d = d\<lparr>cd_by_cid := erase_value r (cd_by_cid d)\<rparr>
      in d\<lparr>cd_pending_removal := cd_pending_removal d @ [r], cd_closed := (cd_closed d)(r := True)\<rparr>)"

definition client_call :: "conn_ref \<Rightarrow> conn_call list \<Rightarrow> client_driver \<Rightarrow> client_driver" where
  "client_call r calls d =
     (if r \<in> set (cd_destroyed d) then d\<lparr>cd_called_dead := True\<rparr>
      else run_calls (client_OnWriteBlocked (cd_socket_index d r)) (client_RemoveConnection (cd_socket_index d r)) r calls d)"

section \<open>Accepting\<close>

definition UdpSocketIsIdle :: "nat \<Rightarrow> client_driver \<Rightarrow> bool" where
  "UdpSocketIsIdle socket_index d = list_all (\<lambda>(_, i). i \<noteq> socket_index) (cd_connections d)"

text \<open>The answers to \<open>OpenUdpSocket\<close>, and what the constructor of the connection does.\<close>

record create_answers =
  ca_open :: open_answers
  ca_connection :: "conn_call list option"

text \<open>A socket without a connection is opened again first.\<close>

definition reopen_idle :: "open_answers \<Rightarrow> nat \<Rightarrow> client_driver \<Rightarrow> open_error option \<times> client_driver" where
  "reopen_idle a socket_index d =
     (if UdpSocketIsIdle socket_index d
      then (fst (OpenUdpSocket a (cd_udp_sockets d ! socket_index)),
            update_socket socket_index (\<lambda>s. snd (OpenUdpSocket a s)) d)
      else (None, d))"

definition make_connection :: "conn_call list option \<Rightarrow> nat \<Rightarrow> client_driver \<Rightarrow> conn_ref option \<times> client_driver" where
  "make_connection connection socket_index d =
     (let cid = cd_next_client_cid d;
          d = d\<lparr>cd_next_client_cid := cid + 1\<rparr>
      in case connection of
           None \<Rightarrow> (None, d)
         | Some calls \<Rightarrow>
             let r = cd_next_ref d;
                 d = d\<lparr>cd_next_ref := r + 1, cd_socket_index := (cd_socket_index d)(r := socket_index),
                       cd_closed := (cd_closed d)(r := False)\<rparr>;
                 d = client_call r calls d;
                 d = d\<lparr>cd_by_cid := emplace cid r (cd_by_cid d)\<rparr>
             in (Some r, d\<lparr>cd_connections := emplace r socket_index (cd_connections d)\<rparr>))"

fun after_reopen :: "create_answers \<Rightarrow> nat \<Rightarrow> open_error option \<times> client_driver \<Rightarrow> conn_ref option \<times> client_driver" where
  "after_reopen a socket_index (Some err, d) = (None, d)"
| "after_reopen a socket_index (None, d) = make_connection (ca_connection a) socket_index d"

definition CreateNewConnection :: "create_answers \<Rightarrow> nat \<Rightarrow> client_driver \<Rightarrow> conn_ref option \<times> client_driver" where
  "CreateNewConnection a socket_index d = after_reopen a socket_index (reopen_idle (ca_open a) socket_index d)"

datatype accept_answer =
    AcceptResourceExhausted
  | AcceptFailed
  | Accepted tcp_fd bool create_answers "conn_call list"

definition pool_slot :: "nat \<Rightarrow> client_driver \<Rightarrow> conn_ref option" where
  "pool_slot idx d =
     (case cd_pool_slots d ! idx of
        None \<Rightarrow> None
      | Some r \<Rightarrow> if r \<in> fst ` set (cd_connections d) then Some r else None)"

definition client_AssignNewTcp :: "conn_ref \<Rightarrow> tcp_fd \<Rightarrow> conn_call list \<Rightarrow> client_driver \<Rightarrow> client_driver" where
  "client_AssignNewTcp r fd calls d = client_call r calls (d\<lparr>cd_assigned_fds := cd_assigned_fds d @ [(r, fd)]\<rparr>)"

definition close_accepted :: "tcp_fd \<Rightarrow> client_driver \<Rightarrow> client_driver" where
  "close_accepted fd d = d\<lparr>cd_closed_fds := cd_closed_fds d @ [fd]\<rparr>"

fun fill_slot :: "nat \<Rightarrow> tcp_fd \<Rightarrow> conn_call list \<Rightarrow> conn_ref option \<times> client_driver \<Rightarrow> client_driver" where
  "fill_slot idx fd calls (None, d) = close_accepted fd d"
| "fill_slot idx fd calls (Some r, d) = client_AssignNewTcp r fd calls (d\<lparr>cd_pool_slots := (cd_pool_slots d)[idx := Some r]\<rparr>)"

definition replace_slot :: "nat \<Rightarrow> tcp_fd \<Rightarrow> create_answers \<Rightarrow> conn_call list \<Rightarrow> client_driver \<Rightarrow> client_driver" where
  "replace_slot idx fd a calls d = fill_slot idx fd calls (CreateNewConnection a (idx mod cd_udp_socket_count d) d)"

text \<open>One accepted connection: whether its destination could be captured, what creating a connection for it
  leads to if one is needed, and what the connection does with it.\<close>

definition accept_one :: "tcp_fd \<Rightarrow> bool \<Rightarrow> create_answers \<Rightarrow> conn_call list \<Rightarrow> client_driver \<Rightarrow> client_driver" where
  "accept_one fd captured a calls d =
     (let d = d\<lparr>cd_accepted_fds := cd_accepted_fds d @ [fd]\<rparr>
      in if cd_transparent d \<and> \<not> captured then close_accepted fd d
         else let idx = cd_pool_round_robin_next d mod length (cd_pool_slots d);
                  d = d\<lparr>cd_pool_round_robin_next := u64 (cd_pool_round_robin_next d + 1)\<rparr>
              in case pool_slot idx d of
                   None \<Rightarrow> replace_slot idx fd a calls d
                 | Some r \<Rightarrow> if cd_closed d r then replace_slot idx fd a calls d else client_AssignNewTcp r fd calls d)"

fun AcceptLoop :: "accept_answer list \<Rightarrow> client_driver \<Rightarrow> bool \<times> client_driver" where
  "AcceptLoop [] d = (True, d)"
| "AcceptLoop (AcceptResourceExhausted # _) d = (False, d\<lparr>cd_accept_retry_alarm := Some (cd_now d + kAcceptRetryDelay)\<rparr>)"
| "AcceptLoop (AcceptFailed # _) d = (True, d)"
| "AcceptLoop (Accepted fd captured a calls # answers) d = AcceptLoop answers (accept_one fd captured a calls d)"

section \<open>Events\<close>

definition client_ProcessPacket :: "conn_call list \<Rightarrow> 64 word option \<Rightarrow> client_driver \<Rightarrow> client_driver" where
  "client_ProcessPacket calls destination_connection_id d =
     (case destination_connection_id of
        None \<Rightarrow> d
      | Some cid \<Rightarrow>
          (case map_of (cd_by_cid d) cid of
             None \<Rightarrow> d
           | Some r \<Rightarrow> client_call r calls d))"

fun find_udp_socket :: "nat \<Rightarrow> nat \<Rightarrow> udp_socket list \<Rightarrow> nat option" where
  "find_udp_socket fd i [] = None"
| "find_udp_socket fd i (s # ss) = (if us_fd s = Some fd then Some i else find_udp_socket fd (i + 1) ss)"

definition FindUdpSocketByFd :: "nat \<Rightarrow> client_driver \<Rightarrow> nat option" where
  "FindUdpSocketByFd fd d = find_udp_socket fd 0 (cd_udp_sockets d)"

definition client_OnWriterUnblocked :: "(conn_ref \<Rightarrow> conn_call list) \<Rightarrow> nat \<Rightarrow> client_driver \<Rightarrow> client_driver" where
  "client_OnWriterUnblocked writes i d =
     (let temp_list = us_write_blocked_list (cd_udp_sockets d ! i);
          d = update_socket i (\<lambda>s. s\<lparr>us_write_blocked_list := []\<rparr>) d
      in fold (\<lambda>r. client_call r (writes r)) temp_list d)"

definition cd_rearm :: "nat \<Rightarrow> io_event \<Rightarrow> client_driver \<Rightarrow> client_driver" where
  "cd_rearm i e d = update_socket i (us_rearm (cd_edge_triggered d) e) d"

definition client_OnUdpEvent ::
    "nat \<Rightarrow> io_event set \<Rightarrow> (conn_ref \<Rightarrow> conn_call list) \<Rightarrow> (conn_call list \<times> 64 word option) list \<Rightarrow> client_driver \<Rightarrow> client_driver" where
  "client_OnUdpEvent i events writes packets d =
     (let d = (if IoError \<in> events then cd_rearm i IoError d else d);
          d = (if IoWritable \<in> events
               then let d = client_OnWriterUnblocked writes i d
                    in if \<not> QuicBlockedWriterList_Empty (us_write_blocked_list (cd_udp_sockets d ! i)) then cd_rearm i IoWritable d else d
               else d)
      in if IoReadable \<in> events
         then cd_rearm i IoReadable (fold (\<lambda>(calls, cid). client_ProcessPacket calls cid) packets d)
         else d)"

fun rearm_listener :: "bool \<times> client_driver \<Rightarrow> client_driver" where
  "rearm_listener (accepted_all, d) = (if accepted_all \<and> \<not> cd_edge_triggered d then d\<lparr>cd_listen_armed := True\<rparr> else d)"

definition client_OnListenEvent :: "accept_answer list \<Rightarrow> client_driver \<Rightarrow> client_driver" where
  "client_OnListenEvent answers d = rearm_listener (AcceptLoop answers d)"

definition collect_client_connection :: "conn_ref \<Rightarrow> client_driver \<Rightarrow> client_driver" where
  "collect_client_connection r d =
     (case map_of (cd_connections d) r of
        None \<Rightarrow> d
      | Some _ \<Rightarrow>
          d\<lparr>cd_udp_sockets := map (\<lambda>s. s\<lparr>us_write_blocked_list := snd (QuicBlockedWriterList_Remove r (us_write_blocked_list s))\<rparr>)
              (cd_udp_sockets d),
            cd_connections := erase_key r (cd_connections d), cd_destroyed := r # cd_destroyed d\<rparr>)"

definition client_CollectGarbage :: "client_driver \<Rightarrow> client_driver" where
  "client_CollectGarbage d =
     (let d = fold collect_client_connection (cd_pending_removal d) d in d\<lparr>cd_pending_removal := []\<rparr>)"

text \<open>\<open>UdpEvent\<close> is an event of a descriptor, which is looked up; \<open>RetryAlarm\<close> delivers a readable event to the
  listener.\<close>

datatype cdriver_event =
    UdpEvent nat "io_event set" "conn_ref \<Rightarrow> conn_call list" "(conn_call list \<times> 64 word option) list"
  | ListenEvent "accept_answer list"
  | RetryAlarm "accept_answer list"
  | ConnectionCalls conn_ref "conn_call list"
  | DriverClock QuicTime
  | ClientDriverGarbage

fun cdriver_step :: "cdriver_event \<Rightarrow> client_driver \<Rightarrow> client_driver" where
  "cdriver_step (UdpEvent fd events writes packets) d =
     (case FindUdpSocketByFd fd d of
        None \<Rightarrow> d
      | Some i \<Rightarrow> client_OnUdpEvent i events writes packets
          (if cd_edge_triggered d then d else update_socket i (\<lambda>s. s\<lparr>us_armed := us_armed s - events\<rparr>) d))"
| "cdriver_step (ListenEvent answers) d =
     client_OnListenEvent answers (if cd_edge_triggered d then d else d\<lparr>cd_listen_armed := False\<rparr>)"
| "cdriver_step (RetryAlarm answers) d = client_OnListenEvent answers (d\<lparr>cd_accept_retry_alarm := None\<rparr>)"
| "cdriver_step (ConnectionCalls r calls) d = client_call r calls d"
| "cdriver_step (DriverClock t) d = d\<lparr>cd_now := t\<rparr>"
| "cdriver_step ClientDriverGarbage d = client_CollectGarbage d"

text \<open>What the environment keeps to.  \<open>quiet\<close> is the assumption that a connection does not close inside its
  own constructor.\<close>

fun quiet :: "accept_answer \<Rightarrow> bool" where
  "quiet (Accepted fd captured a calls) =
     (case ca_connection a of None \<Rightarrow> True | Some cs \<Rightarrow> list_all (\<lambda>c. c \<noteq> CallClosed) cs)"
| "quiet _ = True"

fun cdriver_event_ok :: "cdriver_event \<Rightarrow> client_driver \<Rightarrow> bool" where
  "cdriver_event_ok (ListenEvent answers) d \<longleftrightarrow> (cd_edge_triggered d \<or> cd_listen_armed d) \<and> list_all quiet answers"
| "cdriver_event_ok (RetryAlarm answers) d \<longleftrightarrow>
     (case cd_accept_retry_alarm d of None \<Rightarrow> False | Some t \<Rightarrow> t \<le> cd_now d) \<and> list_all quiet answers"
| "cdriver_event_ok (ConnectionCalls r calls) d \<longleftrightarrow> r \<in> fst ` set (cd_connections d)"
| "cdriver_event_ok (DriverClock t) d \<longleftrightarrow> cd_now d \<le> t"
| "cdriver_event_ok _ d \<longleftrightarrow> True"

inductive cdriver_reach :: "client_driver \<Rightarrow> client_driver \<Rightarrow> bool" for d0 where
  cdriver_start: "cdriver_reach d0 d0"
| cdriver_next: "cdriver_reach d0 d \<Longrightarrow> cdriver_event_ok e d \<Longrightarrow> cdriver_reach d0 (cdriver_step e d)"

fun run_cdriver :: "cdriver_event list \<Rightarrow> client_driver \<Rightarrow> client_driver option" where
  "run_cdriver [] d = Some d"
| "run_cdriver (e # es) d = (if cdriver_event_ok e d then run_cdriver es (cdriver_step e d) else None)"

lemma run_cdriver_reach: "run_cdriver es d = Some d' \<Longrightarrow> cdriver_reach d0 d \<Longrightarrow> cdriver_reach d0 d'"
  by (induction es arbitrary: d) (auto split: if_splits intro: cdriver_next)

section \<open>The invariant\<close>

text \<open>The connections that are alive: those in the map, and \<open>X\<close>, which are being made.\<close>

definition alive :: "conn_ref set \<Rightarrow> client_driver \<Rightarrow> conn_ref set" where
  "alive X d = fst ` set (cd_connections d) \<union> X"

definition cd_refs_ok :: "conn_ref set \<Rightarrow> client_driver \<Rightarrow> bool" where
  "cd_refs_ok X d \<longleftrightarrow>
     distinct (map fst (cd_connections d)) \<and> (\<forall>r \<in> alive X d. r < cd_next_ref d \<and> r \<notin> set (cd_destroyed d)) \<and>
     (\<forall>r \<in> set (cd_destroyed d) \<union> set (cd_pending_removal d). r < cd_next_ref d) \<and>
     (\<forall>s \<in> set (cd_udp_sockets d). set (us_write_blocked_list s) \<subseteq> alive X d) \<and>
     snd ` set (cd_by_cid d) \<subseteq> alive X d - set (cd_pending_removal d) \<and> \<not> cd_called_dead d"

definition cd_listen :: "client_driver \<Rightarrow> bool \<times> bool \<times> QuicTime option" where
  "cd_listen d = (cd_edge_triggered d, cd_listen_armed d, cd_accept_retry_alarm d)"

definition cd_fds :: "client_driver \<Rightarrow> tcp_fd list \<times> (conn_ref \<times> tcp_fd) list \<times> tcp_fd list" where
  "cd_fds d = (cd_accepted_fds d, cd_assigned_fds d, cd_closed_fds d)"

definition fds_ok :: "client_driver \<Rightarrow> bool" where
  "fds_ok d \<longleftrightarrow> mset (cd_accepted_fds d) = mset (map snd (cd_assigned_fds d)) + mset (cd_closed_fds d)"

lemma update_socket_all:
  assumes "\<forall>s \<in> set (cd_udp_sockets d). P s" "\<And>s. P s \<Longrightarrow> P (f s)"
  shows "\<forall>s \<in> set (cd_udp_sockets (update_socket i f d)). P s"
proof (cases "i < length (cd_udp_sockets d)")
  case True
  then show ?thesis using assms set_update_subset_insert [of "cd_udp_sockets d" i] by (fastforce simp: update_socket_def)
next
  case False
  then show ?thesis using assms by (simp add: update_socket_def list_update_beyond)
qed

lemma update_socket_frame [simp]:
  "cd_connections (update_socket i f d) = cd_connections d" "cd_next_ref (update_socket i f d) = cd_next_ref d"
  "cd_destroyed (update_socket i f d) = cd_destroyed d" "cd_by_cid (update_socket i f d) = cd_by_cid d"
  "cd_pending_removal (update_socket i f d) = cd_pending_removal d" "cd_called_dead (update_socket i f d) = cd_called_dead d"
  "cd_listen (update_socket i f d) = cd_listen d" "cd_fds (update_socket i f d) = cd_fds d"
  "cd_edge_triggered (update_socket i f d) = cd_edge_triggered d" "alive X (update_socket i f d) = alive X d"
  "cd_next_client_cid (update_socket i f d) = cd_next_client_cid d" "cd_socket_index (update_socket i f d) = cd_socket_index d"
  by (simp_all add: update_socket_def cd_listen_def cd_fds_def alive_def)

lemma update_socket_refs:
  assumes "cd_refs_ok X d" "\<And>s. set (us_write_blocked_list s) \<subseteq> alive X d \<Longrightarrow> set (us_write_blocked_list (f s)) \<subseteq> alive X d"
  shows "cd_refs_ok X (update_socket i f d)"
  using assms update_socket_all [of d "\<lambda>s. set (us_write_blocked_list s) \<subseteq> alive X d" f i] by (simp add: cd_refs_ok_def)

text \<open>What a call leaves alone.\<close>

definition ccall_ok :: "conn_ref set \<Rightarrow> _ \<Rightarrow> conn_ref \<Rightarrow> client_driver \<Rightarrow> bool" where
  "ccall_ok X a r d \<longleftrightarrow>
     cd_refs_ok X d \<and> (cd_connections d, cd_listen d, cd_fds d, cd_next_ref d, cd_edge_triggered d, cd_next_client_cid d) = a \<and> r \<in> alive X d"

abbreviation cd_same :: "client_driver \<Rightarrow> _" where
  "cd_same d \<equiv> (cd_connections d, cd_listen d, cd_fds d, cd_next_ref d, cd_edge_triggered d, cd_next_client_cid d)"

lemma erase_value_snd: "snd ` set (erase_value v m) = snd ` set m - {v}"
  by (force simp: erase_value_def)

interpretation cdc: driver_callbacks "client_OnWriteBlocked i" "client_RemoveConnection i" "ccall_ok X a" for i X a
proof unfold_locales
  fix r d b
  assume c: "ccall_ok X a r d"
  then have ok: "cd_refs_ok X d" and r: "r \<in> alive X d" by (simp_all add: ccall_ok_def)
  have add: "set (QuicBlockedWriterList_Add r b l) \<subseteq> alive X d" if "set l \<subseteq> alive X d" for l
    using that r Add_set(1) [of r b l] by blast
  have "cd_refs_ok X (client_OnWriteBlocked i r b d)"
    unfolding client_OnWriteBlocked_def
    by (rule update_socket_refs [OF ok]) (simp add: us_rearm_def add)
  then show "ccall_ok X a r (client_OnWriteBlocked i r b d)" using c by (simp add: ccall_ok_def client_OnWriteBlocked_def)
  define u where "u = update_socket i (\<lambda>s. s\<lparr>us_write_blocked_list := snd (QuicBlockedWriterList_Remove r (us_write_blocked_list s))\<rparr>) d"
  have "cd_refs_ok X u" unfolding u_def by (rule update_socket_refs [OF ok]) auto
  moreover have "r < cd_next_ref u" using ok r by (auto simp: u_def cd_refs_ok_def)
  moreover have v: "client_RemoveConnection i r d = u\<lparr>cd_by_cid := erase_value r (cd_by_cid u),
      cd_pending_removal := cd_pending_removal u @ [r], cd_closed := (cd_closed u)(r := True)\<rparr>"
    by (simp add: client_RemoveConnection_def u_def Let_def)
  ultimately have "cd_refs_ok X (client_RemoveConnection i r d)"
    unfolding cd_refs_ok_def v by (auto simp: alive_def erase_value_snd)
  moreover have "cd_same (client_RemoveConnection i r d) = cd_same d" "alive X (client_RemoveConnection i r d) = alive X d"
    by (simp_all add: client_RemoveConnection_def cd_listen_def cd_fds_def alive_def update_socket_def Let_def)
  ultimately show "ccall_ok X a r (client_RemoveConnection i r d)" using c by (simp add: ccall_ok_def)
qed

lemma client_call_ok: "ccall_ok X a r d \<Longrightarrow> ccall_ok X a r (client_call r calls d)"
  using cdc.calls_ok [of X a r d] by (auto simp: client_call_def ccall_ok_def cd_refs_ok_def)

lemma driver_calls_ok:
  assumes "cd_refs_ok {} d" "r \<in> fst ` set (cd_connections d)"
  shows "cd_refs_ok {} (client_call r calls d)" "cd_same (client_call r calls d) = cd_same d"
  using client_call_ok [of "{}" "cd_same d" r d calls] assms by (simp_all add: ccall_ok_def alive_def)

lemma quiet_calls:
  "list_all (\<lambda>c. c \<noteq> CallClosed) calls \<Longrightarrow> r \<notin> set (cd_destroyed d) \<Longrightarrow>
   cd_pending_removal (client_call r calls d) = cd_pending_removal d"
proof -
  have "cd_pending_removal (run_calls (client_OnWriteBlocked i) g r calls d) = cd_pending_removal d"
    if "list_all (\<lambda>c. c \<noteq> CallClosed) calls" for i g
    using that
  proof (induction calls arbitrary: d)
    case (Cons c calls)
    then show ?case by (cases c) (simp_all add: client_OnWriteBlocked_def)
  qed simp
  then show "list_all (\<lambda>c. c \<noteq> CallClosed) calls \<Longrightarrow> r \<notin> set (cd_destroyed d) \<Longrightarrow>
   cd_pending_removal (client_call r calls d) = cd_pending_removal d" by (simp add: client_call_def)
qed

section \<open>Every event keeps it\<close>

lemma Open_keeps [simp]: "us_write_blocked_list (snd (OpenUdpSocket a s)) = us_write_blocked_list s"
  by (simp add: OpenUdpSocket_def Let_def split: option.split)

lemma emplace_snd: "snd ` set (emplace k v m) \<subseteq> insert v (snd ` set m)"
  by (auto simp: emplace_def)

lemma insert_within: "B \<subseteq> A - P \<Longrightarrow> r \<in> A \<Longrightarrow> r \<notin> P \<Longrightarrow> C \<subseteq> insert r B \<Longrightarrow> C \<subseteq> A - P"
  by blast

lemma new_connection_ok:
  assumes ok: "cd_refs_ok {} u" and q: "list_all (\<lambda>c. c \<noteq> CallClosed) calls" and r: "r = cd_next_ref u"
    and x: "x = client_call r calls (u\<lparr>cd_next_client_cid := c', cd_next_ref := r + 1,
      cd_socket_index := (cd_socket_index u)(r := i), cd_closed := (cd_closed u)(r := False)\<rparr>)"
    and y: "y = x\<lparr>cd_by_cid := emplace cid r (cd_by_cid x), cd_connections := emplace r i (cd_connections x)\<rparr>"
  shows "cd_refs_ok {} y \<and> cd_listen y = cd_listen u \<and> cd_fds y = cd_fds u \<and> r \<in> fst ` set (cd_connections y)"
proof -
  let ?w = "u\<lparr>cd_next_client_cid := c', cd_next_ref := r + 1, cd_socket_index := (cd_socket_index u)(r := i), cd_closed := (cd_closed u)(r := False)\<rparr>"
  have fresh: "r \<notin> fst ` set (cd_connections u)" "r \<notin> set (cd_pending_removal u)" "r \<notin> set (cd_destroyed u)"
    using ok by (auto simp: cd_refs_ok_def alive_def r)
  have A: "alive {r} ?w = insert r (alive {} u)" by (simp add: alive_def)
  have "cd_refs_ok {r} ?w" using ok fresh(2,3) unfolding cd_refs_ok_def A by (auto simp: r less_Suc_eq)
  then have "ccall_ok {r} (cd_same ?w) r ?w" by (simp add: ccall_ok_def alive_def)
  from client_call_ok [OF this, of calls] have c: "cd_refs_ok {r} x" "cd_same x = cd_same ?w" by (simp_all add: x ccall_ok_def)
  have p: "cd_pending_removal x = cd_pending_removal u" using quiet_calls [OF q, of r ?w] fresh(3) by (simp add: x)
  have k: "cd_connections x = cd_connections u" "cd_listen x = cd_listen u" "cd_fds x = cd_fds u"
    using c(2) by (simp_all add: cd_listen_def cd_fds_def)
  have "map_of (cd_connections u) r = None" using fresh(1) by (simp add: map_of_eq_None_iff)
  then have e: "cd_connections y = (r, i) # cd_connections u" by (simp add: y k emplace_def)
  have a: "alive {} y = alive {r} x" by (simp add: alive_def e k)
  have b: "snd ` set (cd_by_cid y) \<subseteq> alive {} y - set (cd_pending_removal y)"
  proof -
    have "snd ` set (cd_by_cid x) \<subseteq> alive {r} x - set (cd_pending_removal u)" using c(1) p by (simp add: cd_refs_ok_def)
    moreover have "r \<in> alive {r} x" by (simp add: alive_def)
    moreover have "cd_pending_removal y = cd_pending_removal u" "cd_by_cid y = emplace cid r (cd_by_cid x)" by (simp_all add: y p)
    ultimately show ?thesis using insert_within [OF _ _ fresh(2) emplace_snd] by (simp add: a)
  qed
  have "distinct (map fst (cd_connections y))" using c(1) fresh(1) by (simp add: e k cd_refs_ok_def)
  then have "cd_refs_ok {} y" using c(1) b unfolding cd_refs_ok_def a by (simp add: y)
  then show ?thesis using k e by (simp add: y cd_listen_def cd_fds_def)
qed

lemma reopen_ok:
  assumes ok: "cd_refs_ok {} d" and u: "reopen_idle a i d = (err, u)"
  shows "cd_refs_ok {} u" "cd_listen u = cd_listen d" "cd_fds u = cd_fds d"
  using ok update_socket_refs [OF ok, of "\<lambda>s. snd (OpenUdpSocket a s)" i] u by (auto simp: reopen_idle_def split: if_splits)

lemma make_ok:
  assumes ok: "cd_refs_ok {} d" and q: "case c of None \<Rightarrow> True | Some cs \<Rightarrow> list_all (\<lambda>c. c \<noteq> CallClosed) cs"
    and v: "make_connection c i d = (res, v)"
  shows "cd_refs_ok {} v \<and> cd_listen v = cd_listen d \<and> cd_fds v = cd_fds d \<and> (\<forall>r. res = Some r \<longrightarrow> r \<in> fst ` set (cd_connections v))"
proof (cases c)
  case None
  then have "res = None" "v = d\<lparr>cd_next_client_cid := cd_next_client_cid d + 1\<rparr>" using v by (simp_all add: make_connection_def Let_def)
  then show ?thesis using ok by (simp add: cd_refs_ok_def alive_def cd_listen_def cd_fds_def)
next
  case (Some calls)
  define x where "x = client_call (cd_next_ref d) calls (d\<lparr>cd_next_client_cid := cd_next_client_cid d + 1, cd_next_ref := cd_next_ref d + 1,
    cd_socket_index := (cd_socket_index d)(cd_next_ref d := i), cd_closed := (cd_closed d)(cd_next_ref d := False)\<rparr>)"
  define y where "y = x\<lparr>cd_by_cid := emplace (cd_next_client_cid d) (cd_next_ref d) (cd_by_cid x),
    cd_connections := emplace (cd_next_ref d) i (cd_connections x)\<rparr>"
  have "make_connection c i d = (Some (cd_next_ref d), y)" by (simp add: make_connection_def Some x_def y_def Let_def)
  then have "res = Some (cd_next_ref d)" "v = y" using v by simp_all
  then show ?thesis using new_connection_ok [OF ok _ refl x_def y_def] q Some by simp
qed

lemma create_client_ok:
  assumes ok: "cd_refs_ok {} d" and q: "case ca_connection a of None \<Rightarrow> True | Some cs \<Rightarrow> list_all (\<lambda>c. c \<noteq> CallClosed) cs"
    and v: "CreateNewConnection a i d = (res, v)"
  shows "cd_refs_ok {} v \<and> cd_listen v = cd_listen d \<and> cd_fds v = cd_fds d \<and> (\<forall>r. res = Some r \<longrightarrow> r \<in> fst ` set (cd_connections v))"
proof -
  obtain err u where u: "reopen_idle (ca_open a) i d = (err, u)" by force
  note r = reopen_ok [OF ok u]
  show ?thesis using v make_ok [OF r(1) q, of i res v] r by (cases err) (auto simp: CreateNewConnection_def u)
qed

text \<open>\<open>cd_ok\<close> is the invariant between events, but for the listener.\<close>

definition cd_ok :: "client_driver \<Rightarrow> bool" where
  "cd_ok d \<longleftrightarrow> cd_refs_ok {} d \<and> fds_ok d"

lemma cd_ok_listener [simp]:
  "cd_ok (d\<lparr>cd_accept_retry_alarm := a\<rparr>) = cd_ok d" "cd_ok (d\<lparr>cd_listen_armed := b\<rparr>) = cd_ok d" "cd_ok (d\<lparr>cd_now := t\<rparr>) = cd_ok d"
  by (simp_all add: cd_ok_def cd_refs_ok_def alive_def fds_ok_def)

lemma fds_same: "cd_fds v = cd_fds d \<Longrightarrow> fds_ok d \<Longrightarrow> fds_ok v"
  by (simp add: cd_fds_def fds_ok_def)

text \<open>Closing the new descriptor, or handing it to a connection that is alive.\<close>

definition one_more :: "tcp_fd \<Rightarrow> client_driver \<Rightarrow> bool" where
  "one_more fd d \<longleftrightarrow> cd_refs_ok {} d \<and>
     mset (cd_accepted_fds d) = add_mset fd (mset (map snd (cd_assigned_fds d)) + mset (cd_closed_fds d))"

lemma one_more_done:
  assumes "one_more fd d"
  shows "cd_ok (close_accepted fd d)" "r \<in> fst ` set (cd_connections d) \<Longrightarrow> cd_ok (client_AssignNewTcp r fd calls d)"
proof -
  show "cd_ok (close_accepted fd d)"
    using assms by (simp add: one_more_def cd_ok_def close_accepted_def cd_refs_ok_def alive_def fds_ok_def)
  let ?d = "d\<lparr>cd_assigned_fds := cd_assigned_fds d @ [(r, fd)]\<rparr>"
  assume "r \<in> fst ` set (cd_connections d)"
  moreover have "cd_refs_ok {} ?d" "fds_ok ?d" using assms by (simp_all add: one_more_def cd_refs_ok_def alive_def fds_ok_def)
  ultimately show "cd_ok (client_AssignNewTcp r fd calls d)"
    using driver_calls_ok [of ?d r calls] fds_same [of "client_call r calls ?d" ?d] by (simp add: cd_ok_def client_AssignNewTcp_def)
qed

lemma replace_slot_ok:
  assumes "one_more fd d" "case ca_connection a of None \<Rightarrow> True | Some cs \<Rightarrow> list_all (\<lambda>c. c \<noteq> CallClosed) cs"
  shows "cd_ok (replace_slot idx fd a calls d)"
proof -
  obtain res v where v: "CreateNewConnection a (idx mod cd_udp_socket_count d) d = (res, v)" by force
  from create_client_ok [OF _ assms(2) v] assms(1) have c: "cd_refs_ok {} v" "cd_fds v = cd_fds d"
    "\<forall>r. res = Some r \<longrightarrow> r \<in> fst ` set (cd_connections v)" by (simp_all add: one_more_def)
  then have "one_more fd v" using assms(1) by (simp add: one_more_def cd_fds_def)
  moreover from this have "one_more fd (v\<lparr>cd_pool_slots := sl\<rparr>)" for sl by (simp add: one_more_def cd_refs_ok_def alive_def)
  ultimately show ?thesis using one_more_done c(3) by (cases res) (simp_all add: replace_slot_def v)
qed

lemma accept_one_ok:
  assumes ok: "cd_ok d" and q: "quiet (Accepted fd captured a calls)"
  shows "cd_ok (accept_one fd captured a calls d)"
proof -
  define u where "u = d\<lparr>cd_accepted_fds := cd_accepted_fds d @ [fd]\<rparr>"
  define w where "w = u\<lparr>cd_pool_round_robin_next := u64 (cd_pool_round_robin_next u + 1)\<rparr>"
  define idx where "idx = cd_pool_round_robin_next u mod length (cd_pool_slots u)"
  have m: "one_more fd u" "one_more fd w"
    using ok by (simp_all add: u_def w_def cd_ok_def one_more_def cd_refs_ok_def alive_def fds_ok_def)
  have "r \<in> fst ` set (cd_connections w)" if "pool_slot idx w = Some r" for r
    using that by (simp add: pool_slot_def split: option.splits if_splits)
  then have "cd_ok (case pool_slot idx w of None \<Rightarrow> replace_slot idx fd a calls w
      | Some r \<Rightarrow> if cd_closed w r then replace_slot idx fd a calls w else client_AssignNewTcp r fd calls w)"
    using replace_slot_ok [OF m(2)] one_more_done(2) [OF m(2)] q by (simp split: option.split)
  then show ?thesis
    unfolding accept_one_def u_def [symmetric] Let_def w_def [symmetric] idx_def [symmetric] using one_more_done(1) [OF m(1)] by simp
qed

lemma AcceptLoop_ok: "cd_ok d \<Longrightarrow> list_all quiet answers \<Longrightarrow> AcceptLoop answers d = (b, v) \<Longrightarrow> cd_ok v \<and> (\<not> b \<longrightarrow> cd_accept_retry_alarm v \<noteq> None)"
proof (induction answers d arbitrary: b v rule: AcceptLoop.induct)
  case (2 uu d)
  then have v: "v = d\<lparr>cd_accept_retry_alarm := Some (cd_now d + kAcceptRetryDelay)\<rparr>" unfolding AcceptLoop.simps prod.inject by blast
  show ?case unfolding v cd_ok_listener using 2(1) by simp
next
  case (4 fd captured a calls answers d)
  have "cd_ok (accept_one fd captured a calls d)" by (rule accept_one_ok) (use 4(2,3) in simp_all)
  from 4(1) [OF this] show ?case using 4(3,4) by simp
qed simp_all

lemma listen_event_ok:
  assumes "cd_ok d" "list_all quiet answers"
  shows "cd_ok (client_OnListenEvent answers d) \<and>
    (let v = client_OnListenEvent answers d in cd_edge_triggered v \<or> cd_listen_armed v \<or> cd_accept_retry_alarm v \<noteq> None)"
proof -
  obtain b v where v: "AcceptLoop answers d = (b, v)" by force
  from AcceptLoop_ok [OF assms v] show ?thesis
    by (auto simp: client_OnListenEvent_def v Let_def)
qed

lemma calls_keep:
  assumes "cd_ok d" "r \<in> fst ` set (cd_connections d)"
  shows "cd_ok (client_call r calls d)" "cd_listen (client_call r calls d) = cd_listen d"
    "cd_connections (client_call r calls d) = cd_connections d"
  using driver_calls_ok [of d r calls] assms fds_same [of "client_call r calls d" d] by (simp_all add: cd_ok_def)

text \<open>The invariant of the events of a UDP socket, with the listener as it was.\<close>

definition udp_ok :: "bool \<times> bool \<times> QuicTime option \<Rightarrow> client_driver \<Rightarrow> bool" where
  "udp_ok l d \<longleftrightarrow> cd_ok d \<and> cd_listen d = l"

lemma update_udp_ok:
  assumes "udp_ok l d" "\<And>s. us_write_blocked_list (f s) = us_write_blocked_list s \<or> us_write_blocked_list (f s) = []"
  shows "udp_ok l (update_socket i f d)"
proof -
  have f: "set (us_write_blocked_list (f s)) \<subseteq> set (us_write_blocked_list s)" for s using assms(2) [of s] by auto
  have ok: "cd_refs_ok {} d" "fds_ok d" "cd_listen d = l" using assms(1) by (simp_all add: udp_ok_def cd_ok_def)
  then show ?thesis using update_socket_refs [OF ok(1), of f i] f fds_same [of "update_socket i f d" d] by (fastforce simp: udp_ok_def cd_ok_def)
qed

lemma rearm_udp_ok: "udp_ok l d \<Longrightarrow> udp_ok l (cd_rearm i e d)"
  unfolding cd_rearm_def by (rule update_udp_ok) (simp_all add: us_rearm_def)

lemma client_packet_ok:
  assumes "udp_ok l d"
  shows "udp_ok l (client_ProcessPacket calls cid d)"
proof -
  have "r \<in> fst ` set (cd_connections d)" if "map_of (cd_by_cid d) c = Some r" for r c
  proof -
    have "r \<in> snd ` set (cd_by_cid d)" using that by (force dest: map_of_SomeD)
    then show ?thesis using assms by (auto simp: udp_ok_def cd_ok_def cd_refs_ok_def alive_def)
  qed
  then show ?thesis using assms calls_keep [of d] by (auto simp: client_ProcessPacket_def udp_ok_def split: option.split)
qed

lemma client_packets_ok: "udp_ok l d \<Longrightarrow> udp_ok l (fold (\<lambda>(calls, cid). client_ProcessPacket calls cid) ps d)"
  by (induction ps arbitrary: d) (auto intro: client_packet_ok)

lemma client_calls_fold:
  "udp_ok l d \<Longrightarrow> set rs \<subseteq> fst ` set (cd_connections d) \<Longrightarrow> udp_ok l (fold (\<lambda>r. client_call r (writes r)) rs d)"
proof (induction rs arbitrary: d)
  case (Cons r rs)
  then show ?case using calls_keep [of d r "writes r"] by (simp add: udp_ok_def)
qed simp

lemma client_unblocked_ok:
  assumes ok: "udp_ok l d" and i: "i < length (cd_udp_sockets d)"
  shows "udp_ok l (client_OnWriterUnblocked writes i d)"
proof -
  have "cd_udp_sockets d ! i \<in> set (cd_udp_sockets d)" using i by simp
  then have "set (us_write_blocked_list (cd_udp_sockets d ! i)) \<subseteq> fst ` set (cd_connections d)"
    using ok by (auto simp: udp_ok_def cd_ok_def cd_refs_ok_def alive_def)
  then show ?thesis unfolding client_OnWriterUnblocked_def Let_def
    by (intro client_calls_fold update_udp_ok [OF ok]) simp_all
qed

lemma find_in_range: "find_udp_socket fd k ss = Some i \<Longrightarrow> i < k + length ss"
  by (induction ss arbitrary: k) (fastforce split: if_splits)+

lemma update_length [simp]:
  "length (cd_udp_sockets (update_socket i f d)) = length (cd_udp_sockets d)"
  "length (cd_udp_sockets (cd_rearm i e d)) = length (cd_udp_sockets d)"
  by (simp_all add: update_socket_def cd_rearm_def)

lemma udp_event_ok:
  assumes ok: "cd_ok d"
  shows "udp_ok (cd_listen d) (cdriver_step (UdpEvent fd events writes packets) d)"
proof (cases "FindUdpSocketByFd fd d")
  case None
  then show ?thesis using ok by (simp add: udp_ok_def)
next
  case (Some i)
  then have i: "i < length (cd_udp_sockets d)" using find_in_range [of fd 0 "cd_udp_sockets d" i] by (simp add: FindUdpSocketByFd_def)
  define d0 where "d0 = (if cd_edge_triggered d then d else update_socket i (\<lambda>s. s\<lparr>us_armed := us_armed s - events\<rparr>) d)"
  have 0: "udp_ok (cd_listen d) d0" "length (cd_udp_sockets d0) = length (cd_udp_sockets d)"
    using ok update_udp_ok [of "cd_listen d" d "\<lambda>s. s\<lparr>us_armed := us_armed s - events\<rparr>" i] by (simp_all add: d0_def udp_ok_def)
  define d1 where "d1 = (if IoError \<in> events then cd_rearm i IoError d0 else d0)"
  have 1: "udp_ok (cd_listen d) d1" "i < length (cd_udp_sockets d1)" using 0 rearm_udp_ok i by (simp_all add: d1_def)
  define d2 where "d2 = (if IoWritable \<in> events
      then let d = client_OnWriterUnblocked writes i d1
           in if \<not> QuicBlockedWriterList_Empty (us_write_blocked_list (cd_udp_sockets d ! i)) then cd_rearm i IoWritable d else d
      else d1)"
  have 2: "udp_ok (cd_listen d) d2" using 1 client_unblocked_ok [OF 1, of writes] rearm_udp_ok by (simp add: d2_def Let_def)
  have "cdriver_step (UdpEvent fd events writes packets) d =
      (if IoReadable \<in> events then cd_rearm i IoReadable (fold (\<lambda>(calls, cid). client_ProcessPacket calls cid) packets d2) else d2)"
    unfolding cdriver_step.simps Some option.case client_OnUdpEvent_def d0_def [symmetric] Let_def d1_def [symmetric]
    by (simp add: d2_def Let_def)
  then show ?thesis using 2 client_packets_ok rearm_udp_ok by simp
qed

lemma collect_client_ok:
  assumes ok: "udp_ok l d" and r: "r \<in> set (cd_pending_removal d)"
  shows "udp_ok l (collect_client_connection r d)" "cd_pending_removal (collect_client_connection r d) = cd_pending_removal d"
proof -
  let ?v = "collect_client_connection r d"
  show p: "cd_pending_removal ?v = cd_pending_removal d" by (simp add: collect_client_connection_def split: option.split)
  show "udp_ok l ?v"
  proof (cases "map_of (cd_connections d) r")
    case None
    then show ?thesis using ok by (simp add: collect_client_connection_def)
  next
    case (Some i)
    have refs: "cd_refs_ok {} d" using ok by (simp add: udp_ok_def cd_ok_def)
    have live: "r \<in> alive {} d" using Some by (force simp: alive_def dest: map_of_SomeD)
    have a: "alive {} ?v = alive {} d - {r}" using Some by (force simp: alive_def collect_client_connection_def erase_key_def)
    have f: "cd_destroyed ?v = r # cd_destroyed d" "cd_next_ref ?v = cd_next_ref d" "cd_by_cid ?v = cd_by_cid d" "cd_called_dead ?v = cd_called_dead d"
      "cd_connections ?v = erase_key r (cd_connections d)"
      "cd_udp_sockets ?v = map (\<lambda>s. s\<lparr>us_write_blocked_list := snd (QuicBlockedWriterList_Remove r (us_write_blocked_list s))\<rparr>) (cd_udp_sockets d)"
      using Some by (simp_all add: collect_client_connection_def)
    have "\<forall>s \<in> set (cd_udp_sockets ?v). set (us_write_blocked_list s) \<subseteq> alive {} d - {r}"
      using refs unfolding f by (auto simp: cd_refs_ok_def)
    moreover have "snd ` set (cd_by_cid d) \<subseteq> alive {} d - {r} - set (cd_pending_removal d)"
      using refs r unfolding cd_refs_ok_def by blast
    ultimately have "cd_refs_ok {} ?v"
      using refs live erase_key_facts(2) [of "cd_connections d" r] unfolding cd_refs_ok_def a p f(1-5) by auto
    moreover have "cd_listen ?v = cd_listen d" "cd_fds ?v = cd_fds d"
      using Some by (simp_all add: collect_client_connection_def cd_listen_def cd_fds_def)
    ultimately show ?thesis using ok fds_same [of ?v d] by (simp add: udp_ok_def cd_ok_def)
  qed
qed

lemma client_garbage_ok:
  assumes ok: "cd_ok d"
  shows "udp_ok (cd_listen d) (client_CollectGarbage d)"
proof -
  have "udp_ok l (fold collect_client_connection rs v)" if "udp_ok l v" "set rs \<subseteq> set (cd_pending_removal v)" for l rs v
    using that by (induction rs arbitrary: v) (simp_all add: collect_client_ok)
  then have "udp_ok (cd_listen d) (fold collect_client_connection (cd_pending_removal d) d)" using ok by (simp add: udp_ok_def)
  moreover have "udp_ok l (v\<lparr>cd_pending_removal := []\<rparr>)" if "udp_ok l v" for l v
    using that by (simp add: udp_ok_def cd_ok_def cd_refs_ok_def alive_def fds_ok_def cd_listen_def) blast
  ultimately show ?thesis by (simp add: client_CollectGarbage_def Let_def)
qed

text \<open>The listener is asked about, or will be.\<close>

definition listening :: "client_driver \<Rightarrow> bool" where
  "listening d \<longleftrightarrow> cd_edge_triggered d \<or> cd_listen_armed d \<or> cd_accept_retry_alarm d \<noteq> None"

lemma cdriver_reach_ok:
  assumes "cdriver_reach d0 d" "cd_ok d0" "listening d0"
  shows "cd_ok d \<and> listening d"
  using assms
proof induction
  case (cdriver_next d e)
  have same: "cd_ok v \<and> listening v" if "udp_ok (cd_listen d) v" for v
    using that cdriver_next by (simp add: udp_ok_def cd_listen_def listening_def)
  show ?case
  proof (cases e)
    case (UdpEvent fd events writes packets)
    then show ?thesis using same udp_event_ok cdriver_next by simp
  next
    case (ListenEvent answers)
    then show ?thesis using cdriver_next listen_event_ok [of "if cd_edge_triggered d then d else d\<lparr>cd_listen_armed := False\<rparr>" answers]
      by (simp add: listening_def Let_def)
  next
    case (RetryAlarm answers)
    then show ?thesis using cdriver_next listen_event_ok [of "d\<lparr>cd_accept_retry_alarm := None\<rparr>" answers]
      by (simp add: listening_def Let_def)
  next
    case (ConnectionCalls r calls)
    then show ?thesis using same calls_keep [of d r calls] cdriver_next by (simp add: udp_ok_def)
  next
    case (DriverClock t)
    then show ?thesis using cdriver_next by (simp add: listening_def)
  next
    case ClientDriverGarbage
    then show ?thesis using same client_garbage_ok cdriver_next by simp
  qed
qed simp

lemma client_start_ok:
  assumes "QuictunClientDriver_Start opens v6 a (QuictunClientDriver_new transparent sockets per_udp edge now) = Inr d"
  shows "cd_ok d \<and> listening d"
proof -
  define u where "u = (QuictunClientDriver_new transparent sockets per_udp edge now)
    \<lparr>cd_udp_sockets := map (\<lambda>i. snd (OpenUdpSocket (opens i) empty_udp_socket)) [0..<nat (max sockets 1)]\<rparr>"
  have "d = u\<lparr>cd_listen_armed := True\<rparr>"
    using assms by (auto simp: QuictunClientDriver_Start_def QuictunClientDriver_new_def u_def Let_def split: if_splits)
  moreover have "cd_refs_ok {} u" "fds_ok u"
    by (auto simp: u_def QuictunClientDriver_new_def cd_refs_ok_def alive_def fds_ok_def empty_udp_socket_def Let_def)
  ultimately show ?thesis by (simp add: cd_ok_def [of u] listening_def)
qed

section \<open>Safety of the client driver\<close>

definition sample_open :: open_answers where
  "sample_open = \<lparr>oa_create = Some 5, oa_connect = True, oa_address = True, oa_register = True\<rparr>"

definition sample_listening :: client_listen_answers where
  "sample_listening = \<lparr>cl_create = True, cl_reuse = True, cl_ipv6_only = True, cl_bind = True, cl_listen = True, cl_register = True\<rparr>"

definition sample_create :: "conn_call list \<Rightarrow> create_answers" where
  "sample_create calls = \<lparr>ca_open = sample_open, ca_connection = Some calls\<rparr>"

definition sample_client_driver :: client_driver where
  "sample_client_driver = projr (QuictunClientDriver_Start (\<lambda>_. sample_open) False sample_listening (QuictunClientDriver_new True 1 1 False 0))"

text \<open>Two accepted connections, one whose destination is not known, then no more descriptors; the connection
  closes, is collected, and a late packet for it arrives; half a second later accepting goes on.\<close>

definition sample_cdriver_events :: "cdriver_event list" where
  "sample_cdriver_events =
     [ListenEvent [Accepted 20 True (sample_create [CallWriteBlocked True]) [], Accepted 21 False (sample_create []) [],
        Accepted 22 True (sample_create []) [], AcceptResourceExhausted],
      ConnectionCalls 0 [CallClosed], ClientDriverGarbage, UdpEvent 5 {IoReadable, IoWritable} (\<lambda>_. []) [([], Some 1)],
      DriverClock 500000, RetryAlarm [Accepted 23 True (sample_create []) []]]"

lemma sample_cdriver_fields:
  "map_option (\<lambda>d. (cd_destroyed d, cd_assigned_fds d, cd_closed_fds d, cd_by_cid d)) (run_cdriver sample_cdriver_events sample_client_driver) =
     Some ([0], [(0, 20), (0, 22), (1, 23)], [21], [(2, 1)])"
  by code_simp

text \<open>C15. As long as no connection closes inside its own constructor, the client's driver never calls a
  connection that was destroyed, whatever packets arrive and whenever connections close: the routing table
  and the lists of blocked writers hold connections that are alive only.  Every accepted TCP connection is
  handed to exactly one connection or closed, and the listener never goes deaf: an event of it is asked
  for, or the alarm after running out of descriptors is set.\<close>

theorem client_driver_safe:
  assumes "QuictunClientDriver_Start opens v6 a (QuictunClientDriver_new transparent sockets per_udp edge now) = Inr d0"
    "cdriver_reach d0 d"
  shows "\<not> cd_called_dead d \<and> snd ` set (cd_by_cid d) \<subseteq> fst ` set (cd_connections d) \<and>
    (\<forall>s \<in> set (cd_udp_sockets d). set (us_write_blocked_list s) \<subseteq> fst ` set (cd_connections d)) \<and>
    fst ` set (cd_connections d) \<inter> set (cd_destroyed d) = {} \<and>
    mset (cd_accepted_fds d) = mset (map snd (cd_assigned_fds d)) + mset (cd_closed_fds d) \<and>
    (cd_edge_triggered d \<or> cd_listen_armed d \<or> cd_accept_retry_alarm d \<noteq> None)"
proof -
  have ok: "cd_refs_ok {} d" "fds_ok d" "listening d"
    using cdriver_reach_ok [OF assms(2)] client_start_ok [OF assms(1)] by (simp_all add: cd_ok_def)
  then show ?thesis by (auto simp: cd_refs_ok_def alive_def fds_ok_def listening_def)
qed

theorem client_driver_safe_witness:
  "\<exists>d. run_cdriver sample_cdriver_events sample_client_driver = Some d \<and> cd_destroyed d = [0] \<and> \<not> cd_called_dead d \<and>
     mset (cd_accepted_fds d) = {#20, 22, 23, 21#}"
proof -
  have s: "QuictunClientDriver_Start (\<lambda>_. sample_open) False sample_listening (QuictunClientDriver_new True 1 1 False 0) = Inr sample_client_driver"
    by (simp add: sample_client_driver_def QuictunClientDriver_Start_def sample_listening_def Let_def)
  obtain d where d: "run_cdriver sample_cdriver_events sample_client_driver = Some d"
    using sample_cdriver_fields by (cases "run_cdriver sample_cdriver_events sample_client_driver") simp_all
  have r: "cdriver_reach sample_client_driver d" by (rule run_cdriver_reach [OF d cdriver_start])
  have f: "cd_destroyed d = [0]" "cd_assigned_fds d = [(0, 20), (0, 22), (1, 23)]" "cd_closed_fds d = [21]"
    using sample_cdriver_fields by (simp_all add: d)
  have "\<not> cd_called_dead d \<and> mset (cd_accepted_fds d) = {#20, 22, 23, 21#}" using client_driver_safe [OF s r] f by simp
  then show ?thesis using d f(1) by blast
qed


end
